(* ===== verification/Prelude.thy ===== *)
theory Prelude
  imports Main "HOL-Library.Word" "HOL-Library.List_Lexorder" "HOL-Library.Sublist"
begin

text \<open>
  The vocabulary every component of the broker shares: bytes, fixed-width integers,
  UUIDs and time stamps; Go errors, panics and results as values; checked slicing and
  indexing; the big-endian accessors of \<^verbatim>\<open>encoding/binary\<close>; the conversions between
  Go strings and byte slices. The lemmas on them are collected in the named theorem
  lists \<open>go_simps\<close> (evaluation of results and slices), \<open>codec_simps\<close> (round trips and
  lengths of encoders) and \<open>no_panic\<close> (operations that never panic).
\<close>

unbundle bit_operations_syntax

named_theorems go_simps "evaluation of Go results, slices and indexing"
named_theorems codec_simps "round trips and lengths of the byte encoders"
named_theorems no_panic "operations whose result is never a panic"

section \<open>Types\<close>

type_synonym byte = "8 word"
type_synonym bytes = "byte list"
type_synonym u16 = "16 word"
type_synonym u64 = "64 word"

text \<open>
  A UUID is an array of 16 bytes; it is kept as the 128-bit word those bytes spell in
  big-endian order, so that every value of the type is a UUID. \<^verbatim>\<open>uuid.Nil\<close> is 0.
\<close>

type_synonym uuid = "128 word"

abbreviation uuid_Nil :: uuid where
  "uuid_Nil \<equiv> 0"

text \<open>
  A \<^verbatim>\<open>time.Time\<close> is the exact number of nanoseconds since the Unix epoch. The zero
  time of Go (1 January of year 1) is a value of the type; it lies outside the range of
  \<^verbatim>\<open>UnixNano\<close>, which casts to 64 bits.
\<close>

type_synonym gotime = int

definition zero_time :: gotime where
  "zero_time = - 62135596800 * 1000000000"

section \<open>Errors and results\<close>

datatype farg = FNat nat | FInt int | FStr string

text \<open>
  \<open>Err\<close> is \<^verbatim>\<open>errors.New\<close>, \<open>Errorf\<close> a formatted error with its arguments, \<open>Wrap\<close> and
  \<open>Wrapf\<close> an error around a cause (\<^verbatim>\<open>errors.Wrap\<close>, \<^verbatim>\<open>%w\<close>). \<open>Panic\<close> is a run-time
  panic, such as an index out of range: it is not an error value, unwinds the call
  stack and is never wrapped.
\<close>

datatype go_error =
    Err string
  | Errorf string "farg list"
  | Wrap string go_error
  | Wrapf string "farg list" go_error
  | Panic string

type_synonym 'a res = "go_error + 'a"

text \<open>\<^verbatim>\<open>errors.Is\<close>: the error or one of the errors it wraps is the target.\<close>

primrec errors_is :: "go_error \<Rightarrow> go_error \<Rightarrow> bool" where
  "errors_is (Err s) t = (Err s = t)"
| "errors_is (Errorf s as) t = (Errorf s as = t)"
| "errors_is (Wrap s e) t = (Wrap s e = t \<or> errors_is e t)"
| "errors_is (Wrapf s as e) t = (Wrapf s as e = t \<or> errors_is e t)"
| "errors_is (Panic s) t = (Panic s = t)"

fun wrap_error :: "string \<Rightarrow> go_error \<Rightarrow> go_error" where
  "wrap_error m (Panic s) = Panic s"
| "wrap_error m e = Wrap m e"

fun wrapf_error :: "string \<Rightarrow> farg list \<Rightarrow> go_error \<Rightarrow> go_error" where
  "wrapf_error m as (Panic s) = Panic s"
| "wrapf_error m as e = Wrapf m as e"

text \<open>\<open>rbind\<close> is the \<^verbatim>\<open>if err != nil { return err }\<close> after a call, \<open>wrap_res\<close> the same with \<^verbatim>\<open>errors.Wrap\<close>.\<close>

primrec rbind :: "'a res \<Rightarrow> ('a \<Rightarrow> 'b res) \<Rightarrow> 'b res" where
  "rbind (Inl e) f = Inl e"
| "rbind (Inr x) f = f x"

primrec wrap_res :: "string \<Rightarrow> 'a res \<Rightarrow> 'a res" where
  "wrap_res m (Inl e) = Inl (wrap_error m e)"
| "wrap_res m (Inr x) = Inr x"

definition panic_free :: "'a res \<Rightarrow> bool" where
  "panic_free r \<longleftrightarrow> (\<forall>s. r \<noteq> Inl (Panic s))"

section \<open>Checked slicing and indexing\<close>

definition go_slice :: "'a list \<Rightarrow> nat \<Rightarrow> nat \<Rightarrow> 'a list res" where
  "go_slice xs i j =
     (if i \<le> j \<and> j \<le> length xs then Inr (take (j - i) (drop i xs))
      else Inl (Panic ''slice bounds out of range''))"

definition go_index :: "'a list \<Rightarrow> nat \<Rightarrow> 'a res" where
  "go_index xs i = (if i < length xs then Inr (xs ! i) else Inl (Panic ''index out of range''))"

text \<open>The most bytes a slice can have: the address space of the runtime on a 64-bit machine.\<close>

definition max_alloc :: int where
  "max_alloc = 2 ^ 48"

section \<open>Big-endian integers\<close>

text \<open>
  \<open>put_be n w\<close> is the low \<open>n\<close> bytes of \<open>w\<close>, most significant first
  (\<^verbatim>\<open>byte(v >> 56), ..., byte(v)\<close>); \<open>get_be\<close> shifts the bytes back together.
\<close>

primrec put_be :: "nat \<Rightarrow> 'a::len word \<Rightarrow> bytes" where
  "put_be 0 w = []"
| "put_be (Suc n) w = (ucast (drop_bit (8 * n) w) :: byte) # put_be n w"

primrec get_be :: "bytes \<Rightarrow> 'a::len word" where
  "get_be [] = 0"
| "get_be (b # bs) = push_bit (8 * length bs) (ucast b) OR get_be bs"

definition go_uint16 :: "bytes \<Rightarrow> u16 res" where
  "go_uint16 b = rbind (go_slice b 0 2) (\<lambda>x. Inr (get_be x))"

definition go_uint64 :: "bytes \<Rightarrow> u64 res" where
  "go_uint64 b = rbind (go_slice b 0 8) (\<lambda>x. Inr (get_be x))"

text \<open>\<^verbatim>\<open>uint64(t.UnixNano())\<close> and \<^verbatim>\<open>time.Unix(0, int64(w))\<close>.\<close>

definition unix_nano :: "gotime \<Rightarrow> u64" where
  "unix_nano t = word_of_int t"

definition time_unix :: "u64 \<Rightarrow> gotime" where
  "time_unix w = sint w"

definition in_int64 :: "int \<Rightarrow> bool" where
  "in_int64 t \<longleftrightarrow> - (2 ^ 63) \<le> t \<and> t < 2 ^ 63"

section \<open>Strings and byte slices\<close>

definition bytes_of :: "string \<Rightarrow> bytes" where
  "bytes_of s = map (\<lambda>c. word_of_nat (of_char c)) s"

definition string_of :: "bytes \<Rightarrow> string" where
  "string_of bs = map (\<lambda>b. char_of (unat b)) bs"

section \<open>Lemmas on results\<close>

lemmas [go_simps] = rbind.simps wrap_res.simps wrap_error.simps wrapf_error.simps

lemma rbind_Inr_iff: "rbind r f = Inr y \<longleftrightarrow> (\<exists>x. r = Inr x \<and> f x = Inr y)"
  by (cases r) auto

lemma wrap_res_Inr_iff [simp]: "wrap_res m r = Inr x \<longleftrightarrow> r = Inr x"
  by (cases r) auto

lemma wrap_error_Panic_iff [simp]: "wrap_error m e = Panic s \<longleftrightarrow> e = Panic s"
  by (cases e) auto

lemma wrapf_error_Panic_iff [simp]: "wrapf_error m as e = Panic s \<longleftrightarrow> e = Panic s"
  by (cases e) auto

lemma panic_free_simps [simp]:
  "panic_free (Inr x)" "panic_free (Inl (Err s))" "panic_free (Inl (Errorf s as))"
  "panic_free (Inl (Wrap s e))" "panic_free (Inl (Wrapf s as e))" "\<not> panic_free (Inl (Panic s))"
  by (auto simp: panic_free_def)

lemma panic_free_wrap_res [simp]: "panic_free (wrap_res m r) \<longleftrightarrow> panic_free r"
  by (cases r) (auto simp: panic_free_def)

lemma panic_free_rbind [no_panic]:
  "panic_free r \<Longrightarrow> (\<And>x. r = Inr x \<Longrightarrow> panic_free (f x)) \<Longrightarrow> panic_free (rbind r f)"
  by (cases r) (auto simp: panic_free_def)

lemma panic_free_if [no_panic]:
  "(b \<Longrightarrow> panic_free r) \<Longrightarrow> (\<not> b \<Longrightarrow> panic_free q) \<Longrightarrow> panic_free (if b then r else q)"
  by simp

lemma panic_free_case_prod [no_panic]:
  "(\<And>a b. p = (a, b) \<Longrightarrow> panic_free (f a b)) \<Longrightarrow> panic_free (case p of (a, b) \<Rightarrow> f a b)"
  by (cases p) simp

section \<open>Lemmas on slices\<close>

lemma go_slice_ok [go_simps]:
  "i \<le> j \<Longrightarrow> j \<le> length xs \<Longrightarrow> go_slice xs i j = Inr (take (j - i) (drop i xs))"
  by (simp add: go_slice_def)

lemma go_slice_append_mid [go_simps]:
  "j = length pre + length mid \<Longrightarrow> go_slice (pre @ mid @ post) (length pre) j = Inr mid"
  by (simp add: go_slice_def)

lemma go_slice_Inr_iff:
  "go_slice xs i j = Inr ys \<longleftrightarrow> i \<le> j \<and> j \<le> length xs \<and> ys = take (j - i) (drop i xs)"
  by (auto simp: go_slice_def)

lemma length_go_slice: "go_slice xs i j = Inr ys \<Longrightarrow> length ys = j - i"
  by (auto simp: go_slice_Inr_iff)

lemma go_index_ok [go_simps]: "i < length xs \<Longrightarrow> go_index xs i = Inr (xs ! i)"
  by (simp add: go_index_def)

lemma panic_free_go_slice [no_panic]:
  "i \<le> j \<Longrightarrow> j \<le> length xs \<Longrightarrow> panic_free (go_slice xs i j)"
  by (simp add: go_slice_def)

lemma panic_free_go_index [no_panic]: "i < length xs \<Longrightarrow> panic_free (go_index xs i)"
  by (simp add: go_index_def)

section \<open>Lemmas on big-endian integers\<close>

lemma length_put_be [simp, codec_simps]: "length (put_be n w) = n"
  by (induction n) auto

lemma get_be_append:
  "(get_be (xs @ ys) :: 'a::len word) = push_bit (8 * length ys) (get_be xs) OR get_be ys"
  by (induction xs) (auto simp: push_bit_or algebra_simps or.assoc)

lemma get_be_put_be_take: "(get_be (put_be n w) :: 'a::len word) = take_bit (8 * n) w"
proof (induction n)
  case 0
  then show ?case by simp
next
  case (Suc n)
  have "(push_bit (8 * n) (ucast (ucast (drop_bit (8 * n) w) :: byte)) OR take_bit (8 * n) w)
        = take_bit (8 * Suc n) w"
    by (rule bit_word_eqI) (auto simp: bit_simps dest: bit_imp_le_length)
  with Suc.IH show ?case by simp
qed

lemma get_be_put_be [codec_simps]:
  "LENGTH('a) \<le> 8 * n \<Longrightarrow> (get_be (put_be n w) :: 'a::len word) = w"
  by (simp add: get_be_put_be_take take_bit_word_eq_self)

lemma bit_get_be: "bit (get_be bs :: 'a::len word) k \<Longrightarrow> k < 8 * length bs"
proof (induction bs)
  case Nil
  then show ?case by simp
next
  case (Cons b bs)
  then show ?case
    by (auto simp: bit_simps dest: bit_imp_le_length)
qed

lemma put_be_or_high:
  "m \<le> n \<Longrightarrow> put_be m (push_bit (8 * n) x OR y) = put_be m (y :: 'a::len word)"
proof (induction m)
  case 0
  then show ?case by simp
next
  case (Suc m)
  have "(ucast (drop_bit (8 * m) (push_bit (8 * n) x OR y)) :: byte) = ucast (drop_bit (8 * m) y)"
    using Suc.prems by (intro bit_word_eqI) (auto simp: bit_simps)
  with Suc show ?case by simp
qed

lemma put_be_get_be [codec_simps]:
  "8 * length bs \<le> LENGTH('a) \<Longrightarrow> put_be (length bs) (get_be bs :: 'a::len word) = bs"
proof (induction bs)
  case Nil
  then show ?case by simp
next
  case (Cons b bs)
  have "(ucast (drop_bit (8 * length bs) (get_be (b # bs) :: 'a word)) :: byte) = b"
    using Cons.prems
    by (intro bit_word_eqI) (auto simp: bit_simps dest: bit_get_be)
  with Cons show ?case by (simp add: put_be_or_high)
qed

lemma go_uint16_ok [go_simps]: "length b = 2 \<Longrightarrow> go_uint16 b = Inr (get_be b)"
  by (simp add: go_uint16_def go_slice_def)

lemma go_uint64_ok [go_simps]: "8 \<le> length b \<Longrightarrow> go_uint64 b = Inr (get_be (take 8 b))"
  by (simp add: go_uint64_def go_slice_def)

lemma panic_free_go_uint16 [no_panic]: "2 \<le> length b \<Longrightarrow> panic_free (go_uint16 b)"
  by (simp add: go_uint16_def go_slice_def)

lemma panic_free_go_uint64 [no_panic]: "8 \<le> length b \<Longrightarrow> panic_free (go_uint64 b)"
  by (simp add: go_uint64_def go_slice_def)

lemma time_unix_unix_nano [codec_simps]: "in_int64 t \<Longrightarrow> time_unix (unix_nano t) = t"
  by (simp add: time_unix_def unix_nano_def in_int64_def signed_of_int
      signed_take_bit_int_eq_self)

text \<open>A number below another one can be incremented without wrapping.\<close>

lemma unat_plus_one: "(a :: u64) < b \<Longrightarrow> unat (a + 1) = Suc (unat a)"
  using unsigned_less [of b, where 'a = nat] unat_add_lem [of a 1]
  by (simp add: word_less_nat_alt)

section \<open>Lemmas on strings\<close>

lemma string_of_bytes_of [simp, codec_simps]: "string_of (bytes_of s) = s"
proof -
  have "char_of (unat (word_of_nat (of_char c) :: byte)) = c" for c :: char
    by (simp add: unat_of_nat nat_of_char_less_256)
  then show ?thesis by (simp add: string_of_def bytes_of_def o_def)
qed

lemma bytes_of_string_of [simp, codec_simps]: "bytes_of (string_of b) = b"
proof -
  have "word_of_nat (of_char (char_of (unat x))) = x" for x :: byte
    using unsigned_less [where 'a = nat, of x] by simp
  then show ?thesis by (simp add: string_of_def bytes_of_def o_def)
qed

lemma length_bytes_of [simp]: "length (bytes_of s) = length s"
  by (simp add: bytes_of_def)

lemma length_string_of [simp]: "length (string_of b) = length b"
  by (simp add: string_of_def)

lemma bytes_of_inject [simp]: "bytes_of s = bytes_of t \<longleftrightarrow> s = t"
  by (metis string_of_bytes_of)

lemma string_of_inject [simp]: "string_of s = string_of t \<longleftrightarrow> s = t"
  by (metis bytes_of_string_of)

lemma bytes_of_append: "bytes_of (s @ t) = bytes_of s @ bytes_of t"
  by (simp add: bytes_of_def)

lemma bytes_of_eq_Nil_iff [simp]: "bytes_of s = [] \<longleftrightarrow> s = []"
  by (simp add: bytes_of_def)

end
