(* ===== verification/Codec.thy ===== *)
theory Codec
  imports Prelude
begin

text \<open>
  The contracts the broker's wire formats share, as locales: \<open>codec\<close> (a decoder undoes an
  encoder on well-formed values), \<open>canonical_codec\<close> (moreover every accepted input is the
  encoding of its result), \<open>stream_codec\<close> (the decoder takes one value off the front of a
  byte stream and leaves the rest), \<open>field_codec\<close> (the decoder reads a value at a position
  of a buffer) and \<open>field_loop\<close> (a loop that reads fields until the buffer is used up).
  Each component interprets them on its own encoder and decoder.
\<close>

locale codec =
  fixes enc :: "'a \<Rightarrow> bytes"
    and dec :: "bytes \<Rightarrow> 'a res"
    and wf :: "'a \<Rightarrow> bool"
  assumes dec_enc: "wf x \<Longrightarrow> dec (enc x) = Inr x"
begin

lemma enc_inject: "wf x \<Longrightarrow> wf y \<Longrightarrow> enc x = enc y \<longleftrightarrow> x = y"
  using dec_enc by (metis Inr_inject)

end

locale canonical_codec = codec +
  assumes dec_wf: "dec b = Inr x \<Longrightarrow> wf x"
    and enc_dec: "dec b = Inr x \<Longrightarrow> enc x = b"
begin

lemma dec_iff: "dec b = Inr x \<longleftrightarrow> wf x \<and> b = enc x"
  using dec_enc dec_wf enc_dec by blast

lemma dec_inject: "dec b = Inr x \<Longrightarrow> dec c = Inr x \<Longrightarrow> b = c"
  using enc_dec by blast

end

text \<open>\<open>read_n dec n s\<close> takes \<open>n\<close> values off the stream \<open>s\<close>, one after the other.\<close>

primrec read_n :: "(bytes \<Rightarrow> ('a \<times> bytes) res) \<Rightarrow> nat \<Rightarrow> bytes \<Rightarrow> ('a list \<times> bytes) res" where
  "read_n dec 0 s = Inr ([], s)"
| "read_n dec (Suc n) s =
     rbind (dec s) (\<lambda>(x, s'). rbind (read_n dec n s') (\<lambda>(xs, s''). Inr (x # xs, s'')))"

locale stream_codec =
  fixes enc :: "'a \<Rightarrow> bytes"
    and dec :: "bytes \<Rightarrow> ('a \<times> bytes) res"
    and wf :: "'a \<Rightarrow> bool"
  assumes dec_append: "wf x \<Longrightarrow> dec (enc x @ rest) = Inr (x, rest)"
begin

lemma read_n_concat:
  "list_all wf xs \<Longrightarrow> read_n dec (length xs) (concat (map enc xs) @ rest) = Inr (xs, rest)"
  by (induction xs) (auto simp: dec_append)

lemma concat_inject:
  assumes "list_all wf xs" "list_all wf ys" "length xs = length ys"
    and "concat (map enc xs) = concat (map enc ys)"
  shows "xs = ys"
  using read_n_concat [OF assms(1), of "[]"] read_n_concat [OF assms(2), of "[]"] assms(3,4)
  by simp

end

sublocale stream_codec \<subseteq> whole: codec enc "\<lambda>b. rbind (dec b) (\<lambda>(x, _). Inr x)" wf
proof
  show "wf x \<Longrightarrow> rbind (dec (enc x)) (\<lambda>(x, _). Inr x) = Inr x" for x
    using dec_append [of x "[]"] by simp
qed

locale field_codec =
  fixes enc :: "'a \<Rightarrow> bytes"
    and rd :: "bytes \<Rightarrow> nat \<Rightarrow> ('a \<times> nat) res"
    and wf :: "'a \<Rightarrow> bool"
  assumes rd_at: "wf x \<Longrightarrow>
    rd (pre @ enc x @ post) (length pre) = Inr (x, length pre + length (enc x))"
begin

lemma rd_front: "wf x \<Longrightarrow> rd (enc x @ post) 0 = Inr (x, length (enc x))"
  using rd_at [of x "[]"] by simp

lemma rd_pos: "wf x \<Longrightarrow> n = length pre \<Longrightarrow> rd (pre @ enc x @ post) n = Inr (x, n + length (enc x))"
  using rd_at by simp

end

locale field_loop = field_codec +
  fixes loop :: "bytes \<Rightarrow> nat \<Rightarrow> 'a list \<Rightarrow> 'a list res"
  assumes loop_step: "pos < length b \<Longrightarrow> rd b pos = Inr (x, pos') \<Longrightarrow> loop b pos acc = loop b pos' (acc @ [x])"
    and loop_done: "\<not> pos < length b \<Longrightarrow> loop b pos acc = Inr acc"
    and enc_nonempty: "wf x \<Longrightarrow> enc x \<noteq> []"
begin

lemma loop_reads:
  "list_all wf xs \<Longrightarrow> n = length pre \<Longrightarrow> loop (pre @ concat (map enc xs)) n acc = Inr (acc @ xs)"
proof (induction xs arbitrary: pre acc n)
  case Nil
  then show ?case by (simp add: loop_done)
next
  case (Cons x xs)
  let ?b = "pre @ enc x @ concat (map enc xs)"
  from Cons.prems have wf: "wf x" and wfs: "list_all wf xs" by auto
  have "loop ?b n acc = loop ?b (n + length (enc x)) (acc @ [x])"
    using wf Cons.prems(2) enc_nonempty [OF wf]
    by (intro loop_step) (auto simp: rd_at)
  also have "\<dots> = loop ((pre @ enc x) @ concat (map enc xs)) (n + length (enc x)) (acc @ [x])"
    by simp
  also have "\<dots> = Inr ((acc @ [x]) @ xs)"
    by (rule Cons.IH [OF wfs]) (simp add: Cons.prems(2))
  finally show ?case by simp
qed

end

end
