(* ===== verification/Envelope.thy ===== *)
theory Envelope
  imports Codec
begin

text \<open>
  The binary envelope around every message (\<^verbatim>\<open>core/envelope/envelope.go\<close>): its record, the
  constructors used by the SDK and the broker, the encoder, the decoder with each of its
  errors, and the guess whether a stored value is an envelope. The decoder is shown to be a
  canonical inverse of the encoder and never to panic.
\<close>

section \<open>The format\<close>

definition Magic :: string where
  "Magic = ''BMQ1''"

definition Version :: byte where
  "Version = 1"

definition headerFixedLen :: nat where
  "headerFixedLen = 4 + 1 + 16 + 16 + 8 + 2"

definition ErrTooShort :: go_error where
  "ErrTooShort = Err ''envelope: buffer too short''"

definition ErrBadMagic :: go_error where
  "ErrBadMagic = Err ''envelope: invalid magic''"

definition ErrBadVersion :: go_error where
  "ErrBadVersion = Err ''envelope: unsupported version''"

definition ErrInvalidUUID :: go_error where
  "ErrInvalidUUID = Err ''envelope: invalid uuid bytes''"

record Envelope =
  env_IdempotencyID :: uuid
  env_ServerMsgID :: uuid
  env_PublishTS :: gotime
  env_UserProps :: bytes
  env_Payload :: bytes

text \<open>
  \<open>newV7\<close> is the value \<^verbatim>\<open>uuid.NewV7\<close> returns if it is called, \<open>now\<close> the value of
  \<^verbatim>\<open>time.Now\<close>.
\<close>

definition NewPublish :: "uuid \<Rightarrow> gotime \<Rightarrow> uuid \<Rightarrow> bytes \<Rightarrow> Envelope" where
  "NewPublish newV7 now idempotencyID payload =
     \<lparr>env_IdempotencyID = (if idempotencyID = uuid_Nil then newV7 else idempotencyID),
      env_ServerMsgID = uuid_Nil,
      env_PublishTS = now,
      env_UserProps = [],
      env_Payload = payload\<rparr>"

definition WithServerMsgID :: "Envelope \<Rightarrow> uuid \<Rightarrow> Envelope" where
  "WithServerMsgID e i = e\<lparr>env_ServerMsgID := i\<rparr>"

definition Encode :: "Envelope \<Rightarrow> bytes" where
  "Encode e =
     bytes_of Magic @ [Version] @
     put_be 16 (env_IdempotencyID e) @
     put_be 16 (env_ServerMsgID e) @
     put_be 8 (unix_nano (env_PublishTS e)) @
     put_be 2 (word_of_nat (length (env_UserProps e)) :: u16) @
     env_UserProps e @ env_Payload e"

definition Decode :: "bytes \<Rightarrow> Envelope res" where
  "Decode data =
     (if length data < headerFixedLen then Inl ErrTooShort
      else rbind (go_slice data 0 4) (\<lambda>magic.
        if string_of magic \<noteq> Magic then Inl ErrBadMagic
        else rbind (go_index data 4) (\<lambda>version.
        if version \<noteq> Version then Inl (Wrapf ''%w: %d'' [FNat (unat version)] ErrBadVersion)
        else rbind (go_slice data 5 21) (\<lambda>idemB.
        rbind (go_slice data 21 37) (\<lambda>srvB.
        if (get_be idemB :: uuid) = uuid_Nil then Inl ErrInvalidUUID
        else rbind (go_slice data 37 45) (\<lambda>tsB.
        rbind (go_uint64 tsB) (\<lambda>ts.
        rbind (go_slice data 45 47) (\<lambda>lenB.
        rbind (go_uint16 lenB) (\<lambda>len.
        let propsLen = unat len in
        if length data < headerFixedLen + propsLen then Inl ErrTooShort
        else rbind (go_slice data 47 (47 + propsLen)) (\<lambda>props.
        rbind (go_slice data (47 + propsLen) (length data)) (\<lambda>payload.
        Inr \<lparr>env_IdempotencyID = get_be idemB,
             env_ServerMsgID = get_be srvB,
             env_PublishTS = time_unix ts,
             env_UserProps = props,
             env_Payload = payload\<rparr>)))))))))))"

definition TryDecode :: "bytes \<Rightarrow> Envelope option" where
  "TryDecode data =
     (if length data < headerFixedLen \<or> string_of (take 4 data) \<noteq> Magic then None
      else case Decode data of Inl _ \<Rightarrow> None | Inr env \<Rightarrow> Some env)"

section \<open>Well-formed envelopes\<close>

text \<open>
  The envelopes the format can represent: the idempotency key is set, the properties fit
  their 16-bit length and the time stamp fits 64 bits of nanoseconds.
\<close>

definition wf_env :: "Envelope \<Rightarrow> bool" where
  "wf_env e \<longleftrightarrow> env_IdempotencyID e \<noteq> uuid_Nil
     \<and> length (env_UserProps e) < 65536 \<and> in_int64 (env_PublishTS e)"

lemma wf_env_WithServerMsgID [simp]: "wf_env (WithServerMsgID e i) = wf_env e"
  by (simp add: wf_env_def WithServerMsgID_def)

lemma wf_env_NewPublish:
  "newV7 \<noteq> uuid_Nil \<Longrightarrow> in_int64 now \<Longrightarrow> wf_env (NewPublish newV7 now i p)"
  by (simp add: wf_env_def NewPublish_def)

section \<open>Layout\<close>

lemma length_Magic [simp]: "length Magic = 4"
  by (simp add: Magic_def)

lemma headerFixedLen_eq [simp]: "headerFixedLen = 47"
  by (simp add: headerFixedLen_def)

lemma length_Encode [codec_simps]:
  "length (Encode e) = 47 + length (env_UserProps e) + length (env_Payload e)"
  by (simp add: Encode_def)

text \<open>The fields of any buffer of at least 47 bytes, cut where the decoder cuts it.\<close>

lemma split_header:
  assumes "47 \<le> length data"
  obtains m v i s t l r where
    "data = m @ v # i @ s @ t @ l @ r"
    "length m = 4" "length i = 16" "length s = 16" "length t = 8" "length l = 2"
proof
  let ?d = "\<lambda>n. drop n data"
  show "data = take 4 data @ data ! 4 # take 16 (?d 5) @ take 16 (?d 21)
          @ take 8 (?d 37) @ take 2 (?d 45) @ ?d 47"
  proof -
    have cut: "?d n = take k (?d n) @ ?d (n + k)" for n k
      by (metis append_take_drop_id drop_drop add.commute)
    have "data = take 4 data @ ?d 4" by simp
    also have "?d 4 = data ! 4 # ?d 5"
      using assms Cons_nth_drop_Suc [of 4 data] by simp
    also have "?d 5 = take 16 (?d 5) @ ?d 21" using cut [of 5 16] by simp
    also have "?d 21 = take 16 (?d 21) @ ?d 37" using cut [of 21 16] by simp
    also have "?d 37 = take 8 (?d 37) @ ?d 45" using cut [of 37 8] by simp
    also have "?d 45 = take 2 (?d 45) @ ?d 47" using cut [of 45 2] by simp
    finally show ?thesis by simp
  qed
qed (use assms in auto)

text \<open>The decoder on a buffer whose header fields are known.\<close>

lemma Decode_fields:
  assumes "length m = 4" "length i = 16" "length s = 16" "length t = 8" "length l = 2"
  shows "Decode (m @ v # i @ s @ t @ l @ r) =
    (if string_of m \<noteq> Magic then Inl ErrBadMagic
     else if v \<noteq> Version then Inl (Wrapf ''%w: %d'' [FNat (unat v)] ErrBadVersion)
     else if (get_be i :: uuid) = uuid_Nil then Inl ErrInvalidUUID
     else if length r < unat (get_be l :: u16) then Inl ErrTooShort
     else Inr \<lparr>env_IdempotencyID = get_be i, env_ServerMsgID = get_be s,
               env_PublishTS = time_unix (get_be t),
               env_UserProps = take (unat (get_be l :: u16)) r,
               env_Payload = drop (unat (get_be l :: u16)) r\<rparr>)"
proof -
  have "(m @ v # i @ s @ t @ l @ r) ! 4 = v"
    using assms by (simp add: nth_append)
  moreover have "drop (43 + n) (x # i @ s @ t @ l @ r) = drop n r" for n x
    using assms by (simp add: drop_Cons')
  ultimately show ?thesis
    using assms by (simp add: Decode_def go_simps Let_def)
qed

section \<open>Round trips\<close>

lemma unat_of_length_u16 [simp]: "n < 65536 \<Longrightarrow> unat (word_of_nat n :: u16) = n"
  by (simp add: unat_of_nat)

lemma Decode_Encode: "wf_env e \<Longrightarrow> Decode (Encode e) = Inr e"
  by (simp add: Encode_def Decode_fields codec_simps wf_env_def)

lemma in_int64_time_unix: "in_int64 (time_unix w)"
  using sint_ge [of w] sint_lt [of w] by (simp add: in_int64_def time_unix_def)

lemma unix_nano_time_unix: "unix_nano (time_unix w) = w"
  by (simp add: unix_nano_def time_unix_def)

lemma Decode_canonical:
  assumes "Decode b = Inr e"
  shows "wf_env e \<and> Encode e = b"
proof -
  have "47 \<le> length b"
    using assms by (cases "length b < 47") (auto simp: Decode_def)
  then obtain m v i s t l r where b: "b = m @ v # i @ s @ t @ l @ r"
    and len: "length m = 4" "length i = 16" "length s = 16" "length t = 8" "length l = 2"
    by (rule split_header)
  from assms have m: "string_of m = Magic" and v: "v = Version"
    and i: "(get_be i :: uuid) \<noteq> 0" and r: "unat (get_be l :: u16) \<le> length r"
    and e: "e = \<lparr>env_IdempotencyID = get_be i, env_ServerMsgID = get_be s,
               env_PublishTS = time_unix (get_be t),
               env_UserProps = take (unat (get_be l :: u16)) r,
               env_Payload = drop (unat (get_be l :: u16)) r\<rparr>"
    unfolding b by (auto simp: Decode_fields [OF len] split: if_splits)
  have "unat (get_be l :: u16) < 65536"
    using unsigned_less [where 'a = nat, of "get_be l :: u16"] by simp
  moreover have "bytes_of Magic = m"
    using m by (metis bytes_of_string_of)
  moreover have "put_be 16 (get_be i :: uuid) = i" "put_be 16 (get_be s :: uuid) = s"
    "put_be 8 (get_be t :: u64) = t" "put_be 2 (get_be l :: u16) = l"
    using put_be_get_be [of i, where 'a = 128] put_be_get_be [of s, where 'a = 128]
      put_be_get_be [of t, where 'a = 64] put_be_get_be [of l, where 'a = 16] len by auto
  ultimately show ?thesis
    using i r unfolding e b Encode_def v
    by (auto simp: wf_env_def in_int64_time_unix unix_nano_time_unix)
qed

interpretation envelope: canonical_codec Encode Decode wf_env
  by unfold_locales (auto simp: Decode_Encode dest: Decode_canonical)

lemma panic_free_Decode [no_panic]: "panic_free (Decode b)"
proof (cases "47 \<le> length b")
  case True
  then obtain m v i s t l r where b: "b = m @ v # i @ s @ t @ l @ r"
    and len: "length m = 4" "length i = 16" "length s = 16" "length t = 8" "length l = 2"
    by (rule split_header)
  show ?thesis
    unfolding b by (simp add: Decode_fields [OF len] ErrBadMagic_def ErrInvalidUUID_def ErrTooShort_def)
next
  case False
  then show ?thesis by (simp add: Decode_def ErrTooShort_def)
qed

text \<open>The extra guard of \<open>TryDecode\<close> only repeats checks of \<open>Decode\<close>.\<close>

lemma TryDecode_eq: "TryDecode b = (case Decode b of Inl _ \<Rightarrow> None | Inr e \<Rightarrow> Some e)"
proof -
  have "Decode b = Inr e \<Longrightarrow> 47 \<le> length b \<and> string_of (take 4 b) = Magic" for e
    by (auto simp: envelope.dec_iff length_Encode Encode_def)
  then show ?thesis by (auto simp: TryDecode_def split: sum.splits)
qed

lemma TryDecode_Some_iff: "TryDecode b = Some e \<longleftrightarrow> wf_env e \<and> b = Encode e"
  by (auto simp: TryDecode_eq simp flip: envelope.dec_iff split: sum.splits)

section \<open>Properties\<close>

text \<open>
  C32 (round trip): the decoder accepts exactly the encodings of well-formed envelopes and
  returns the envelope that was encoded, so encoding and decoding are inverse to each other
  and no two byte strings decode to the same envelope.
\<close>
theorem envelope_wire_canonical:
  "Decode b = Inr e \<longleftrightarrow> wf_env e \<and> b = Encode e"
  by (rule envelope.dec_iff)

text \<open>
  What the decoder does on every input, branch by branch. A buffer shorter than
  the header is too short; a longer one is \<open>m @ v # i @ s @ t @ l @ r\<close> cut into magic, version,
  the two UUIDs, time stamp, properties length and the rest, and the first failing check decides
  the error. No input makes the decoder panic.
\<close>
theorem envelope_decode_branches:
  "panic_free (Decode b) \<and> (length b < headerFixedLen \<longrightarrow> Decode b = Inl ErrTooShort)
   \<and> (\<forall>m v i s t l r. b = m @ v # i @ s @ t @ l @ r \<longrightarrow> length m = 4 \<longrightarrow> length i = 16
      \<longrightarrow> length s = 16 \<longrightarrow> length t = 8 \<longrightarrow> length l = 2 \<longrightarrow>
      Decode b = (if string_of m \<noteq> Magic then Inl ErrBadMagic
        else if v \<noteq> Version then Inl (Wrapf ''%w: %d'' [FNat (unat v)] ErrBadVersion)
        else if (get_be i :: uuid) = uuid_Nil then Inl ErrInvalidUUID
        else if length r < unat (get_be l :: u16) then Inl ErrTooShort
        else Inr \<lparr>env_IdempotencyID = get_be i, env_ServerMsgID = get_be s,
                  env_PublishTS = time_unix (get_be t),
                  env_UserProps = take (unat (get_be l :: u16)) r,
                  env_Payload = drop (unat (get_be l :: u16)) r\<rparr>))"
proof -
  have "length b < headerFixedLen \<longrightarrow> Decode b = Inl ErrTooShort"
    by (simp add: Decode_def)
  then show ?thesis
    by (simp add: panic_free_Decode Decode_fields)
qed

theorem envelope_decode_branches_witness:
  "length (Encode (NewPublish 7 12 5 [1, 2])) = 49
   \<and> Decode (replicate 47 0) = Inl ErrBadMagic \<and> Decode [66, 77] = Inl ErrTooShort"
proof -
  have "Decode (replicate 47 0) = Inl ErrBadMagic"
    using envelope_decode_branches [of "replicate 47 0", THEN conjunct2, THEN conjunct2, rule_format,
        of "[0, 0, 0, 0]" 0 "replicate 16 0" "replicate 16 0" "replicate 8 0" "[0, 0]" "[]"]
    by (simp add: Magic_def string_of_def eval_nat_numeral)
  moreover have "Decode [66, 77] = Inl ErrTooShort"
    using envelope_decode_branches [of "[66, 77]"] by simp
  ultimately show ?thesis
    by (simp add: length_Encode NewPublish_def)
qed

end
