(* ===== verification/Storage.thy ===== *)
theory Storage
  imports Prelude
begin

text \<open>
  The key-value storage (\<^verbatim>\<open>core/storage/badger.go\<close>, \<^verbatim>\<open>core/apperrors/badger.go\<close>). Badger itself is
  a third-party database: it is the argument \<open>E\<close> of every operation, a record of what a
  transaction returns on a database state, and what the broker relies on is the predicate
  \<open>badger_laws\<close>. The wrapper's operations, with their error wrapping, follow the source;
  the interface they offer to the other components is the locale \<open>kv_store\<close>.
\<close>

section \<open>The database the wrapper calls\<close>

text \<open>
  The outcome of \<^verbatim>\<open>db.Update\<close> around one operation: the operation itself failed, the commit
  failed, or the transaction committed. A transaction that is not committed leaves the
  database as it was.
\<close>

datatype 'd update = TxnErr go_error | CommitErr go_error | Committed 'd

text \<open>
  An item found by \<^verbatim>\<open>txn.Get\<close> or the iterator carries the result of its \<^verbatim>\<open>ValueCopy\<close>.
  \<open>eng_iter d prefix start\<close> lists the items an iterator with that prefix option visits
  after \<^verbatim>\<open>Seek(start)\<close>.
\<close>

record 'd engine =
  eng_get :: "'d \<Rightarrow> bytes \<Rightarrow> (bytes res) res"
  eng_set :: "'d \<Rightarrow> bytes \<Rightarrow> bytes \<Rightarrow> 'd update"
  eng_delete :: "'d \<Rightarrow> bytes \<Rightarrow> 'd update"
  eng_iter :: "'d \<Rightarrow> bytes \<Rightarrow> bytes \<Rightarrow> (bytes \<times> bytes res) list"

definition badger_ErrKeyNotFound :: go_error where
  "badger_ErrKeyNotFound = Err ''Key not found''"

section \<open>The wrapper\<close>

definition ErrKeyNotFound :: go_error where
  "ErrKeyNotFound = Err ''key not found''"

definition ErrStopScan :: go_error where
  "ErrStopScan = Err ''stop scan''"

text \<open>\<open>r\<close> is what \<^verbatim>\<open>badger.Open\<close> returned for the directory.\<close>

definition OpenBadger :: "'d res \<Rightarrow> 'd res" where
  "OpenBadger r = wrap_res ''open badger storage'' r"

definition Set :: "'d engine \<Rightarrow> 'd \<Rightarrow> bytes \<Rightarrow> bytes \<Rightarrow> go_error option \<times> 'd" where
  "Set E d key val =
     (case eng_set E d key val of
        TxnErr e \<Rightarrow> (Some (Wrap ''set key badger storage'' (Wrap ''set key'' e)), d)
      | CommitErr e \<Rightarrow> (Some (Wrap ''set key badger storage'' e), d)
      | Committed d' \<Rightarrow> (None, d'))"

definition Get :: "'d engine \<Rightarrow> 'd \<Rightarrow> bytes \<Rightarrow> bytes res" where
  "Get E d key =
     (let view = (case eng_get E d key of
            Inl e \<Rightarrow> if errors_is e badger_ErrKeyNotFound then Inl ErrKeyNotFound
                     else Inl (Wrap ''get badger item storage'' e)
          | Inr item \<Rightarrow> (case item of
              Inl e \<Rightarrow> Inl (Wrap ''copy value from badger item'' e)
            | Inr v \<Rightarrow> Inr v))
      in case view of
           Inl err \<Rightarrow> if errors_is err ErrKeyNotFound then Inl err
                      else Inl (Wrap ''get badger storage'' err)
         | Inr v \<Rightarrow> Inr v)"

definition Delete :: "'d engine \<Rightarrow> 'd \<Rightarrow> bytes \<Rightarrow> go_error option \<times> 'd" where
  "Delete E d key =
     (case eng_delete E d key of
        TxnErr e \<Rightarrow> (Some (Wrap ''delete badger storage'' (Wrap ''delete key'' e)), d)
      | CommitErr e \<Rightarrow> (Some (Wrap ''delete badger storage'' e), d)
      | Committed d' \<Rightarrow> (None, d'))"

text \<open>
  The iteration of \<open>Scan\<close> and \<open>ScanFrom\<close>. The callback is a function on the variables it
  captures, \<open>s\<close>; it returns its error, if any, and their new values.
\<close>

fun scan_items :: "string \<Rightarrow> ('s \<Rightarrow> bytes \<Rightarrow> bytes \<Rightarrow> go_error option \<times> 's)
    \<Rightarrow> (bytes \<times> bytes res) list \<Rightarrow> 's \<Rightarrow> go_error option \<times> 's" where
  "scan_items msg fn [] s = (None, s)"
| "scan_items msg fn ((k, Inl e) # items) s = (Some (Wrap msg e), s)"
| "scan_items msg fn ((k, Inr v) # items) s =
     (case fn s k v of
        (None, s') \<Rightarrow> scan_items msg fn items s'
      | (Some e, s') \<Rightarrow> if errors_is e ErrStopScan then (None, s') else (Some e, s'))"

definition Scan :: "'d engine \<Rightarrow> 'd \<Rightarrow> bytes
    \<Rightarrow> ('s \<Rightarrow> bytes \<Rightarrow> bytes \<Rightarrow> go_error option \<times> 's) \<Rightarrow> 's \<Rightarrow> go_error option \<times> 's" where
  "Scan E d pre fn s = scan_items ''scan: value copy'' fn (eng_iter E d pre pre) s"

definition ScanFrom :: "'d engine \<Rightarrow> 'd \<Rightarrow> bytes \<Rightarrow> bytes
    \<Rightarrow> ('s \<Rightarrow> bytes \<Rightarrow> bytes \<Rightarrow> go_error option \<times> 's) \<Rightarrow> 's \<Rightarrow> go_error option \<times> 's" where
  "ScanFrom E d startKey pre fn s =
     scan_items ''scan from: value copy'' fn (eng_iter E d pre startKey) s"

definition GetUint64 :: "'d engine \<Rightarrow> 'd \<Rightarrow> bytes \<Rightarrow> u64 res" where
  "GetUint64 E d key =
     (case Get E d key of
        Inl err \<Rightarrow> if errors_is err ErrKeyNotFound then Inr 0 else Inl err
      | Inr v \<Rightarrow> if length v < 8 then Inr 0 else go_uint64 v)"

definition SetUint64 :: "'d engine \<Rightarrow> 'd \<Rightarrow> bytes \<Rightarrow> u64 \<Rightarrow> go_error option \<times> 'd" where
  "SetUint64 E d key val = Set E d key (put_be 8 val)"

section \<open>What the broker relies on\<close>

text \<open>
  \<open>cont d\<close> is the content of the database state \<open>d\<close>. Badger's documentation promises that a
  read sees exactly the content, that a committed write or delete changes just its key, and
  that an iterator visits the keys with its prefix from the seek position on, in ascending
  byte order, each once. The empty key is not valid.
\<close>

definition badger_laws :: "'d engine \<Rightarrow> ('d \<Rightarrow> bytes \<rightharpoonup> bytes) \<Rightarrow> bool" where
  "badger_laws E cont \<longleftrightarrow>
     (\<forall>d k. k \<noteq> [] \<longrightarrow> eng_get E d k =
        (case cont d k of None \<Rightarrow> Inl badger_ErrKeyNotFound | Some v \<Rightarrow> Inr (Inr v)))
   \<and> (\<forall>d k v d'. eng_set E d k v = Committed d' \<longrightarrow> cont d' = (cont d)(k \<mapsto> v))
   \<and> (\<forall>d k d'. eng_delete E d k = Committed d' \<longrightarrow> cont d' = (cont d)(k := None))
   \<and> (\<forall>d p s. \<exists>kvs. eng_iter E d p s = map (\<lambda>(k, v). (k, Inr v)) kvs
        \<and> sorted_wrt (<) (map fst kvs)
        \<and> set kvs = {(k, v). cont d k = Some v \<and> prefix p k \<and> s \<le> k})"

text \<open>Every write and delete on a valid key commits: no disk or transaction failure.\<close>

definition writes_commit :: "'d engine \<Rightarrow> bool" where
  "writes_commit E \<longleftrightarrow>
     (\<forall>d k v. k \<noteq> [] \<longrightarrow> (\<exists>d'. eng_set E d k v = Committed d'))
   \<and> (\<forall>d k. k \<noteq> [] \<longrightarrow> (\<exists>d'. eng_delete E d k = Committed d'))"

section \<open>The interface\<close>

text \<open>
  \<open>ok\<close> stands for the assumptions under which the provider keeps its promises.
\<close>

locale kv_store =
  fixes put :: "'d \<Rightarrow> bytes \<Rightarrow> bytes \<Rightarrow> go_error option \<times> 'd"
    and fetch :: "'d \<Rightarrow> bytes \<Rightarrow> bytes res"
    and del :: "'d \<Rightarrow> bytes \<Rightarrow> go_error option \<times> 'd"
    and cont :: "'d \<Rightarrow> bytes \<rightharpoonup> bytes"
    and ok :: bool
  assumes fetch_cont: "ok \<Longrightarrow> k \<noteq> [] \<Longrightarrow>
      fetch d k = (case cont d k of None \<Rightarrow> Inl ErrKeyNotFound | Some v \<Rightarrow> Inr v)"
    and put_cont: "ok \<Longrightarrow> put d k v = (r, d') \<Longrightarrow>
      cont d' = (if r = None then (cont d)(k \<mapsto> v) else cont d)"
    and del_cont: "ok \<Longrightarrow> del d k = (r, d') \<Longrightarrow>
      cont d' = (if r = None then (cont d)(k := None) else cont d)"
begin

lemma fetch_after_put:
  "ok \<Longrightarrow> k \<noteq> [] \<Longrightarrow> put d k v = (None, d') \<Longrightarrow> fetch d' k = Inr v"
  using put_cont [of d k v None d'] by (simp add: fetch_cont)

lemma fetch_put_other:
  "ok \<Longrightarrow> k' \<noteq> [] \<Longrightarrow> k' \<noteq> k \<Longrightarrow> fetch (snd (put d k v)) k' = fetch d k'"
  using put_cont [of d k v "fst (put d k v)" "snd (put d k v)"] by (auto simp: fetch_cont)

lemma fetch_after_del:
  "ok \<Longrightarrow> k \<noteq> [] \<Longrightarrow> del d k = (None, d') \<Longrightarrow> fetch d' k = Inl ErrKeyNotFound"
  using del_cont [of d k None d'] by (simp add: fetch_cont)

lemma failed_put_keeps:
  "ok \<Longrightarrow> put d k v = (Some e, d') \<Longrightarrow> cont d' = cont d"
  using put_cont [of d k v "Some e" d'] by simp

end

interpretation kv: kv_store "Set E" "Get E" "Delete E" cont "badger_laws E cont" for E cont
proof unfold_locales
  fix k :: bytes and d
  assume "badger_laws E cont" "k \<noteq> []"
  then show "Get E d k = (case cont d k of None \<Rightarrow> Inl ErrKeyNotFound | Some v \<Rightarrow> Inr v)"
    by (auto simp: badger_laws_def Get_def badger_ErrKeyNotFound_def ErrKeyNotFound_def
        split: option.splits)
qed (auto simp: badger_laws_def Set_def Delete_def split: update.splits if_splits)

section \<open>Scans\<close>

text \<open>The items an iterator yields under the laws: the bindings with the prefix, in order.\<close>

lemma eng_iter_sorted:
  assumes "badger_laws E cont"
  obtains kvs where "eng_iter E d p s = map (\<lambda>(k, v). (k, Inr v)) kvs"
    and "sorted_wrt (<) (map fst kvs)"
    and "set kvs = {(k, v). cont d k = Some v \<and> prefix p k \<and> s \<le> k}"
  using assms unfolding badger_laws_def by blast

text \<open>A callback that never fails is folded over the items.\<close>

lemma scan_items_fold:
  assumes "\<And>s k v. fst (fn s k v) = None"
  shows "scan_items msg fn (map (\<lambda>(k, v). (k, Inr v)) kvs) s
    = (None, foldl (\<lambda>s (k, v). snd (fn s k v)) s kvs)"
proof (induction kvs arbitrary: s)
  case Nil
  then show ?case by simp
next
  case (Cons kv kvs)
  obtain k v where kv: "kv = (k, v)" by fastforce
  have "fn s k v = (None, snd (fn s k v))"
    using assms [of s k v] by (metis prod.collapse)
  with Cons kv show ?case by (auto split: prod.splits)
qed

lemma prefix_le: "prefix p k \<Longrightarrow> (p :: bytes) \<le> k"
proof (induction p arbitrary: k)
  case Nil
  then show ?case by simp
next
  case (Cons a p)
  then show ?case by (cases k) auto
qed

lemma SetUint64_GetUint64:
  assumes "badger_laws E cont" "k \<noteq> []" "SetUint64 E d k w = (None, d')"
  shows "GetUint64 E d' k = Inr w"
  using kv.fetch_after_put [OF assms(1,2), of d "put_be 8 w" d'] assms(3)
  by (simp add: SetUint64_def GetUint64_def go_simps codec_simps)

lemma GetUint64_cont:
  assumes "badger_laws E cont" "k \<noteq> []"
  shows "GetUint64 E d k = Inr (case cont d k of None \<Rightarrow> 0
    | Some v \<Rightarrow> if length v < 8 then 0 else get_be (take 8 v))"
  using assms by (simp add: GetUint64_def kv.fetch_cont go_simps ErrKeyNotFound_def split: option.splits)

lemma writes_commit_Set: "writes_commit E \<Longrightarrow> k \<noteq> [] \<Longrightarrow> fst (Set E d k v) = None"
  unfolding writes_commit_def Set_def by (metis (no_types, lifting) fst_conv update.simps(12))

lemma writes_commit_Delete: "writes_commit E \<Longrightarrow> k \<noteq> [] \<Longrightarrow> fst (Delete E d k) = None"
  unfolding writes_commit_def Delete_def by (metis (no_types, lifting) fst_conv update.simps(12))

lemma cont_Set_commit:
  assumes "badger_laws E cont" "writes_commit E" "k \<noteq> []"
  shows "cont (snd (Set E d k v)) = (cont d)(k \<mapsto> v)"
  using kv.put_cont [OF assms(1), of d k v "fst (Set E d k v)" "snd (Set E d k v)"]
    writes_commit_Set [OF assms(2,3), of d v] by (simp add: prod_eq_iff)

lemma cont_Delete_commit:
  assumes "badger_laws E cont" "writes_commit E" "k \<noteq> []"
  shows "cont (snd (Delete E d k)) = (cont d)(k := None)"
  using kv.del_cont [OF assms(1), of d k "fst (Delete E d k)" "snd (Delete E d k)"]
    writes_commit_Delete [OF assms(2,3), of d] by (simp add: prod_eq_iff)

end
