(* ===== verification/Mem_Engine.thy ===== *)
theory Mem_Engine
  imports Storage
begin

text \<open>
  An in-memory database that satisfies \<open>badger_laws\<close> and commits every write, so that the
  assumptions on the storage engine can be met, and a second one whose writes to chosen keys
  fail. They are used to apply the properties to concrete inputs.
\<close>

type_synonym mem_db = "(bytes \<times> bytes) list"

definition mem_keys :: "mem_db \<Rightarrow> bytes list" where
  "mem_keys d = sort (remdups (map fst d))"

text \<open>\<open>bad k\<close>: writing or deleting the key \<open>k\<close> fails.\<close>

definition faulty_engine :: "(bytes \<Rightarrow> bool) \<Rightarrow> mem_db engine" where
  "faulty_engine bad =
     \<lparr>eng_get = (\<lambda>d k. case map_of d k of None \<Rightarrow> Inl badger_ErrKeyNotFound | Some v \<Rightarrow> Inr (Inr v)),
      eng_set = (\<lambda>d k v. if k = [] then TxnErr (Err ''Key cannot be empty'')
                  else if bad k then CommitErr (Err ''disk'') else Committed ((k, v) # d)),
      eng_delete = (\<lambda>d k. if k = [] then TxnErr (Err ''Key cannot be empty'')
                  else if bad k then CommitErr (Err ''disk'')
                  else Committed (filter (\<lambda>(k', _). k' \<noteq> k) d)),
      eng_iter = (\<lambda>d p s. map (\<lambda>k. (k, Inr (the (map_of d k))))
                  (filter (\<lambda>k. prefix p k \<and> s \<le> k) (mem_keys d)))\<rparr>"

definition mem_engine :: "mem_db engine" where
  "mem_engine = faulty_engine (\<lambda>_. False)"

lemmas engine_defs = mem_engine_def faulty_engine_def

lemma map_of_filter_key: "map_of (filter (\<lambda>(k', _). k' \<noteq> k) d) = (map_of d)(k := None)"
  by (induction d) auto

lemma set_mem_keys: "set (mem_keys d) = dom (map_of d)"
  by (simp add: mem_keys_def dom_map_of_conv_image_fst)

lemma badger_laws_faulty: "badger_laws (faulty_engine bad) map_of"
  unfolding badger_laws_def
proof (intro conjI allI impI)
  fix d :: mem_db and p s :: bytes
  let ?ks = "filter (\<lambda>k. prefix p k \<and> s \<le> k) (mem_keys d)"
  let ?kvs = "map (\<lambda>k. (k, the (map_of d k))) ?ks"
  have "eng_iter (faulty_engine bad) d p s = map (\<lambda>(k, v). (k, Inr v)) ?kvs"
    by (simp add: faulty_engine_def)
  moreover have "sorted_wrt (<) (map fst ?kvs)"
    by (simp add: o_def mem_keys_def sorted_wrt_filter strict_sorted_iff)
  moreover have "set ?kvs = {(k, v). map_of d k = Some v \<and> prefix p k \<and> s \<le> k}"
    by (auto simp: set_mem_keys)
  ultimately show "\<exists>kvs. eng_iter (faulty_engine bad) d p s = map (\<lambda>(k, v). (k, Inr v)) kvs
      \<and> sorted_wrt (<) (map fst kvs)
      \<and> set kvs = {(k, v). map_of d k = Some v \<and> prefix p k \<and> s \<le> k}"
    by blast
qed (auto simp: faulty_engine_def map_of_filter_key split: if_splits)

lemma badger_laws_mem: "badger_laws mem_engine map_of"
  unfolding mem_engine_def by (rule badger_laws_faulty)

lemma writes_commit_mem: "writes_commit mem_engine"
  by (simp add: writes_commit_def engine_defs)

end
