(* ===== verification/Offsets.thy ===== *)
theory Offsets
  imports Mem_Engine
begin

text \<open>
  Subscriber offsets (\<^verbatim>\<open>core/offsets/offsets.go\<close>): for each client the sequence number up to
  which a topic was delivered, kept in memory and written through to the topic's database.
  The struct shares the topic's database, so the operations take the database state and
  return it; a failed write is logged and otherwise ignored, as in the source.
\<close>

section \<open>Model\<close>

definition offsetKeyPrefix :: string where
  "offsetKeyPrefix = ''offset:''"

record Offsets =
  o_offsets :: "string \<rightharpoonup> u64"

definition NewOffsets :: Offsets where
  "NewOffsets = \<lparr>o_offsets = Map.empty\<rparr>"

definition buildKey :: "string \<Rightarrow> string" where
  "buildKey groupID = offsetKeyPrefix @ groupID"

text \<open>The callback of the scan in \<open>LoadFromStorage\<close>.\<close>

definition load_offset :: "(string \<rightharpoonup> u64) \<Rightarrow> bytes \<Rightarrow> bytes \<Rightarrow> go_error option \<times> (string \<rightharpoonup> u64)" where
  "load_offset m key val =
     (if length val < 8 then (None, m) else (None, m(string_of key \<mapsto> get_be (take 8 val))))"

definition LoadFromStorage :: "'d engine \<Rightarrow> Offsets \<Rightarrow> 'd \<Rightarrow> go_error option \<times> Offsets" where
  "LoadFromStorage E off d =
     (case Scan E d (bytes_of offsetKeyPrefix) load_offset (o_offsets off) of
        (err, m) \<Rightarrow> (err, off\<lparr>o_offsets := m\<rparr>))"

definition offsets_Get :: "Offsets \<Rightarrow> string \<Rightarrow> u64" where
  "offsets_Get off groupID =
     (case o_offsets off (buildKey groupID) of None \<Rightarrow> 0 | Some v \<Rightarrow> v)"

definition offsets_persist :: "'d engine \<Rightarrow> 'd \<Rightarrow> string \<Rightarrow> u64 \<Rightarrow> go_error option \<times> 'd" where
  "offsets_persist E d key val =
     (case Set E d (bytes_of key) (put_be 8 val) of
        (err, d') \<Rightarrow> (map_option (Wrap ''offsets: set key'') err, d'))"

definition offsets_Set :: "'d engine \<Rightarrow> Offsets \<times> 'd \<Rightarrow> string \<Rightarrow> u64 \<Rightarrow> Offsets \<times> 'd" where
  "offsets_Set E od groupID offset =
     (case od of (off, d) \<Rightarrow>
        let key = buildKey groupID in
        (off\<lparr>o_offsets := (o_offsets off)(key \<mapsto> offset)\<rparr>, snd (offsets_persist E d key offset)))"

definition offsets_Inc :: "'d engine \<Rightarrow> Offsets \<times> 'd \<Rightarrow> string \<Rightarrow> Offsets \<times> 'd" where
  "offsets_Inc E od groupID =
     (case od of (off, d) \<Rightarrow>
        let key = buildKey groupID;
            val = offsets_Get off groupID + 1 in
        (off\<lparr>o_offsets := (o_offsets off)(key \<mapsto> val)\<rparr>, snd (offsets_persist E d key val)))"

definition offsets_Delete :: "'d engine \<Rightarrow> Offsets \<times> 'd \<Rightarrow> string \<Rightarrow> Offsets \<times> 'd" where
  "offsets_Delete E od groupID =
     (case od of (off, d) \<Rightarrow>
        let key = buildKey groupID in
        (off\<lparr>o_offsets := (o_offsets off)(key := None)\<rparr>, snd (Delete E d (bytes_of key))))"

section \<open>The interface of delivery\<close>

text \<open>
  The interface \<^verbatim>\<open>{ Get(string) uint64; Set(string, uint64) }\<close> through which a session
  reads and moves a subscriber's offset.
\<close>

locale offset_table =
  fixes read :: "'o \<Rightarrow> string \<Rightarrow> u64"
    and move :: "'o \<Rightarrow> string \<Rightarrow> u64 \<Rightarrow> 'o"
  assumes read_move: "read (move s g v) = (read s)(g := v)"
begin

lemma read_move_same: "read (move s g v) g = v"
  by (simp add: read_move)

lemma read_move_other: "h \<noteq> g \<Longrightarrow> read (move s g v) h = read s h"
  by (simp add: read_move)

text \<open>Moving a client through a list of offsets leaves it at the last one and nobody else moved.\<close>

lemma read_foldl_move:
  "read (foldl (\<lambda>s v. move s g v) s vs) = (if vs = [] then read s else (read s)(g := last vs))"
  by (induction vs arbitrary: s) (auto simp: read_move)

end

lemma buildKey_inject [simp]: "buildKey g = buildKey h \<longleftrightarrow> g = h"
  by (simp add: buildKey_def)

lemma buildKey_not_Nil [simp]: "buildKey g \<noteq> []"
  by (simp add: buildKey_def offsetKeyPrefix_def)

lemma offsets_Get_Set: "offsets_Get (fst (offsets_Set E od g v)) = (offsets_Get (fst od))(g := v)"
  by (auto simp: offsets_Set_def offsets_Get_def Let_def split: prod.splits)

interpretation offs: offset_table "\<lambda>od. offsets_Get (fst od)" "offsets_Set E" for E
  by unfold_locales (rule offsets_Get_Set)

lemma offsets_Get_Inc:
  "offsets_Get (fst (offsets_Inc E od g)) = (offsets_Get (fst od))(g := offsets_Get (fst od) g + 1)"
  by (auto simp: offsets_Inc_def offsets_Get_def Let_def split: prod.splits)

lemma offsets_Get_Delete:
  "offsets_Get (fst (offsets_Delete E od g)) = (offsets_Get (fst od))(g := 0)"
  by (auto simp: offsets_Delete_def offsets_Get_def Let_def split: prod.splits)

section \<open>Durability\<close>

text \<open>The offset a database state records for a client.\<close>

definition stored_offset :: "(bytes \<rightharpoonup> bytes) \<Rightarrow> string \<Rightarrow> u64" where
  "stored_offset m g = (case m (bytes_of (buildKey g)) of None \<Rightarrow> 0
     | Some v \<Rightarrow> if length v < 8 then 0 else get_be (take 8 v))"

lemma stored_offset_upd_put:
  "stored_offset (m(bytes_of (buildKey g) \<mapsto> put_be 8 v)) = (stored_offset m)(g := v)"
  by (auto simp: stored_offset_def codec_simps)

lemma stored_offset_upd_del:
  "stored_offset (m(bytes_of (buildKey g) := None)) = (stored_offset m)(g := 0)"
  by (auto simp: stored_offset_def)

lemma foldl_load_offset:
  "distinct (map fst kvs) \<Longrightarrow>
    foldl (\<lambda>m (k, v). snd (load_offset m k v)) m kvs s =
     (case map_of kvs (bytes_of s) of
        Some v \<Rightarrow> if length v < 8 then m s else Some (get_be (take 8 v))
      | None \<Rightarrow> m s)"
proof (induction kvs arbitrary: m)
  case Nil
  then show ?case by simp
next
  case (Cons kv kvs)
  obtain k v where kv: "kv = (k, v)" by fastforce
  have "map_of kvs k = None"
    using Cons.prems kv by (simp add: map_of_eq_None_iff)
  with Cons kv show ?case
    by (auto simp: load_offset_def split: option.splits)
qed

lemma LoadFromStorage_Get:
  assumes "badger_laws E cont"
  shows "fst (LoadFromStorage E NewOffsets d) = None
    \<and> offsets_Get (snd (LoadFromStorage E NewOffsets d)) = stored_offset (cont d)"
proof -
  let ?p = "bytes_of offsetKeyPrefix"
  obtain kvs where it: "eng_iter E d ?p ?p = map (\<lambda>(k, v). (k, Inr v)) kvs"
    and srt: "sorted_wrt (<) (map fst kvs)"
    and kvs: "set kvs = {(k, v). cont d k = Some v \<and> prefix ?p k \<and> ?p \<le> k}"
    using assms by (rule eng_iter_sorted)
  have dist: "distinct (map fst kvs)"
    using srt by (simp add: strict_sorted_iff)
  have key: "map_of kvs (bytes_of (buildKey g)) = cont d (bytes_of (buildKey g))" for g
  proof -
    have "prefix ?p (bytes_of (buildKey g))"
      by (simp add: buildKey_def bytes_of_append)
    then have "(bytes_of (buildKey g), v) \<in> set kvs \<longleftrightarrow> cont d (bytes_of (buildKey g)) = Some v" for v
      by (auto simp: kvs prefix_le)
    then show ?thesis
      using map_of_eq_Some_iff [OF dist] by (metis option.exhaust)
  qed
  have "Scan E d ?p load_offset Map.empty
      = (None, foldl (\<lambda>m (k, v). snd (load_offset m k v)) Map.empty kvs)"
    unfolding Scan_def it by (rule scan_items_fold) (simp add: load_offset_def)
  then show ?thesis
    by (auto simp: LoadFromStorage_def NewOffsets_def offsets_Get_def foldl_load_offset [OF dist] key
        stored_offset_def fun_eq_iff split: option.splits)
qed

text \<open>The in-memory offsets agree with the database.\<close>

definition durable :: "('d \<Rightarrow> bytes \<rightharpoonup> bytes) \<Rightarrow> Offsets \<times> 'd \<Rightarrow> bool" where
  "durable cont od \<longleftrightarrow> stored_offset (cont (snd od)) = offsets_Get (fst od)"

lemma durable_Set:
  assumes "badger_laws E cont" "writes_commit E" "durable cont od"
  shows "durable cont (offsets_Set E od g v)"
proof -
  have "cont (snd (offsets_Set E od g v)) = (cont (snd od))(bytes_of (buildKey g) \<mapsto> put_be 8 v)"
    using cont_Set_commit [OF assms(1,2)]
    by (simp add: offsets_Set_def offsets_persist_def Let_def split_beta)
  with assms(3) show ?thesis
    unfolding durable_def by (simp add: offsets_Get_Set stored_offset_upd_put)
qed

lemma offsets_Inc_Set: "offsets_Inc E od g = offsets_Set E od g (offsets_Get (fst od) g + 1)"
  by (simp add: offsets_Inc_def offsets_Set_def Let_def split: prod.splits)

lemma durable_Delete:
  assumes "badger_laws E cont" "writes_commit E" "durable cont od"
  shows "durable cont (offsets_Delete E od g)"
proof -
  have "cont (snd (offsets_Delete E od g)) = (cont (snd od))(bytes_of (buildKey g) := None)"
    using cont_Delete_commit [OF assms(1,2)]
    by (simp add: offsets_Delete_def Let_def split_beta)
  with assms(3) show ?thesis
    unfolding durable_def by (simp add: offsets_Get_Delete stored_offset_upd_del)
qed

section \<open>Properties\<close>

datatype off_op = OSet string u64 | OInc string | ODelete string

fun run_off :: "'d engine \<Rightarrow> off_op \<Rightarrow> Offsets \<times> 'd \<Rightarrow> Offsets \<times> 'd" where
  "run_off E (OSet g v) od = offsets_Set E od g v"
| "run_off E (OInc g) od = offsets_Inc E od g"
| "run_off E (ODelete g) od = offsets_Delete E od g"

text \<open>The specification: a total table from clients to 64-bit numbers, initially 0.\<close>

fun spec_off :: "off_op \<Rightarrow> (string \<Rightarrow> u64) \<Rightarrow> (string \<Rightarrow> u64)" where
  "spec_off (OSet g v) t = t(g := v)"
| "spec_off (OInc g) t = t(g := t g + 1)"
| "spec_off (ODelete g) t = t(g := 0)"

lemma run_off_Get: "offsets_Get (fst (run_off E op od)) = spec_off op (offsets_Get (fst od))"
  by (cases op) (auto simp: offsets_Get_Set offsets_Get_Inc offsets_Get_Delete)

lemma fold_run_off_Get:
  "offsets_Get (fst (fold (run_off E) ops od)) = fold spec_off ops (offsets_Get (fst od))"
  by (induction ops arbitrary: od) (auto simp: run_off_Get)

lemma durable_run_off:
  "badger_laws E cont \<Longrightarrow> writes_commit E \<Longrightarrow> durable cont od \<Longrightarrow> durable cont (run_off E op od)"
  by (cases op) (auto simp: durable_Set durable_Delete offsets_Inc_Set)

lemma durable_fold_run_off:
  "badger_laws E cont \<Longrightarrow> writes_commit E \<Longrightarrow> durable cont od \<Longrightarrow> durable cont (fold (run_off E) ops od)"
  by (induction ops arbitrary: od) (auto simp: durable_run_off)

text \<open>
  C39 (refinement): after any sequence of offset operations on a fresh topic whose database
  commits its writes, the offsets in memory are those of the abstract table, and loading the
  offsets from the database afterwards (a restart) gives the same table back.
\<close>
theorem offsets_refine_and_survive_restart:
  assumes "badger_laws E cont" "writes_commit E" "cont d0 = Map.empty"
    and "fold (run_off E) ops (NewOffsets, d0) = (off, d)"
  shows "offsets_Get off = fold spec_off ops (\<lambda>_. 0)
    \<and> fst (LoadFromStorage E NewOffsets d) = None
    \<and> offsets_Get (snd (LoadFromStorage E NewOffsets d)) = fold spec_off ops (\<lambda>_. 0)"
proof -
  have zero: "offsets_Get NewOffsets = (\<lambda>_. 0)"
    by (simp add: NewOffsets_def offsets_Get_def fun_eq_iff)
  have "durable cont (NewOffsets, d0)"
    by (simp add: durable_def zero stored_offset_def assms(3) fun_eq_iff)
  then have "durable cont (off, d)"
    using durable_fold_run_off [OF assms(1,2)] assms(4) by metis
  moreover have "offsets_Get off = fold spec_off ops (\<lambda>_. 0)"
    using fold_run_off_Get [of E ops "(NewOffsets, d0)"] assms(4) by (simp add: zero)
  ultimately show ?thesis
    using LoadFromStorage_Get [OF assms(1)] by (simp add: durable_def)
qed

theorem offsets_refine_and_survive_restart_witness:
  "\<exists>off d. fold (run_off mem_engine)
       [OSet ''a'' 7, OInc ''b'', OInc ''a'', OSet ''c'' 3, ODelete ''c''] (NewOffsets, []) = (off, d)
     \<and> offsets_Get off ''a'' = 8
     \<and> offsets_Get (snd (LoadFromStorage mem_engine NewOffsets d)) = (\<lambda>_. 0)(''b'' := 1, ''a'' := 8)"
proof -
  let ?ops = "[OSet ''a'' 7, OInc ''b'', OInc ''a'', OSet ''c'' 3, ODelete ''c'']"
  obtain off d where r: "fold (run_off mem_engine) ?ops (NewOffsets, []) = (off, d)"
    by fastforce
  have "fold spec_off ?ops (\<lambda>_. 0) = (\<lambda>_. 0)(''b'' := 1, ''a'' := 8)"
    by (simp add: fun_eq_iff)
  with offsets_refine_and_survive_restart [OF badger_laws_mem writes_commit_mem _ r] r
  show ?thesis by auto
qed

end
