(* ===== verification/Topic.thy ===== *)
theory Topic
  imports Envelope Offsets
begin

text \<open>
  A topic (\<^verbatim>\<open>core/topic/topic.go\<close>): a durable log of envelopes under the keys
  \<^verbatim>\<open>msg:%016X\<close>, the last sequence number under \<^verbatim>\<open>meta:seq\<close>, the subscribers' offsets in the
  same database, and the channels of the live subscribers. The first part is the model of the
  package; then come the key format, the scan of \<open>GetMessages\<close>, and the refinement of the
  topic to an append-only list of messages.
\<close>

section \<open>Model\<close>

definition msgKeyPrefix :: string where
  "msgKeyPrefix = ''msg:''"

definition seqKey :: bytes where
  "seqKey = bytes_of ''meta:seq''"

definition nameKey :: bytes where
  "nameKey = bytes_of ''meta:topic_name''"

definition subChanSize :: nat where
  "subChanSize = 256"

record Message =
  m_Seq :: u64
  m_Topic :: string
  m_Payload :: bytes
  m_Timestamp :: gotime
  m_IdempotencyID :: uuid
  m_ServerMsgID :: uuid
  m_RawWire :: bytes

record PublishResult =
  pr_Msg :: Message
  pr_Duplicate :: bool

text \<open>
  A buffered Go channel of messages. \<open>t_chans\<close> is the store of the channels made by
  \<open>Subscribe\<close>, by an address that is never used again; \<open>t_subs\<close> lists the addresses of the
  current subscribers.
\<close>

record chan =
  ch_buf :: "Message list"
  ch_closed :: bool

record 'd Topic =
  t_name :: string
  t_seq :: u64
  t_subs :: "nat list"
  t_chans :: "nat \<rightharpoonup> chan"
  t_next :: nat
  t_db :: 'd
  t_offsets :: Offsets

definition loadSeq :: "'d engine \<Rightarrow> 'd Topic \<Rightarrow> go_error option \<times> 'd Topic" where
  "loadSeq E t =
     (case GetUint64 E (t_db t) seqKey of
        Inl err \<Rightarrow> (Some err, t)
      | Inr seq \<Rightarrow> (None, t\<lparr>t_seq := seq\<rparr>))"

text \<open>
  The constructors return the topic or an error, and the state the database is left in (on an
  error it is closed). \<open>opened\<close> is what \<^verbatim>\<open>storage.OpenBadger(dataDir)\<close> returned.
\<close>

definition newFromDB :: "'d engine \<Rightarrow> string \<Rightarrow> 'd \<Rightarrow> bool \<Rightarrow> 'd Topic res \<times> 'd" where
  "newFromDB E name db writeName =
     (case (if writeName then Set E db nameKey (bytes_of name) else (None, db)) of
        (Some err, db) \<Rightarrow> (Inl (Wrapf ''topic %q: persist name'' [FStr name] err), db)
      | (None, db) \<Rightarrow>
          (case LoadFromStorage E NewOffsets db of
             (Some err, offs) \<Rightarrow> (Inl (Wrapf ''topic %q: load offsets'' [FStr name] err), db)
           | (None, offs) \<Rightarrow>
               let t = \<lparr>t_name = name, t_seq = 0, t_subs = [], t_chans = Map.empty, t_next = 0,
                        t_db = db, t_offsets = offs\<rparr> in
               (Inr (snd (loadSeq E t)), db)))"

definition topic_New :: "'d engine \<Rightarrow> string \<Rightarrow> 'd res \<Rightarrow> 'd Topic res \<times> 'd option" where
  "topic_New E name opened =
     (case opened of
        Inl err \<Rightarrow> (Inl (Wrapf ''topic %q: open storage'' [FStr name] err), None)
      | Inr db \<Rightarrow> map_prod id Some (newFromDB E name db True))"

definition LoadFromDir :: "'d engine \<Rightarrow> string \<Rightarrow> 'd res \<Rightarrow> 'd Topic res \<times> 'd option" where
  "LoadFromDir E dataDir opened =
     (case opened of
        Inl err \<Rightarrow> (Inl (Wrapf ''topic: open storage %q'' [FStr dataDir] err), None)
      | Inr db \<Rightarrow>
          (case Get E db nameKey of
             Inl err \<Rightarrow> (Inl (Wrapf ''topic: read name from %q'' [FStr dataDir] err), Some db)
           | Inr stored \<Rightarrow> map_prod id Some (newFromDB E (string_of stored) db False)))"

text \<open>\<^verbatim>\<open>fmt.Sprintf("%016X", seq)\<close>: sixteen upper-case hexadecimal digits.\<close>

definition hex_digit :: "nat \<Rightarrow> char" where
  "hex_digit d = (if d < 10 then char_of (48 + d) else char_of (55 + d))"

primrec hex_digits :: "nat \<Rightarrow> nat \<Rightarrow> string" where
  "hex_digits 0 x = []"
| "hex_digits (Suc n) x = hex_digit (x div 16 ^ n mod 16) # hex_digits n x"

definition sprintf_016X :: "u64 \<Rightarrow> string" where
  "sprintf_016X w = hex_digits 16 (unat w)"

text \<open>
  \<^verbatim>\<open>fmt.Sscanf(s, "%016X", &seq)\<close> on a variable that is 0: skip blanks (a newline is an error),
  then read at most 16 hexadecimal digits of either case. On an error the variable stays 0.
\<close>

definition hex_val :: "char \<Rightarrow> nat option" where
  "hex_val c =
     (let n = of_char c :: nat in
      if 48 \<le> n \<and> n \<le> 57 then Some (n - 48)
      else if 65 \<le> n \<and> n \<le> 70 then Some (n - 55)
      else if 97 \<le> n \<and> n \<le> 102 then Some (n - 87)
      else None)"

definition is_blank :: "char \<Rightarrow> bool" where
  "is_blank c \<longleftrightarrow> (of_char c :: nat) \<in> {9, 11, 12, 13, 32}"

fun scan_hex :: "nat \<Rightarrow> nat \<Rightarrow> string \<Rightarrow> nat" where
  "scan_hex 0 acc cs = acc"
| "scan_hex (Suc width) acc [] = acc"
| "scan_hex (Suc width) acc (c # cs) =
     (case hex_val c of None \<Rightarrow> acc | Some d \<Rightarrow> scan_hex width (16 * acc + d) cs)"

definition sscanf_016X :: "string \<Rightarrow> u64" where
  "sscanf_016X s = word_of_nat (scan_hex 16 0 (dropWhile is_blank s))"

definition msgKey :: "u64 \<Rightarrow> bytes" where
  "msgKey seq = bytes_of (msgKeyPrefix @ sprintf_016X seq)"

definition msgPrefix :: bytes where
  "msgPrefix = bytes_of msgKeyPrefix"

definition decodeStoredMessage :: "string \<Rightarrow> bytes \<Rightarrow> Message res" where
  "decodeStoredMessage topicName raw =
     (case TryDecode raw of
        Some env \<Rightarrow>
          Inr \<lparr>m_Seq = 0, m_Topic = topicName, m_Payload = env_Payload env,
               m_Timestamp = env_PublishTS env, m_IdempotencyID = env_IdempotencyID env,
               m_ServerMsgID = env_ServerMsgID env, m_RawWire = raw\<rparr>
      | None \<Rightarrow>
          if length raw < 16 then Inl (Err ''decode message: buffer too short'')
          else Inr \<lparr>m_Seq = get_be (take 8 raw), m_Topic = topicName, m_Payload = drop 16 raw,
                    m_Timestamp = time_unix (get_be (take 8 (drop 8 raw))),
                    m_IdempotencyID = uuid_Nil, m_ServerMsgID = uuid_Nil, m_RawWire = raw\<rparr>)"

text \<open>
  A send in a \<^verbatim>\<open>select\<close> with a default branch: a full buffer drops the message, a closed
  channel panics.
\<close>

definition try_send :: "Message \<Rightarrow> chan \<Rightarrow> chan res" where
  "try_send m c =
     (if ch_closed c then Inl (Panic ''send on closed channel'')
      else if length (ch_buf c) < subChanSize then Inr (c\<lparr>ch_buf := ch_buf c @ [m]\<rparr>)
      else Inr c)"

fun fan_out :: "Message \<Rightarrow> nat list \<Rightarrow> (nat \<rightharpoonup> chan) \<Rightarrow> (nat \<rightharpoonup> chan) res" where
  "fan_out m [] chans = Inr chans"
| "fan_out m (a # subs) chans =
     (case chans a of
        None \<Rightarrow> Inl (Panic ''nil pointer'')
      | Some c \<Rightarrow> rbind (try_send m c) (\<lambda>c'. fan_out m subs (chans(a \<mapsto> c'))))"

text \<open>\<open>newV7\<close> is the value \<^verbatim>\<open>uuid.NewV7\<close> returns if it is called.\<close>

definition Publish :: "'d engine \<Rightarrow> uuid \<Rightarrow> Envelope \<Rightarrow> 'd Topic \<Rightarrow> PublishResult res \<times> 'd Topic" where
  "Publish E newV7 env t =
     (let seq = t_seq t + 1;
          t = t\<lparr>t_seq := seq\<rparr>;
          serverID = (if env_ServerMsgID env = uuid_Nil then newV7 else env_ServerMsgID env);
          env = WithServerMsgID env serverID;
          wire = Encode env;
          msg = \<lparr>m_Seq = seq, m_Topic = t_name t, m_Payload = env_Payload env,
                 m_Timestamp = env_PublishTS env, m_IdempotencyID = env_IdempotencyID env,
                 m_ServerMsgID = serverID, m_RawWire = wire\<rparr>
      in case Set E (t_db t) (msgKey seq) wire of
           (Some err, d) \<Rightarrow> (Inl (Wrap ''publish: persist message'' err), t\<lparr>t_db := d\<rparr>)
         | (None, d) \<Rightarrow>
             let t = t\<lparr>t_db := snd (SetUint64 E d seqKey seq)\<rparr> in
             (case fan_out msg (t_subs t) (t_chans t) of
                Inl p \<Rightarrow> (Inl p, t)
              | Inr chans \<Rightarrow> (Inr \<lparr>pr_Msg = msg, pr_Duplicate = False\<rparr>, t\<lparr>t_chans := chans\<rparr>)))"

definition Subscribe :: "'d Topic \<Rightarrow> nat \<times> 'd Topic" where
  "Subscribe t =
     (t_next t, t\<lparr>t_subs := t_subs t @ [t_next t],
                  t_chans := (t_chans t)(t_next t \<mapsto> \<lparr>ch_buf = [], ch_closed = False\<rparr>),
                  t_next := Suc (t_next t)\<rparr>)"

text \<open>
  The function \<open>Subscribe\<close> returns, for the subscriber with channel \<open>a\<close>: the first call removes
  it and closes the channel, further calls find nothing. Messages still in a closed channel can
  be received.
\<close>

definition unsub :: "nat \<Rightarrow> 'd Topic \<Rightarrow> 'd Topic" where
  "unsub a t =
     (if a \<in> set (t_subs t)
      then t\<lparr>t_subs := remove1 a (t_subs t),
             t_chans := (t_chans t)(a := map_option (\<lambda>c. c\<lparr>ch_closed := True\<rparr>) (t_chans t a))\<rparr>
      else t)"

text \<open>
  A receive from a subscriber's channel: a message, or that the channel is closed and drained,
  or nothing yet.
\<close>

datatype received = Got Message | Closed | Blocked

definition chan_recv :: "nat \<Rightarrow> 'd Topic \<Rightarrow> received \<times> 'd Topic" where
  "chan_recv a t =
     (case t_chans t a of
        None \<Rightarrow> (Blocked, t)
      | Some c \<Rightarrow>
          (case ch_buf c of
             m # ms \<Rightarrow> (Got m, t\<lparr>t_chans := (t_chans t)(a \<mapsto> c\<lparr>ch_buf := ms\<rparr>)\<rparr>)
           | [] \<Rightarrow> (if ch_closed c then Closed else Blocked, t)))"

text \<open>The callback of the scan in \<open>GetMessages\<close>.\<close>

definition get_message :: "string \<Rightarrow> int \<Rightarrow> Message list \<Rightarrow> bytes \<Rightarrow> bytes \<Rightarrow> go_error option \<times> Message list" where
  "get_message name limit msgs key val =
     (case decodeStoredMessage name val of
        Inl err \<Rightarrow> (Some err, msgs)
      | Inr m \<Rightarrow>
          let m = (if length msgKeyPrefix + 16 \<le> length key
                   then m\<lparr>m_Seq := sscanf_016X (string_of (drop (length msgKeyPrefix) key))\<rparr> else m);
              msgs = msgs @ [m] in
          (if limit \<le> int (length msgs) then (Some ErrStopScan, msgs) else (None, msgs)))"

text \<open>
  \<^verbatim>\<open>make([]*Message, 0, limit)\<close> panics if the slice, eight bytes for a pointer, exceeds the 2^48 bytes
  the runtime can allocate on a 64-bit machine.
\<close>

definition maxSlice :: int where
  "maxSlice = max_alloc div 8"

definition GetMessages :: "'d engine \<Rightarrow> 'd Topic \<Rightarrow> u64 \<Rightarrow> int \<Rightarrow> Message list res" where
  "GetMessages E t fromSeq limit =
     (if limit \<le> 0 then Inr []
      else if maxSlice < limit then Inl (Panic ''makeslice: cap out of range'')
      else case ScanFrom E (t_db t) (msgKey fromSeq) msgPrefix (get_message (t_name t) limit) [] of
             (Some err, _) \<Rightarrow> Inl (Wrap ''get messages'' err)
           | (None, msgs) \<Rightarrow> Inr msgs)"

fun delete_all :: "'d engine \<Rightarrow> bytes list \<Rightarrow> 'd \<Rightarrow> go_error option \<times> 'd" where
  "delete_all E [] d = (None, d)"
| "delete_all E (k # ks) d =
     (case Delete E d k of (Some err, d') \<Rightarrow> (Some err, d') | (None, d') \<Rightarrow> delete_all E ks d')"

definition Purge :: "'d engine \<Rightarrow> 'd Topic \<Rightarrow> go_error option \<times> 'd Topic" where
  "Purge E t =
     (let ks = snd (Scan E (t_db t) msgPrefix (\<lambda>ks k _. (None, ks @ [k])) []) in
      case delete_all E ks (t_db t) of
        (Some err, d) \<Rightarrow> (Some err, t\<lparr>t_db := d\<rparr>)
      | (None, d) \<Rightarrow>
          (case SetUint64 E d seqKey 0 of
             (err, d') \<Rightarrow> (err, t\<lparr>t_seq := 0, t_db := d'\<rparr>)))"

section \<open>Keys\<close>

lemma hex_val_digit [simp]: "d < 16 \<Longrightarrow> hex_val (hex_digit d) = Some d"
  by (auto simp: hex_val_def hex_digit_def Let_def)

lemma byte_hex_digit_less:
  "a < b \<Longrightarrow> b < 16 \<Longrightarrow> (word_of_nat (of_char (hex_digit a)) :: byte) < word_of_nat (of_char (hex_digit b))"
  by (auto simp: hex_digit_def word_less_nat_alt unat_of_nat)

lemma length_hex_digits [simp]: "length (hex_digits n x) = n"
  by (induction n) auto

lemma mod_16_Suc: "x mod 16 ^ Suc n = 16 ^ n * (x div 16 ^ n mod 16) + x mod 16 ^ n" for x :: nat
  by (metis mod_mult2_eq mult.commute power_Suc)

lemma scan_hex_digits: "scan_hex n acc (hex_digits n x) = acc * 16 ^ n + x mod 16 ^ n"
proof (induction n arbitrary: acc)
  case (Suc n)
  then show ?case by (simp add: mod_16_Suc algebra_simps del: power_Suc) (simp add: algebra_simps)
qed simp

lemma hex_digits_less:
  "x mod 16 ^ n < y mod 16 ^ n \<Longrightarrow> bytes_of (hex_digits n x) < bytes_of (hex_digits n y)"
proof (induction n)
  case (Suc n)
  let ?dx = "x div 16 ^ n mod 16" and ?dy = "y div 16 ^ n mod 16"
  have less: "16 ^ n * ?dx + x mod 16 ^ n < 16 ^ n * ?dy + y mod 16 ^ n"
    using Suc.prems unfolding mod_16_Suc .
  have bound: "y mod 16 ^ n < 16 ^ n" by simp
  have "\<not> ?dy < ?dx"
  proof
    assume "?dy < ?dx"
    then have "16 ^ n * Suc ?dy \<le> 16 ^ n * ?dx" by (intro mult_le_mono2) simp
    with bound less show False unfolding mult_Suc_right by linarith
  qed
  then consider "?dx < ?dy" | "?dx = ?dy" "x mod 16 ^ n < y mod 16 ^ n"
    using less by fastforce
  then show ?case
  proof cases
    case 1
    then show ?thesis using byte_hex_digit_less [of ?dx ?dy] by (simp add: bytes_of_def)
  next
    case 2
    then show ?thesis using Suc.IH by (simp add: bytes_of_def)
  qed
qed simp

lemma length_sprintf [simp]: "length (sprintf_016X w) = 16"
  by (simp add: sprintf_016X_def)

lemma u64_mod: "unat (w :: u64) mod 16 ^ 16 = unat w"
  using unsigned_less [of w, where 'a = nat] by simp

text \<open>Keys sort as the numbers do, so the scan visits messages in the order of publication.\<close>

lemma append_less_iff: "ps @ xs < ps @ (ys :: 'a::linorder list) \<longleftrightarrow> xs < ys"
  by (induction ps) auto

lemma msgKey_less: "msgKey a < msgKey b \<longleftrightarrow> a < b"
proof -
  have mono: "msgKey a < msgKey b" if "a < b" for a b :: u64
    using hex_digits_less [of "unat a" 16 "unat b"] that
    by (simp add: msgKey_def sprintf_016X_def bytes_of_append append_less_iff u64_mod word_less_nat_alt del: power_numeral)
  then show ?thesis by (metis less_asym' linorder_less_linear order_less_irrefl)
qed

lemma msgKey_inject [simp]: "msgKey a = msgKey b \<longleftrightarrow> a = b"
  by (metis linorder_neq_iff msgKey_less)

lemma msgKey_le: "msgKey a \<le> msgKey b \<longleftrightarrow> a \<le> b"
  by (metis linorder_not_less msgKey_less)

lemma not_blank_digit: "d < 16 \<Longrightarrow> \<not> is_blank (hex_digit d)"
  by (auto simp: is_blank_def hex_digit_def)

lemma sscanf_sprintf: "sscanf_016X (sprintf_016X w) = w"
proof -
  have "dropWhile is_blank (sprintf_016X w) = sprintf_016X w"
    using hex_digits.simps(2) [of 15 "unat w"] by (simp add: sprintf_016X_def not_blank_digit)
  then show ?thesis
    using scan_hex_digits [of 16 0 "unat w"]
    by (simp add: sscanf_016X_def sprintf_016X_def u64_mod del: power_numeral)
qed

lemma msgKey_simps [simp]:
  "msgKey q \<noteq> []" "seqKey \<noteq> []" "nameKey \<noteq> []" "msgKey q \<noteq> seqKey" "msgKey q \<noteq> nameKey"
  "seqKey \<noteq> nameKey" "prefix msgPrefix (msgKey q)" "length (msgKey q) = 20"
  "sscanf_016X (string_of (drop (length msgKeyPrefix) (msgKey q))) = q"
proof -
  have "drop (length msgKeyPrefix) (msgKey q) = bytes_of (sprintf_016X q)"
    by (simp add: msgKey_def bytes_of_append)
  then show "sscanf_016X (string_of (drop (length msgKeyPrefix) (msgKey q))) = q"
    by (simp add: sscanf_sprintf)
  have "msgKey q ! 1 \<noteq> seqKey ! 1" "msgKey q ! 1 \<noteq> nameKey ! 1"
    by (simp_all add: msgKey_def seqKey_def nameKey_def msgKeyPrefix_def bytes_of_def)
  then show "msgKey q \<noteq> seqKey" "msgKey q \<noteq> nameKey" by auto
  show "seqKey \<noteq> nameKey" by (simp add: seqKey_def nameKey_def)
  show "prefix msgPrefix (msgKey q)" by (simp add: msgPrefix_def msgKey_def bytes_of_append)
qed (simp_all add: msgKey_def seqKey_def nameKey_def msgKeyPrefix_def)

section \<open>What \<open>GetMessages\<close> returns\<close>

text \<open>All the values of a list of results, or the first error in it.\<close>

primrec collect :: "'a res list \<Rightarrow> 'a list res" where
  "collect [] = Inr []"
| "collect (r # rs) = rbind r (\<lambda>x. rbind (collect rs) (\<lambda>xs. Inr (x # xs)))"

lemma collect_Inr [simp]: "collect (map (\<lambda>x. Inr (f x)) xs) = Inr (map f xs)"
  by (induction xs) auto

definition stored_message :: "string \<Rightarrow> u64 \<Rightarrow> bytes \<Rightarrow> Message res" where
  "stored_message name q v = rbind (decodeStoredMessage name v) (\<lambda>m. Inr (m\<lparr>m_Seq := q\<rparr>))"

lemma decodeStoredMessage_error:
  "decodeStoredMessage name v = Inl e \<Longrightarrow> e = Err ''decode message: buffer too short''"
  by (auto simp: decodeStoredMessage_def split: option.splits if_splits)

definition scan_result :: "go_error option \<times> 'a \<Rightarrow> 'a res" where
  "scan_result r = (case r of (Some e, _) \<Rightarrow> Inl e | (None, x) \<Rightarrow> Inr x)"

lemma get_message_msgKey:
  "get_message name limit msgs (msgKey q) v =
    (case stored_message name q v of
       Inl e \<Rightarrow> (Some e, msgs)
     | Inr m \<Rightarrow> (if limit \<le> int (Suc (length msgs)) then Some ErrStopScan else None, msgs @ [m]))"
proof -
  have "length msgKeyPrefix + 16 \<le> length (msgKey q)" by (simp add: msgKeyPrefix_def)
  then show ?thesis
    by (simp add: get_message_def stored_message_def Let_def split: sum.splits)
qed

lemma stored_message_error:
  "stored_message name q v = Inl e \<Longrightarrow> e = Err ''decode message: buffer too short''"
  using decodeStoredMessage_error by (cases "decodeStoredMessage name v") (auto simp: stored_message_def)

lemma scan_get_message:
  assumes "int (length acc) < limit"
  shows "scan_result (scan_items msg (get_message name limit) (map (\<lambda>(q, v). (msgKey q, Inr v)) qvs) acc)
    = rbind (collect (map (\<lambda>(q, v). stored_message name q v) (take (nat limit - length acc) qvs)))
        (\<lambda>ms. Inr (acc @ ms))"
  using assms
proof (induction qvs arbitrary: acc)
  case Nil
  then show ?case by (simp add: scan_result_def)
next
  case (Cons qv qvs)
  obtain q v where qv: "qv = (q, v)" by fastforce
  have room: "nat limit - length acc = Suc (nat limit - Suc (length acc))"
    using Cons.prems by linarith
  show ?case
  proof (cases "stored_message name q v")
    case (Inl e)
    then show ?thesis
      using stored_message_error [OF Inl]
      by (simp add: qv room get_message_msgKey scan_result_def ErrStopScan_def)
  next
    case (Inr m)
    let ?rest = "collect (map (\<lambda>(q, v). stored_message name q v) (take (nat limit - Suc (length acc)) qvs))"
    show ?thesis
    proof (cases "limit \<le> int (Suc (length acc))")
      case True
      then show ?thesis
        using Inr by (simp add: qv room get_message_msgKey scan_result_def ErrStopScan_def)
    next
      case False
      with Inr Cons.IH [of "acc @ [m]"] show ?thesis
        by (cases ?rest) (simp_all add: qv room get_message_msgKey)
    qed
  qed
qed

text \<open>The keys with the message prefix are message keys: nothing else is written there.\<close>

definition only_msg_keys :: "(bytes \<rightharpoonup> bytes) \<Rightarrow> bool" where
  "only_msg_keys c \<longleftrightarrow> (\<forall>k \<in> dom c. prefix msgPrefix k \<longrightarrow> (\<exists>q. k = msgKey q))"

text \<open>The items the scan visits are the stored messages, in the order of their numbers.\<close>

lemma iter_messages:
  assumes "badger_laws E cont" "only_msg_keys (cont d)"
  obtains qvs where "eng_iter E d msgPrefix (msgKey a) = map (\<lambda>(q, v). (msgKey q, Inr v)) qvs"
    and "sorted_wrt (<) (map fst qvs)"
    and "set qvs = {(q, v). cont d (msgKey q) = Some v \<and> a \<le> q}"
proof -
  obtain kvs where kvs: "eng_iter E d msgPrefix (msgKey a) = map (\<lambda>(k, v). (k, Inr v)) kvs"
    "sorted_wrt (<) (map fst kvs)"
    "set kvs = {(k, v). cont d k = Some v \<and> prefix msgPrefix k \<and> msgKey a \<le> k}"
    using eng_iter_sorted [OF assms(1)] by blast
  define unkey where "unkey k = (THE q. k = msgKey q)" for k
  have unkey [simp]: "unkey (msgKey q) = q" for q
    unfolding unkey_def by (rule the_equality) auto
  have form: "\<exists>q. k = msgKey q" if "(k, v) \<in> set kvs" for k v
    using that assms(2) kvs(3) by (auto simp: only_msg_keys_def)
  let ?qvs = "map (\<lambda>(k, v). (unkey k, v)) kvs"
  have kvs_eq: "map (\<lambda>(q, v). (msgKey q, v)) ?qvs = kvs"
    by (auto simp: o_def intro!: map_idI dest!: form)
  have keys: "map fst kvs = map msgKey (map fst ?qvs)"
    by (subst kvs_eq [symmetric]) (simp add: o_def split_beta)
  show ?thesis
  proof (rule that [of ?qvs])
    show "eng_iter E d msgPrefix (msgKey a) = map (\<lambda>(q, v). (msgKey q, Inr v)) ?qvs"
      unfolding kvs(1) by (subst kvs_eq [symmetric]) (simp add: o_def split_beta)
    show "sorted_wrt (<) (map fst ?qvs)"
      using kvs(2) unfolding keys sorted_wrt_map msgKey_less by simp
    show "set ?qvs = {(q, v). cont d (msgKey q) = Some v \<and> a \<le> q}"
    proof (intro set_eqI iffI; clarify)
      fix q v
      assume "(q, v) \<in> set ?qvs"
      then obtain k where k: "(k, v) \<in> set kvs" "q = unkey k" by auto
      with form [OF k(1)] have "(msgKey q, v) \<in> set kvs" by auto
      then show "cont d (msgKey q) = Some v \<and> a \<le> q" by (simp add: kvs(3) msgKey_le)
    next
      fix q v
      assume "cont d (msgKey q) = Some v" "a \<le> q"
      then have "(msgKey q, v) \<in> set kvs" by (simp add: kvs(3) msgKey_le)
      then show "(q, v) \<in> set ?qvs" by force
    qed
  qed
qed

lemma GetMessages_exact:
  assumes "badger_laws E cont" "only_msg_keys (cont (t_db t))" "limit \<le> maxSlice"
  obtains seqs where "sorted_wrt (<) seqs"
    and "set seqs = {q. fromSeq \<le> q \<and> cont (t_db t) (msgKey q) \<noteq> None}"
    and "GetMessages E t fromSeq limit =
      (case collect (map (\<lambda>q. stored_message (t_name t) q (the (cont (t_db t) (msgKey q)))) (take (nat limit) seqs)) of
         Inl e \<Rightarrow> Inl (Wrap ''get messages'' e) | Inr ms \<Rightarrow> Inr ms)"
proof -
  obtain qvs where qvs: "eng_iter E (t_db t) msgPrefix (msgKey fromSeq) = map (\<lambda>(q, v). (msgKey q, Inr v)) qvs"
    "sorted_wrt (<) (map fst qvs)" "set qvs = {(q, v). cont (t_db t) (msgKey q) = Some v \<and> fromSeq \<le> q}"
    using iter_messages [OF assms(1,2)] by blast
  have val: "(case x of (q, v) \<Rightarrow> stored_message (t_name t) q v)
      = stored_message (t_name t) (fst x) (the (cont (t_db t) (msgKey (fst x))))" if "x \<in> set qvs" for x
    using that qvs(3) by auto
  show ?thesis
  proof (rule that [of "map fst qvs"])
    show "set (map fst qvs) = {q. fromSeq \<le> q \<and> cont (t_db t) (msgKey q) \<noteq> None}"
      using qvs(3) by force
    have "map (\<lambda>(q, v). stored_message (t_name t) q v) (take (nat limit) qvs)
        = map (\<lambda>q. stored_message (t_name t) q (the (cont (t_db t) (msgKey q)))) (take (nat limit) (map fst qvs))"
      using val by (simp add: take_map) (metis in_set_takeD)
    with scan_get_message [of "[]" limit "''scan from: value copy''" "t_name t" qvs]
    show "GetMessages E t fromSeq limit =
      (case collect (map (\<lambda>q. stored_message (t_name t) q (the (cont (t_db t) (msgKey q)))) (take (nat limit) (map fst qvs))) of
         Inl e \<Rightarrow> Inl (Wrap ''get messages'' e) | Inr ms \<Rightarrow> Inr ms)"
      using assms(3) by (cases "0 < limit") (auto simp: GetMessages_def ScanFrom_def qvs(1) scan_result_def
          split: prod.splits option.splits sum.splits)
  qed (use qvs in simp)
qed

section \<open>The abstract log\<close>

text \<open>
  A topic is meant to be a list of messages, numbered from 1. \<open>log_at ms q\<close> is the message
  with number \<open>q\<close>.
\<close>

definition log_at :: "Message list \<Rightarrow> u64 \<Rightarrow> Message option" where
  "log_at ms q = (if q \<noteq> 0 \<and> unat q \<le> length ms then Some (ms ! (unat q - 1)) else None)"

definition saved_seq :: "(bytes \<rightharpoonup> bytes) \<Rightarrow> u64" where
  "saved_seq c = (case c seqKey of None \<Rightarrow> 0 | Some v \<Rightarrow> if length v < 8 then 0 else get_be (take 8 v))"

text \<open>
  \<open>db_msgs c name ms\<close>: a topic's database with content \<open>c\<close> holds exactly the messages \<open>ms\<close>, under
  their numbers, each in a form that is read back as it was; \<open>db_log\<close>: and their count.
\<close>

definition db_msgs :: "(bytes \<rightharpoonup> bytes) \<Rightarrow> string \<Rightarrow> Message list \<Rightarrow> bool" where
  "db_msgs c name ms \<longleftrightarrow> length ms < 2 ^ 64 \<and> only_msg_keys c
     \<and> (\<forall>q. c (msgKey q) = map_option m_RawWire (log_at ms q))
     \<and> (\<forall>q m. log_at ms q = Some m \<longrightarrow> stored_message name q (m_RawWire m) = Inr m)"

definition db_log :: "(bytes \<rightharpoonup> bytes) \<Rightarrow> string \<Rightarrow> Message list \<Rightarrow> bool" where
  "db_log c name ms \<longleftrightarrow> db_msgs c name ms \<and> saved_seq c = word_of_nat (length ms)"

definition topic_log :: "('d \<Rightarrow> bytes \<rightharpoonup> bytes) \<Rightarrow> 'd Topic \<Rightarrow> Message list \<Rightarrow> bool" where
  "topic_log cont t ms \<longleftrightarrow> db_log (cont (t_db t)) (t_name t) ms \<and> t_seq t = word_of_nat (length ms)"

lemma log_at_Nil [simp]: "log_at [] q = None"
  by (simp add: log_at_def unat_eq_0)

lemma log_at_snoc:
  assumes "Suc (length ms) < 2 ^ 64"
  shows "log_at (ms @ [m]) q = (if q = word_of_nat (Suc (length ms)) then Some m else log_at ms q)"
proof -
  have n: "unat (word_of_nat (Suc (length ms)) :: u64) = Suc (length ms)"
    using assms by (simp add: unat_of_nat del: of_nat_Suc)
  then have "q = word_of_nat (Suc (length ms)) \<longleftrightarrow> unat q = Suc (length ms)"
    by (metis word_eq_iff_unsigned)
  moreover have "q = 0 \<longleftrightarrow> unat q = 0" by (simp add: unat_eq_0)
  ultimately show ?thesis
    by (auto simp: log_at_def nth_append)
qed

lemma sorted_seqs_unique:
  assumes "sorted_wrt (<) seqs" "set seqs = {q. a \<le> q \<and> log_at ms q \<noteq> None}" "length ms < 2 ^ 64"
  shows "map (\<lambda>q. the (log_at ms q)) seqs = drop (unat a - 1) ms"
proof -
  let ?f = "\<lambda>i. word_of_nat (Suc i) :: u64"
  let ?l = "map ?f [unat a - 1..<length ms]"
  have un: "unat (?f i) = Suc i" if "i < length ms" for i
    using that assms(3) by (simp add: unat_of_nat del: of_nat_Suc)
  have nz: "?f i \<noteq> 0" if "i < length ms" for i
    using un [OF that] by (metis nat.distinct(1) unat_0)
  have "sorted_wrt (<) ?l"
    unfolding sorted_wrt_map
    by (rule sorted_wrt_mono_rel [OF _ sorted_wrt_upt]) (auto simp: word_less_nat_alt un simp del: of_nat_Suc)
  moreover have "set ?l = set seqs"
  proof (intro set_eqI iffI)
    fix q assume "q \<in> set ?l"
    then obtain i where i: "q = ?f i" "unat a - 1 \<le> i" "i < length ms" by auto
    then show "q \<in> set seqs"
      using un [OF i(3)] nz [OF i(3)] by (simp add: assms(2) log_at_def word_le_nat_alt)
  next
    fix q assume "q \<in> set seqs"
    then have q: "unat a \<le> unat q" "q \<noteq> 0" "unat q \<le> length ms"
      by (auto simp: assms(2) log_at_def word_le_nat_alt split: if_splits)
    then have "q = ?f (unat q - 1)" "unat q - 1 \<in> {unat a - 1..<length ms}"
      using unat_gt_0 [of q] by auto
    then show "q \<in> set ?l" by auto
  qed
  ultimately have "seqs = ?l"
    using assms(1) by (metis strict_sorted_equal)
  then have "map (\<lambda>q. the (log_at ms q)) seqs = map (\<lambda>i. ms ! i) [unat a - 1..<length ms]"
    using un nz by (auto simp: o_def log_at_def)
  also have "\<dots> = drop (unat a - 1) (map ((!) ms) [0..<length ms])"
    by (simp add: drop_map)
  finally show ?thesis by (simp add: map_nth)
qed

lemma GetMessages_db:
  assumes "badger_laws E cont" "db_msgs (cont (t_db t)) (t_name t) ms" "limit \<le> maxSlice"
  shows "GetMessages E t fromSeq limit = Inr (take (nat limit) (drop (unat fromSeq - 1) ms))"
proof -
  have l: "length ms < 2 ^ 64" "only_msg_keys (cont (t_db t))"
    "\<And>q. cont (t_db t) (msgKey q) = map_option m_RawWire (log_at ms q)"
    "\<And>q m. log_at ms q = Some m \<Longrightarrow> stored_message (t_name t) q (m_RawWire m) = Inr m"
    using assms(2) by (auto simp: db_msgs_def)
  obtain seqs where seqs: "sorted_wrt (<) seqs"
    "set seqs = {q. fromSeq \<le> q \<and> cont (t_db t) (msgKey q) \<noteq> None}"
    "GetMessages E t fromSeq limit =
      (case collect (map (\<lambda>q. stored_message (t_name t) q (the (cont (t_db t) (msgKey q)))) (take (nat limit) seqs)) of
         Inl e \<Rightarrow> Inl (Wrap ''get messages'' e) | Inr ms \<Rightarrow> Inr ms)"
    using GetMessages_exact [OF assms(1) l(2) assms(3)] by blast
  have set: "set seqs = {q. fromSeq \<le> q \<and> log_at ms q \<noteq> None}"
    using seqs(2) l(3) by auto
  have eq: "map (\<lambda>q. stored_message (t_name t) q (the (cont (t_db t) (msgKey q)))) (take (nat limit) seqs)
      = map (\<lambda>q. Inr (the (log_at ms q))) (take (nat limit) seqs)"
    using l(3,4) set by (auto dest!: in_set_takeD)
  have "GetMessages E t fromSeq limit = Inr (map (\<lambda>q. the (log_at ms q)) (take (nat limit) seqs))"
    unfolding seqs(3) eq by simp
  also have "\<dots> = Inr (take (nat limit) (map (\<lambda>q. the (log_at ms q)) seqs))"
    by (simp add: take_map)
  finally show ?thesis
    unfolding sorted_seqs_unique [OF seqs(1) set l(1)] .
qed

lemma GetMessages_log:
  "badger_laws E cont \<Longrightarrow> topic_log cont t ms \<Longrightarrow> limit \<le> maxSlice \<Longrightarrow>
    GetMessages E t fromSeq limit = Inr (take (nat limit) (drop (unat fromSeq - 1) ms))"
  by (rule GetMessages_db, assumption) (simp add: topic_log_def db_log_def)

section \<open>Subscriber channels\<close>

text \<open>
  Every subscriber of the list has an open channel, no channel holds more than its capacity, and
  fresh addresses are unused.
\<close>

definition subs_inv :: "'d Topic \<Rightarrow> bool" where
  "subs_inv t \<longleftrightarrow> distinct (t_subs t)
     \<and> (\<forall>a \<in> set (t_subs t). \<exists>c. t_chans t a = Some c \<and> \<not> ch_closed c)
     \<and> (\<forall>a c. t_chans t a = Some c \<longrightarrow> a < t_next t \<and> length (ch_buf c) \<le> subChanSize)"

definition offer :: "Message \<Rightarrow> chan \<Rightarrow> chan" where
  "offer m c = (if length (ch_buf c) < subChanSize then c\<lparr>ch_buf := ch_buf c @ [m]\<rparr> else c)"

lemma offer_closed [simp]: "ch_closed (offer m c) = ch_closed c"
  by (simp add: offer_def)

lemma length_offer: "length (ch_buf c) \<le> subChanSize \<Longrightarrow> length (ch_buf (offer m c)) \<le> subChanSize"
  by (simp add: offer_def)

lemma try_send_open: "\<not> ch_closed c \<Longrightarrow> try_send m c = Inr (offer m c)"
  by (simp add: try_send_def offer_def)

lemma fan_out_spec:
  "distinct subs \<Longrightarrow> \<forall>a \<in> set subs. \<exists>c. chans a = Some c \<and> \<not> ch_closed c \<Longrightarrow>
    fan_out m subs chans = Inr (\<lambda>a. if a \<in> set subs then map_option (offer m) (chans a) else chans a)"
proof (induction subs arbitrary: chans)
  case (Cons a subs)
  then obtain c where c: "chans a = Some c" "\<not> ch_closed c" by auto
  have "fan_out m subs (chans(a \<mapsto> offer m c))
      = Inr (\<lambda>b. if b \<in> set subs then map_option (offer m) ((chans(a \<mapsto> offer m c)) b) else (chans(a \<mapsto> offer m c)) b)"
    using Cons.prems by (intro Cons.IH) auto
  with c Cons.prems show ?case
    by (auto simp: try_send_open fun_eq_iff)
qed simp

lemma fan_out_subs:
  "subs_inv t \<Longrightarrow> fan_out m (t_subs t) (t_chans t)
    = Inr (\<lambda>a. if a \<in> set (t_subs t) then map_option (offer m) (t_chans t a) else t_chans t a)"
  by (rule fan_out_spec) (auto simp: subs_inv_def)

text \<open>The message a successful publish creates.\<close>

definition message_of :: "string \<Rightarrow> u64 \<Rightarrow> uuid \<Rightarrow> Envelope \<Rightarrow> Message" where
  "message_of name q newV7 env =
     (let sid = (if env_ServerMsgID env = uuid_Nil then newV7 else env_ServerMsgID env) in
      \<lparr>m_Seq = q, m_Topic = name, m_Payload = env_Payload env,
       m_Timestamp = env_PublishTS env, m_IdempotencyID = env_IdempotencyID env,
       m_ServerMsgID = sid, m_RawWire = Encode (WithServerMsgID env sid)\<rparr>)"

abbreviation published :: "uuid \<Rightarrow> Envelope \<Rightarrow> 'd Topic \<Rightarrow> Message" where
  "published newV7 env t \<equiv> message_of (t_name t) (t_seq t + 1) newV7 env"

lemma Publish_eq:
  assumes "subs_inv t"
  shows "Publish E newV7 env t =
    (case Set E (t_db t) (msgKey (t_seq t + 1)) (m_RawWire (published newV7 env t)) of
       (Some err, d) \<Rightarrow> (Inl (Wrap ''publish: persist message'' err), t\<lparr>t_seq := t_seq t + 1, t_db := d\<rparr>)
     | (None, d) \<Rightarrow> (Inr \<lparr>pr_Msg = published newV7 env t, pr_Duplicate = False\<rparr>,
        t\<lparr>t_seq := t_seq t + 1, t_db := snd (SetUint64 E d seqKey (t_seq t + 1)),
          t_chans := (\<lambda>a. if a \<in> set (t_subs t) then map_option (offer (published newV7 env t)) (t_chans t a)
                          else t_chans t a)\<rparr>))"
proof -
  have "env_Payload (WithServerMsgID env i) = env_Payload env"
    "env_PublishTS (WithServerMsgID env i) = env_PublishTS env"
    "env_IdempotencyID (WithServerMsgID env i) = env_IdempotencyID env" for i
    by (simp_all add: WithServerMsgID_def)
  with fan_out_subs [OF assms] show ?thesis
    unfolding Publish_def message_of_def Let_def by (simp split: prod.splits option.splits)
qed

text \<open>\<open>Publish\<close> either stores the message and offers it to every subscriber, or reports that the write failed.\<close>

lemma Publish_cases:
  assumes "subs_inv t"
  obtains (stored) d where "Set E (t_db t) (msgKey (t_seq t + 1)) (m_RawWire (published newV7 env t)) = (None, d)"
      "Publish E newV7 env t = (Inr \<lparr>pr_Msg = published newV7 env t, pr_Duplicate = False\<rparr>,
        t\<lparr>t_seq := t_seq t + 1, t_db := snd (SetUint64 E d seqKey (t_seq t + 1)),
          t_chans := (\<lambda>a. if a \<in> set (t_subs t) then map_option (offer (published newV7 env t)) (t_chans t a)
                          else t_chans t a)\<rparr>)"
    | (failed) err d where "Set E (t_db t) (msgKey (t_seq t + 1)) (m_RawWire (published newV7 env t)) = (Some err, d)"
      "Publish E newV7 env t = (Inl (Wrap ''publish: persist message'' err), t\<lparr>t_seq := t_seq t + 1, t_db := d\<rparr>)"
proof (cases "Set E (t_db t) (msgKey (t_seq t + 1)) (m_RawWire (published newV7 env t))")
  case (Pair r d)
  then show ?thesis
    using that Publish_eq [OF assms, of E newV7 env] by (cases r) simp_all
qed

lemma subs_inv_offer:
  "subs_inv t \<Longrightarrow> subs_inv (t\<lparr>t_seq := q, t_db := d,
     t_chans := (\<lambda>a. if a \<in> set (t_subs t) then map_option (offer m) (t_chans t a) else t_chans t a)\<rparr>)"
  by (fastforce simp: subs_inv_def intro: length_offer)

lemma subs_inv_Publish:
  assumes "subs_inv t"
  shows "subs_inv (snd (Publish E newV7 env t))"
  using assms
proof (cases rule: Publish_cases [where E = E and ?newV7.0 = newV7 and env = env])
  case (stored d)
  then show ?thesis using subs_inv_offer [OF assms] by simp
next
  case (failed err d)
  then show ?thesis using assms by (simp add: subs_inv_def)
qed

lemma subs_inv_Subscribe: "subs_inv t \<Longrightarrow> subs_inv (snd (Subscribe t))"
  by (fastforce simp: subs_inv_def Subscribe_def)

lemma subs_inv_unsub: "subs_inv t \<Longrightarrow> subs_inv (unsub a t)"
  by (fastforce simp: subs_inv_def unsub_def)

lemma subs_inv_recv: "subs_inv t \<Longrightarrow> subs_inv (snd (chan_recv a t))"
  by (fastforce simp: subs_inv_def chan_recv_def split: option.splits list.splits)

lemma subs_inv_Purge: "subs_inv t \<Longrightarrow> subs_inv (snd (Purge E t))"
  by (simp add: Purge_def subs_inv_def Let_def split: prod.splits option.splits)

lemma subs_inv_newFromDB: "newFromDB E name d w = (Inr t, d') \<Longrightarrow> subs_inv t"
  by (auto simp: newFromDB_def loadSeq_def Let_def subs_inv_def split: prod.splits option.splits sum.splits if_splits)

section \<open>The topic implements the log\<close>

lemma stored_message_wire:
  "wf_env env \<Longrightarrow> stored_message name q (Encode env) = Inr \<lparr>m_Seq = q, m_Topic = name, m_Payload = env_Payload env,
     m_Timestamp = env_PublishTS env, m_IdempotencyID = env_IdempotencyID env,
     m_ServerMsgID = env_ServerMsgID env, m_RawWire = Encode env\<rparr>"
  using TryDecode_Some_iff [of "Encode env" env] by (simp add: stored_message_def decodeStoredMessage_def)

lemma stored_message_of:
  "wf_env env \<Longrightarrow> stored_message name q (m_RawWire (message_of name q newV7 env)) = Inr (message_of name q newV7 env)"
  using stored_message_wire [of "WithServerMsgID env i" for i]
  by (simp add: message_of_def Let_def) (simp add: WithServerMsgID_def)

lemma only_msg_keys_upd:
  "only_msg_keys c \<Longrightarrow> only_msg_keys (c(msgKey q \<mapsto> v))"
  "only_msg_keys c \<Longrightarrow> \<not> prefix msgPrefix k \<Longrightarrow> only_msg_keys (c(k \<mapsto> v))"
  by (auto simp: only_msg_keys_def)

lemma meta_not_msg [simp]: "\<not> prefix msgPrefix seqKey" "\<not> prefix msgPrefix nameKey"
  by (simp_all add: msgPrefix_def seqKey_def nameKey_def msgKeyPrefix_def bytes_of_def)

lemma saved_seq_simps [simp]:
  "saved_seq (c(seqKey \<mapsto> put_be 8 w)) = w" "k \<noteq> seqKey \<Longrightarrow> saved_seq (c(k := v)) = saved_seq c"
  by (simp_all add: saved_seq_def codec_simps)

lemma db_log_snoc:
  assumes "db_log c name ms" "Suc (length ms) < 2 ^ 64"
    and "stored_message name (word_of_nat (Suc (length ms))) (m_RawWire m) = Inr m"
  shows "db_log (c(msgKey (word_of_nat (Suc (length ms))) \<mapsto> m_RawWire m,
      seqKey \<mapsto> put_be 8 (word_of_nat (Suc (length ms)) :: u64))) name (ms @ [m])"
  using assms unfolding db_log_def db_msgs_def
  by (auto simp: log_at_snoc only_msg_keys_upd simp del: of_nat_Suc)

lemma topic_log_Publish:
  assumes "badger_laws E cont" "writes_commit E" "topic_log cont t ms" "subs_inv t"
    and "wf_env env" "Suc (length ms) < 2 ^ 64"
  shows "\<exists>t'. Publish E newV7 env t = (Inr \<lparr>pr_Msg = published newV7 env t, pr_Duplicate = False\<rparr>, t')
     \<and> topic_log cont t' (ms @ [published newV7 env t]) \<and> t_name t' = t_name t"
proof -
  let ?q = "word_of_nat (Suc (length ms)) :: u64"
  let ?m = "message_of (t_name t) ?q newV7 env"
  have q: "t_seq t + 1 = ?q" using assms(3) by (simp add: topic_log_def)
  obtain d where d: "Set E (t_db t) (msgKey ?q) (m_RawWire ?m) = (None, d)"
    using writes_commit_Set [OF assms(2), of "msgKey ?q"] by (metis msgKey_simps(1) prod.collapse)
  let ?d = "snd (SetUint64 E d seqKey ?q)"
  have "cont d = (cont (t_db t))(msgKey ?q \<mapsto> m_RawWire ?m)"
    using kv.put_cont [OF assms(1) d] by simp
  then have cont: "cont ?d = (cont (t_db t))(msgKey ?q \<mapsto> m_RawWire ?m, seqKey \<mapsto> put_be 8 ?q)"
    by (simp add: SetUint64_def cont_Set_commit [OF assms(1,2)])
  have "db_log (cont ?d) (t_name t) (ms @ [?m])"
    unfolding cont using assms(3)
    by (intro db_log_snoc [OF _ assms(6) stored_message_of [OF assms(5)]])
      (simp add: topic_log_def)
  then show ?thesis
    using Publish_eq [OF assms(4), of E newV7 env] unfolding q d
    by (simp add: topic_log_def)
qed

lemma topic_log_transfer:
  "topic_log cont t ms \<Longrightarrow> t_db t' = t_db t \<Longrightarrow> t_name t' = t_name t \<Longrightarrow> t_seq t' = t_seq t \<Longrightarrow> topic_log cont t' ms"
  by (simp add: topic_log_def)

lemma topic_log_subscribers:
  assumes "topic_log cont t ms"
  shows "topic_log cont (snd (Subscribe t)) ms" "topic_log cont (unsub a t) ms" "topic_log cont (snd (chan_recv a t)) ms"
  by (rule topic_log_transfer [OF assms]; simp add: Subscribe_def unsub_def chan_recv_def split: option.splits list.splits)+

text \<open>Offsets live under keys of their own: moving one leaves the log alone.\<close>

lemma offset_key_other: "\<not> prefix msgPrefix (bytes_of (buildKey g))" "bytes_of (buildKey g) \<noteq> msgKey q"
  "bytes_of (buildKey g) \<noteq> seqKey" "bytes_of (buildKey g) \<noteq> nameKey"
proof -
  show no: "\<not> prefix msgPrefix (bytes_of (buildKey g))"
    by (simp add: msgPrefix_def buildKey_def msgKeyPrefix_def offsetKeyPrefix_def bytes_of_def)
  then show "bytes_of (buildKey g) \<noteq> msgKey q" by (metis msgKey_simps(7))
  show "bytes_of (buildKey g) \<noteq> seqKey" "bytes_of (buildKey g) \<noteq> nameKey"
    by (simp_all add: seqKey_def nameKey_def buildKey_def offsetKeyPrefix_def)
qed

lemma db_log_other:
  "db_log c name ms \<Longrightarrow> \<not> prefix msgPrefix k \<Longrightarrow> k \<noteq> seqKey \<Longrightarrow> db_log (c(k := v)) name ms"
  by (cases v; auto simp: db_log_def db_msgs_def only_msg_keys_def split: if_splits)

definition topic_setOffset :: "'d engine \<Rightarrow> string \<Rightarrow> u64 \<Rightarrow> 'd Topic \<Rightarrow> 'd Topic" where
  "topic_setOffset E g v t =
     (case offsets_Set E (t_offsets t, t_db t) g v of (off, d) \<Rightarrow> t\<lparr>t_offsets := off, t_db := d\<rparr>)"

lemma topic_log_setOffset:
  assumes "badger_laws E cont" "topic_log cont t ms"
  shows "topic_log cont (topic_setOffset E g v t) ms"
proof -
  let ?k = "bytes_of (buildKey g)"
  have "cont (snd (Set E (t_db t) ?k w)) = (cont (t_db t))(?k \<mapsto> w) \<or> cont (snd (Set E (t_db t) ?k w)) = cont (t_db t)" for w
    using kv.put_cont [OF assms(1), of "t_db t" ?k w] by (metis prod.collapse)
  then have "db_log (cont (snd (Set E (t_db t) ?k w))) (t_name t) ms" for w
    using assms(2) db_log_other [of "cont (t_db t)" "t_name t" ms ?k] offset_key_other
    by (metis topic_log_def)
  then show ?thesis
    using assms(2) by (simp add: topic_log_def topic_setOffset_def offsets_Set_def offsets_persist_def Let_def split_beta)
qed

lemma delete_all_cont:
  assumes "badger_laws E cont" "writes_commit E" "[] \<notin> set ks"
  shows "\<exists>d'. delete_all E ks d = (None, d') \<and> cont d' = (\<lambda>k. if k \<in> set ks then None else cont d k)"
  using assms(3)
proof (induction ks arbitrary: d)
  case (Cons k ks)
  then obtain d1 where d1: "Delete E d k = (None, d1)"
    using writes_commit_Delete [OF assms(2), of k d] by (metis list.set_intros(1) prod.collapse)
  with Cons obtain d2 where "delete_all E ks d1 = (None, d2)" "cont d2 = (\<lambda>k. if k \<in> set ks then None else cont d1 k)"
    by auto
  with d1 kv.del_cont [OF assms(1) d1] show ?case by (auto simp: fun_eq_iff)
qed simp

lemma scan_keys:
  assumes "badger_laws E cont"
  shows "set (snd (Scan E d p (\<lambda>ks k _. (None, ks @ [k])) [])) = {k \<in> dom (cont d). prefix p k}"
proof -
  obtain kvs where kvs: "eng_iter E d p p = map (\<lambda>(k, v). (k, Inr v)) kvs"
    and srt: "sorted_wrt (<) (map fst kvs)"
    and set: "set kvs = {(k, v). cont d k = Some v \<and> prefix p k \<and> p \<le> k}"
    using assms by (rule eng_iter_sorted)
  have "foldl (\<lambda>ks (k, v). snd (None :: go_error option, ks @ [k])) acc kvs = acc @ map fst kvs" for acc
    by (induction kvs arbitrary: acc) auto
  then have "snd (Scan E d p (\<lambda>ks k _. (None, ks @ [k])) []) = map fst kvs"
    unfolding Scan_def kvs by (subst scan_items_fold) simp_all
  moreover have "fst ` set kvs = {k \<in> dom (cont d). prefix p k}"
    unfolding set by (auto simp: image_iff intro: prefix_le)
  ultimately show ?thesis by simp
qed

lemma Purge_log:
  assumes "badger_laws E cont" "writes_commit E" "only_msg_keys (cont (t_db t))"
  shows "fst (Purge E t) = None \<and> topic_log cont (snd (Purge E t)) []"
    and "\<not> prefix msgPrefix k \<Longrightarrow> k \<noteq> seqKey \<Longrightarrow> cont (t_db (snd (Purge E t))) k = cont (t_db t) k"
    and "t_offsets (snd (Purge E t)) = t_offsets t"
proof -
  let ?d = "t_db t" and ?ks = "snd (Scan E (t_db t) msgPrefix (\<lambda>ks k _. (None, ks @ [k])) [])"
  note ks = scan_keys [OF assms(1), of ?d msgPrefix]
  have "[] \<notin> set ?ks"
    unfolding ks by (auto simp: msgPrefix_def msgKeyPrefix_def bytes_of_def)
  from delete_all_cont [OF assms(1,2) this, of ?d]
  obtain d1 where d1: "delete_all E ?ks ?d = (None, d1)" "cont d1 = (\<lambda>k. if k \<in> set ?ks then None else cont ?d k)"
    by blast
  obtain d2 where d2: "SetUint64 E d1 seqKey 0 = (None, d2)"
    using writes_commit_Set [OF assms(2), of seqKey] unfolding SetUint64_def
    by (metis msgKey_simps(2) prod.collapse)
  have cont2: "cont d2 = (\<lambda>k. if k \<in> set ?ks then None else cont ?d k)(seqKey \<mapsto> put_be 8 (0 :: u64))"
    using kv.put_cont [OF assms(1) d2 [unfolded SetUint64_def]] by (simp add: d1(2))
  have purge: "Purge E t = (None, t\<lparr>t_seq := 0, t_db := d2\<rparr>)"
    using d1(1) d2 by (simp add: Purge_def)
  have "db_log (cont d2) (t_name t) []"
    unfolding db_log_def db_msgs_def cont2 ks by (auto simp: only_msg_keys_def split: if_splits)
  with purge show "fst (Purge E t) = None \<and> topic_log cont (snd (Purge E t)) []"
    by (simp add: topic_log_def)
  show "\<not> prefix msgPrefix k \<Longrightarrow> k \<noteq> seqKey \<Longrightarrow> cont (t_db (snd (Purge E t))) k = cont (t_db t) k"
    unfolding purge using cont2 ks by simp
  show "t_offsets (snd (Purge E t)) = t_offsets t" by (simp add: purge)
qed

text \<open>Opening the database again, by name or from its directory, gives the log and the offsets back.\<close>

lemma newFromDB_ok:
  assumes "badger_laws E cont" "w \<Longrightarrow> fst (Set E d nameKey (bytes_of name)) = None"
  shows "\<exists>t' d'. newFromDB E name d w = (Inr t', d')
    \<and> cont d' = (if w then (cont d)(nameKey \<mapsto> bytes_of name) else cont d)
    \<and> t_db t' = d' \<and> t_name t' = name \<and> t_seq t' = saved_seq (cont d)
    \<and> subs_inv t' \<and> offsets_Get (t_offsets t') = stored_offset (cont d)"
proof -
  obtain d1 where d1: "(if w then Set E d nameKey (bytes_of name) else (None, d)) = (None, d1)"
    using assms(2) by (metis prod.collapse)
  then have cont1: "cont d1 = (if w then (cont d)(nameKey \<mapsto> bytes_of name) else cont d)"
    using kv.put_cont [OF assms(1), of d nameKey "bytes_of name" None d1] by (auto split: if_splits)
  then have off: "stored_offset (cont d1) = stored_offset (cont d)"
    by (auto simp: stored_offset_def offset_key_other fun_eq_iff)
  obtain offs where offs: "LoadFromStorage E NewOffsets d1 = (None, offs)" "offsets_Get offs = stored_offset (cont d1)"
    using LoadFromStorage_Get [OF assms(1), of d1] by (metis prod.collapse)
  have "GetUint64 E d1 seqKey = Inr (saved_seq (cont d1))"
    using GetUint64_cont [OF assms(1), of seqKey d1] by (simp add: saved_seq_def)
  moreover have "saved_seq (cont d1) = saved_seq (cont d)"
    by (simp add: cont1 not_sym [OF msgKey_simps(6)])
  ultimately show ?thesis
    using d1 offs off cont1 by (simp add: newFromDB_def loadSeq_def subs_inv_def Let_def)
qed

lemma newFromDB_log:
  assumes "badger_laws E cont" "writes_commit E" "db_log (cont d) name ms"
  shows "\<exists>t' d'. newFromDB E name d w = (Inr t', d') \<and> topic_log cont t' ms \<and> t_name t' = name \<and> t_db t' = d'
    \<and> subs_inv t' \<and> offsets_Get (t_offsets t') = stored_offset (cont d)"
  using newFromDB_ok [OF assms(1), of w d name] writes_commit_Set [OF assms(2) msgKey_simps(3)]
    db_log_other [OF assms(3) meta_not_msg(2)] assms(3)
  by (cases w) (auto simp: topic_log_def db_log_def not_sym [OF msgKey_simps(6)] simp del: fun_upd_apply)

text \<open>The messages of a log carry their positions as numbers.\<close>

lemma log_seq:
  assumes "topic_log cont t ms" "i < length ms"
  shows "m_Seq (ms ! i) = word_of_nat (Suc i)"
proof -
  let ?q = "word_of_nat (Suc i) :: u64"
  have u: "unat ?q = Suc i"
    using assms by (simp add: topic_log_def db_log_def db_msgs_def unat_of_nat del: of_nat_Suc)
  then have "?q \<noteq> 0" by (metis nat.distinct(1) unat_0)
  with u assms(2) have "log_at ms ?q = Some (ms ! i)" by (simp add: log_at_def del: of_nat_Suc)
  then have "stored_message (t_name t) ?q (m_RawWire (ms ! i)) = Inr (ms ! i)"
    using assms(1) by (simp add: topic_log_def db_log_def db_msgs_def)
  then obtain x where "x\<lparr>m_Seq := ?q\<rparr> = ms ! i"
    by (auto simp: stored_message_def rbind_Inr_iff)
  then have "m_Seq (x\<lparr>m_Seq := ?q\<rparr>) = m_Seq (ms ! i)" by (rule arg_cong)
  then show ?thesis by simp
qed

section \<open>The interface of a log\<close>

locale message_log =
  fixes is_log :: "'t \<Rightarrow> 'm list \<Rightarrow> bool"
    and fetch :: "'t \<Rightarrow> u64 \<Rightarrow> int \<Rightarrow> 'm list res"
    and last_seq :: "'t \<Rightarrow> u64"
    and most :: int
  assumes fetch_log: "is_log t ms \<Longrightarrow> n \<le> most \<Longrightarrow> fetch t a n = Inr (take (nat n) (drop (unat a - 1) ms))"
    and last_seq_log: "is_log t ms \<Longrightarrow> length ms < 2 ^ 64 \<and> last_seq t = word_of_nat (length ms)"
begin

lemma unat_last_seq: "is_log t ms \<Longrightarrow> unat (last_seq t) = length ms"
  using last_seq_log [of t ms] by (simp add: unat_of_nat)

text \<open>A reader that has everything up to \<open>off\<close> gets the next messages, without gap or repetition.\<close>

lemma catch_up:
  assumes "is_log t ms" "off < last_seq t" "n \<le> most"
  shows "fetch t (off + 1) n = Inr (take (nat n) (drop (unat off) ms))"
proof -
  have "unat (off + 1) = Suc (unat off)"
    using assms(2) by (rule unat_plus_one)
  with assms(1,3) show ?thesis by (simp add: fetch_log)
qed

lemma catch_up_all:
  assumes "is_log t ms" "off < last_seq t" "int (length ms - unat off) \<le> n" "n \<le> most"
  shows "fetch t (off + 1) n = Inr (drop (unat off) ms)"
  using catch_up [OF assms(1,2,4)] assms(3) by simp

end

interpretation tlog: message_log "\<lambda>t ms. badger_laws E cont \<and> topic_log cont t ms" "GetMessages E" t_seq maxSlice for E cont
  by unfold_locales (blast intro: GetMessages_log, simp add: topic_log_def db_log_def db_msgs_def)

section \<open>Runs of a topic\<close>

datatype topic_op =
    TPublish uuid Envelope
  | TSubscribe
  | TUnsub nat
  | TRecv nat
  | TSetOffset string u64
  | TPurge
  | TRestart

definition topic_restart :: "'d engine \<Rightarrow> 'd Topic \<Rightarrow> 'd Topic" where
  "topic_restart E t = (case newFromDB E (t_name t) (t_db t) True of (Inr t', _) \<Rightarrow> t' | (Inl _, _) \<Rightarrow> t)"

fun run_top :: "'d engine \<Rightarrow> topic_op \<Rightarrow> 'd Topic \<Rightarrow> 'd Topic" where
  "run_top E (TPublish newV7 env) t = snd (Publish E newV7 env t)"
| "run_top E TSubscribe t = snd (Subscribe t)"
| "run_top E (TUnsub a) t = unsub a t"
| "run_top E (TRecv a) t = snd (chan_recv a t)"
| "run_top E (TSetOffset g v) t = topic_setOffset E g v t"
| "run_top E TPurge t = snd (Purge E t)"
| "run_top E TRestart t = topic_restart E t"

fun spec_top :: "string \<Rightarrow> topic_op \<Rightarrow> Message list \<Rightarrow> Message list" where
  "spec_top name (TPublish newV7 env) ms = ms @ [message_of name (word_of_nat (length ms) + 1) newV7 env]"
| "spec_top name TPurge ms = []"
| "spec_top name _ ms = ms"

fun op_ok :: "topic_op \<Rightarrow> bool" where
  "op_ok (TPublish newV7 env) = wf_env env"
| "op_ok _ = True"

definition topic_inv :: "('d \<Rightarrow> bytes \<rightharpoonup> bytes) \<Rightarrow> string \<Rightarrow> Message list \<Rightarrow> 'd Topic \<Rightarrow> bool" where
  "topic_inv cont name ms t \<longleftrightarrow> topic_log cont t ms \<and> subs_inv t \<and> t_name t = name"

lemma subs_inv_setOffset: "subs_inv t \<Longrightarrow> subs_inv (topic_setOffset E g v t)"
  by (simp add: topic_setOffset_def subs_inv_def split: prod.splits)

lemma topic_restart_log:
  assumes "badger_laws E cont" "writes_commit E" "topic_log cont t ms"
  shows "topic_log cont (topic_restart E t) ms" "subs_inv (topic_restart E t)" "t_name (topic_restart E t) = t_name t"
    and "offsets_Get (t_offsets (topic_restart E t)) = stored_offset (cont (t_db t))"
  using newFromDB_log [OF assms(1,2), of "t_db t" "t_name t" ms True] assms(3)
  by (auto simp: topic_restart_def topic_log_def)

lemma topic_inv_Purge:
  assumes "badger_laws E cont" "writes_commit E" "topic_inv cont name ms t"
  shows "fst (Purge E t) = None \<and> topic_inv cont name [] (snd (Purge E t))"
  using Purge_log(1) [OF assms(1,2), of t] assms(3)
  by (auto simp: topic_inv_def subs_inv_Purge topic_log_def db_log_def db_msgs_def)
    (simp add: Purge_def Let_def split: prod.splits option.splits)

lemma topic_inv_step:
  assumes "badger_laws E cont" "writes_commit E" "topic_inv cont name ms t" "op_ok op" "Suc (length ms) < 2 ^ 64"
  shows "topic_inv cont name (spec_top name op ms) (run_top E op t)"
proof (cases op)
  case (TPublish newV7 env)
  then obtain t' where "run_top E op t = t'" "topic_log cont t' (ms @ [published newV7 env t])" "t_name t' = t_name t"
    using topic_log_Publish [OF assms(1,2), of t ms env newV7] assms(3-5) by (auto simp: topic_inv_def)
  moreover have "subs_inv (run_top E op t)"
    using TPublish assms(3) by (simp add: topic_inv_def subs_inv_Publish)
  ultimately show ?thesis
    using TPublish assms(3) by (simp add: topic_inv_def) (simp add: topic_log_def)
next
  case TPurge
  then show ?thesis using topic_inv_Purge [OF assms(1-3)] by simp
next
  case TRestart
  then show ?thesis
    using topic_restart_log [OF assms(1,2), of t ms] assms(3) by (simp add: topic_inv_def)
next
  case (TSetOffset g v)
  then show ?thesis
    using topic_log_setOffset [OF assms(1), of t ms g v] assms(3)
    by (simp add: topic_inv_def subs_inv_setOffset) (simp add: topic_setOffset_def split: prod.splits)
qed (use assms(3) topic_log_subscribers [of cont t ms] in
     \<open>auto simp: topic_inv_def subs_inv_Subscribe subs_inv_unsub subs_inv_recv,
      simp_all add: Subscribe_def unsub_def chan_recv_def split: option.splits list.splits\<close>)

lemma length_spec_top: "length (spec_top name op ms) \<le> Suc (length ms)"
  by (cases op) auto

lemma topic_inv_run:
  assumes "badger_laws E cont" "writes_commit E"
  shows "topic_inv cont name ms t \<Longrightarrow> \<forall>op \<in> set ops. op_ok op \<Longrightarrow> length ms + length ops < 2 ^ 64
    \<Longrightarrow> topic_inv cont name (fold (spec_top name) ops ms) (fold (run_top E) ops t)"
proof (induction ops arbitrary: ms t)
  case (Cons op ops)
  then have "topic_inv cont name (spec_top name op ms) (run_top E op t)"
    by (intro topic_inv_step [OF assms]) auto
  then show ?case
    using Cons.prems length_spec_top [of name op ms] by (auto intro!: Cons.IH)
qed simp

section \<open>The stream of a subscriber\<close>

datatype topic_event = EPub Message | ERecv nat Message

fun top_event :: "'d engine \<Rightarrow> topic_op \<Rightarrow> 'd Topic \<Rightarrow> topic_event list" where
  "top_event E (TPublish newV7 env) t =
     (case fst (Publish E newV7 env t) of Inr r \<Rightarrow> [EPub (pr_Msg r)] | Inl _ \<Rightarrow> [])"
| "top_event E (TRecv a) t = (case fst (chan_recv a t) of Got m \<Rightarrow> [ERecv a m] | _ \<Rightarrow> [])"
| "top_event E _ t = []"

primrec top_trace :: "'d engine \<Rightarrow> topic_op list \<Rightarrow> 'd Topic \<Rightarrow> topic_event list" where
  "top_trace E [] t = []"
| "top_trace E (op # ops) t = top_event E op t @ top_trace E ops (run_top E op t)"

definition pubs :: "topic_event list \<Rightarrow> Message list" where
  "pubs tr = concat (map (\<lambda>e. case e of EPub m \<Rightarrow> [m] | _ \<Rightarrow> []) tr)"

definition recvs :: "nat \<Rightarrow> topic_event list \<Rightarrow> Message list" where
  "recvs a tr = concat (map (\<lambda>e. case e of ERecv b m \<Rightarrow> if b = a then [m] else [] | _ \<Rightarrow> []) tr)"

definition buffered :: "nat \<Rightarrow> 'd Topic \<Rightarrow> Message list" where
  "buffered a t = (case t_chans t a of None \<Rightarrow> [] | Some c \<Rightarrow> ch_buf c)"

text \<open>\<open>roomy E a ops t\<close>: in this run no publish finds the channel \<open>a\<close> full.\<close>

fun roomy :: "'d engine \<Rightarrow> nat \<Rightarrow> topic_op list \<Rightarrow> 'd Topic \<Rightarrow> bool" where
  "roomy E a [] t = True"
| "roomy E a (op # ops) t =
     ((case op of TPublish _ _ \<Rightarrow> length (buffered a t) < subChanSize | _ \<Rightarrow> True)
      \<and> roomy E a ops (run_top E op t))"

fun keeps_sub :: "nat \<Rightarrow> topic_op \<Rightarrow> bool" where
  "keeps_sub a (TUnsub b) = (b \<noteq> a)"
| "keeps_sub a TRestart = False"
| "keeps_sub a _ = True"

lemma pubs_recvs_append [simp]:
  "pubs (xs @ ys) = pubs xs @ pubs ys" "recvs a (xs @ ys) = recvs a xs @ recvs a ys"
  by (simp_all add: pubs_def recvs_def)

lemma pubs_recvs_simps [simp]:
  "pubs [] = []" "recvs a [] = []" "pubs [EPub m] = [m]" "recvs a [EPub m] = []"
  "pubs [ERecv b m] = []" "recvs a [ERecv b m] = (if b = a then [m] else [])"
  by (simp_all add: pubs_def recvs_def)

lemma subs_inv_run_top: "subs_inv t \<Longrightarrow> keeps_sub a op \<Longrightarrow> subs_inv (run_top E op t)"
  by (cases op) (simp_all add: subs_inv_Publish subs_inv_Subscribe subs_inv_unsub subs_inv_recv
    subs_inv_setOffset subs_inv_Purge)

lemma buffered_Publish:
  assumes "subs_inv t" "a \<in> set (t_subs t)" "Publish E newV7 env t = (r, t')"
  shows "a \<in> set (t_subs t')"
    and "r = Inr pr \<Longrightarrow> buffered a t'
       = (if length (buffered a t) < subChanSize then buffered a t @ [pr_Msg pr] else buffered a t)"
    and "r = Inl e \<Longrightarrow> buffered a t' = buffered a t"
proof -
  obtain c where "t_chans t a = Some c"
    using assms by (auto simp: subs_inv_def)
  then show "a \<in> set (t_subs t')"
    and "r = Inr pr \<Longrightarrow> buffered a t'
       = (if length (buffered a t) < subChanSize then buffered a t @ [pr_Msg pr] else buffered a t)"
    and "r = Inl e \<Longrightarrow> buffered a t' = buffered a t"
    using Publish_eq [OF assms(1), of E newV7 env] assms(2,3)
    by (auto simp: buffered_def offer_def split: prod.splits option.splits)
qed

text \<open>
  One step: what the subscriber has received and still has in its channel grows by what was
  published, or by less if the channel was full.
\<close>

lemma stream_step:
  assumes "subs_inv t" "a \<in> set (t_subs t)" "keeps_sub a op"
  shows "a \<in> set (t_subs (run_top E op t))"
    and "subseq (recvs a (top_event E op t) @ buffered a (run_top E op t)) (buffered a t @ pubs (top_event E op t))"
    and "roomy E a [op] t \<Longrightarrow>
      recvs a (top_event E op t) @ buffered a (run_top E op t) = buffered a t @ pubs (top_event E op t)"
proof -
  have fresh: "a < t_next t" using assms(1,2) by (auto simp: subs_inv_def)
  show "a \<in> set (t_subs (run_top E op t))"
    using assms fresh buffered_Publish(1) [OF assms(1,2) surjective_pairing]
    by (cases op) (auto simp: Subscribe_def unsub_def chan_recv_def topic_setOffset_def Purge_def Let_def
        split: option.splits list.splits prod.splits)
  have same: "recvs a (top_event E op t) @ buffered a (run_top E op t) = buffered a t @ pubs (top_event E op t)"
    if "\<And>newV7 env. op \<noteq> TPublish newV7 env"
    using that assms fresh
    by (cases op) (auto simp: Subscribe_def unsub_def chan_recv_def topic_setOffset_def Purge_def Let_def buffered_def
        split: option.splits list.splits prod.splits)
  have pub: "subseq (buffered a (run_top E op t)) (buffered a t @ pubs (top_event E op t))
      \<and> (roomy E a [op] t \<longrightarrow> buffered a (run_top E op t) = buffered a t @ pubs (top_event E op t))
      \<and> recvs a (top_event E op t) = []" if op: "op = TPublish newV7 env" for newV7 env
  proof (cases "fst (Publish E newV7 env t)")
    case (Inl e)
    with buffered_Publish(3) [OF assms(1,2) surjective_pairing Inl] op show ?thesis by simp
  next
    case (Inr r)
    with buffered_Publish(2) [OF assms(1,2) surjective_pairing Inr] op show ?thesis
      by (simp add: prefix_imp_subseq)
  qed
  show "subseq (recvs a (top_event E op t) @ buffered a (run_top E op t)) (buffered a t @ pubs (top_event E op t))"
    using same pub by (cases op) auto
  show "roomy E a [op] t \<Longrightarrow>
      recvs a (top_event E op t) @ buffered a (run_top E op t) = buffered a t @ pubs (top_event E op t)"
    using same pub by (cases op) auto
qed

lemma stream_run:
  "subs_inv t \<Longrightarrow> a \<in> set (t_subs t) \<Longrightarrow> \<forall>op \<in> set ops. keeps_sub a op \<Longrightarrow>
    subseq (recvs a (top_trace E ops t) @ buffered a (fold (run_top E) ops t)) (buffered a t @ pubs (top_trace E ops t))
    \<and> (roomy E a ops t \<longrightarrow>
        recvs a (top_trace E ops t) @ buffered a (fold (run_top E) ops t) = buffered a t @ pubs (top_trace E ops t))"
proof (induction ops arbitrary: t)
  case (Cons op ops)
  let ?t = "run_top E op t" and ?R = "recvs a (top_event E op t)"
  have op: "keeps_sub a op" using Cons.prems by simp
  note step = stream_step [OF Cons.prems(1,2) op, of E]
  note IH = Cons.IH [OF subs_inv_run_top [OF Cons.prems(1) op, of E] step(1)]
  have rest: "\<forall>op \<in> set ops. keeps_sub a op" using Cons.prems by simp
  have "subseq (?R @ recvs a (top_trace E ops ?t) @ buffered a (fold (run_top E) ops ?t))
      (?R @ buffered a ?t @ pubs (top_trace E ops ?t))"
    using IH [OF rest] by (auto intro: list_emb_append_mono)
  moreover have "subseq ((?R @ buffered a ?t) @ pubs (top_trace E ops ?t))
      ((buffered a t @ pubs (top_event E op t)) @ pubs (top_trace E ops ?t))"
    by (rule list_emb_append_mono [OF step(2)]) simp
  ultimately have "subseq (?R @ recvs a (top_trace E ops ?t) @ buffered a (fold (run_top E) ops ?t))
      (buffered a t @ pubs (top_event E op t) @ pubs (top_trace E ops ?t))"
    unfolding append_assoc by (rule subseq_order.trans)
  moreover have "?R @ recvs a (top_trace E ops ?t) @ buffered a (fold (run_top E) ops ?t)
      = buffered a t @ pubs (top_event E op t) @ pubs (top_trace E ops ?t)" if roomy: "roomy E a (op # ops) t"
  proof -
    have "roomy E a [op] t" "roomy E a ops ?t" using roomy by simp_all
    with step(3) IH [OF rest] show ?thesis by (metis append.assoc)
  qed
  ultimately show ?case by simp
qed simp

lemma db_msgs_single:
  assumes "wf_env env" "\<And>k. prefix msgPrefix k \<Longrightarrow> c k = (if k = msgKey 1 then Some (m_RawWire (message_of name 1 newV7 env)) else None)"
  shows "db_msgs c name [message_of name 1 newV7 env]"
proof -
  have log: "log_at [message_of name 1 newV7 env] q = (if q = 1 then Some (message_of name 1 newV7 env) else None)" for q
    using log_at_snoc [of "[]" "message_of name 1 newV7 env" q] by simp
  show ?thesis
    unfolding db_msgs_def log using assms by (auto simp: only_msg_keys_def stored_message_of split: if_splits)
qed

section \<open>A sample topic\<close>

text \<open>A topic with two messages in the in-memory database, for applying the properties below.\<close>

definition sample_env :: Envelope where
  "sample_env = \<lparr>env_IdempotencyID = 5, env_ServerMsgID = 0, env_PublishTS = 1000, env_UserProps = [], env_Payload = [1, 2]\<rparr>"

definition sample_topic :: "mem_db Topic" where
  "sample_topic = \<lparr>t_name = ''t'', t_seq = 2, t_subs = [], t_chans = Map.empty, t_next = 0,
     t_db = [(msgKey 1, Encode sample_env), (msgKey 2, Encode sample_env)], t_offsets = NewOffsets\<rparr>"

definition sample_msg :: Message where
  "sample_msg = message_of ''t'' 1 9 sample_env"

definition logged_topic :: "mem_db Topic" where
  "logged_topic = \<lparr>t_name = ''t'', t_seq = 1, t_subs = [], t_chans = Map.empty, t_next = 0,
     t_db = [(nameKey, bytes_of ''t''), (msgKey 1, m_RawWire sample_msg), (seqKey, put_be 8 (1 :: u64))],
     t_offsets = NewOffsets\<rparr>"

lemma wf_sample_env: "wf_env sample_env"
  by (simp add: sample_env_def wf_env_def in_int64_def)

lemma sample_topic_ok: "only_msg_keys (map_of (t_db sample_topic))" "subs_inv sample_topic"
  by (auto simp: sample_topic_def only_msg_keys_def subs_inv_def split: if_splits)

lemma logged_topic_ok: "topic_log map_of logged_topic [sample_msg]" "subs_inv logged_topic"
proof -
  have "db_msgs (map_of (t_db logged_topic)) ''t'' [message_of ''t'' 1 9 sample_env]"
    by (rule db_msgs_single [OF wf_sample_env]) (auto simp: logged_topic_def sample_msg_def)
  then show "topic_log map_of logged_topic [sample_msg]"
    by (simp add: topic_log_def db_log_def saved_seq_def codec_simps not_sym [OF msgKey_simps(4)]
        not_sym [OF msgKey_simps(6)] logged_topic_def sample_msg_def)
  show "subs_inv logged_topic" by (simp add: logged_topic_def subs_inv_def)
qed

section \<open>Properties\<close>

text \<open>
  Key format. The key of a message is 20 bytes long, sorts in the database exactly as its
  sequence number does, and the number read back from it is the one it was made from.
\<close>

theorem message_keys_ordered:
  "length (msgKey a) = 20 \<and> (msgKey a < msgKey b \<longleftrightarrow> a < b) \<and> prefix msgPrefix (msgKey a)
   \<and> sscanf_016X (string_of (drop (length msgKeyPrefix) (msgKey a))) = a"
  by (simp add: msgKey_less)

text \<open>
  What a read returns. On any topic database in which only messages are stored under the
  message prefix, \<open>GetMessages\<close> returns the stored messages with numbers from \<open>fromSeq\<close> on in
  ascending order, the first \<open>limit\<close> of them, each under the number of its key, in either of the
  two stored formats; if one of those cannot be decoded it returns the error of the first such
  message instead. A limit beyond the largest slice panics before anything is read.
\<close>

theorem get_messages_returns:
  assumes "badger_laws E cont" "only_msg_keys (cont (t_db t))"
  shows "\<exists>seqs. sorted_wrt (<) seqs
    \<and> set seqs = {q. fromSeq \<le> q \<and> cont (t_db t) (msgKey q) \<noteq> None}
    \<and> GetMessages E t fromSeq limit =
       (if maxSlice < limit then Inl (Panic ''makeslice: cap out of range'')
        else case collect (map (\<lambda>q. stored_message (t_name t) q (the (cont (t_db t) (msgKey q)))) (take (nat limit) seqs)) of
          Inl e \<Rightarrow> Inl (Wrap ''get messages'' e) | Inr ms \<Rightarrow> Inr ms)"
proof -
  have "0 \<le> maxSlice" by (simp add: maxSlice_def max_alloc_def)
  obtain seqs where seqs: "sorted_wrt (<) seqs"
    "set seqs = {q. fromSeq \<le> q \<and> cont (t_db t) (msgKey q) \<noteq> None}"
    "GetMessages E t fromSeq (min limit maxSlice) =
       (case collect (map (\<lambda>q. stored_message (t_name t) q (the (cont (t_db t) (msgKey q)))) (take (nat (min limit maxSlice)) seqs)) of
          Inl e \<Rightarrow> Inl (Wrap ''get messages'' e) | Inr ms \<Rightarrow> Inr ms)"
    by (rule GetMessages_exact [OF assms min.cobounded2])
  show ?thesis
  proof (cases "maxSlice < limit")
    case True
    with \<open>0 \<le> maxSlice\<close> have "GetMessages E t fromSeq limit = Inl (Panic ''makeslice: cap out of range'')"
      by (simp add: GetMessages_def)
    with True seqs(1,2) show ?thesis by (intro exI [of _ seqs]) simp
  next
    case False
    then have "min limit maxSlice = limit" by simp
    with False seqs show ?thesis by (intro exI [of _ seqs]) simp
  qed
qed

theorem get_messages_returns_witness:
  "\<exists>seqs. sorted_wrt (<) seqs
    \<and> set seqs = {q. 2 \<le> q \<and> map_of (t_db sample_topic) (msgKey q) \<noteq> None}
    \<and> GetMessages mem_engine sample_topic 2 10 =
       (case collect (map (\<lambda>q. stored_message ''t'' q (the (map_of (t_db sample_topic) (msgKey q)))) (take 10 seqs)) of
          Inl e \<Rightarrow> Inl (Wrap ''get messages'' e) | Inr ms \<Rightarrow> Inr ms)"
proof -
  have n: "t_name sample_topic = ''t''" "nat 10 = 10" "(maxSlice < 10) = False"
    by (simp_all add: sample_topic_def maxSlice_def max_alloc_def)
  show ?thesis
    using get_messages_returns [OF badger_laws_mem sample_topic_ok(1), of 2 10] unfolding n if_False .
qed

text \<open>
  C31 (refinement to a log). Run any sequence of publishes of well-formed envelopes, subscribes,
  unsubscribes, receives, offset moves, purges and restarts on a topic created over an empty
  database that commits its writes. Then reading from any number with any limit a slice can have gives the
  corresponding section of the abstract list of messages, numbered from 1 in the order of
  publication, and the topic's sequence number is the length of the list.
\<close>

theorem topic_refines_log:
  assumes "badger_laws E cont" "writes_commit E" "cont d0 = Map.empty"
    and "newFromDB E name d0 True = (Inr t0, d1)"
    and "\<forall>op \<in> set ops. op_ok op" "length ops < 2 ^ 64" "limit \<le> maxSlice"
  shows "GetMessages E (fold (run_top E) ops t0) fromSeq limit
      = Inr (take (nat limit) (drop (unat fromSeq - 1) (fold (spec_top name) ops [])))
    \<and> t_seq (fold (run_top E) ops t0) = word_of_nat (length (fold (spec_top name) ops []))"
proof -
  have "db_log (cont d0) name []"
    by (simp add: db_log_def db_msgs_def assms(3) only_msg_keys_def saved_seq_def)
  then have "topic_inv cont name [] t0"
    using newFromDB_log [OF assms(1,2), of d0 name "[]" True] assms(4) by (auto simp: topic_inv_def)
  from topic_inv_run [OF assms(1,2) this assms(5)] assms(6)
  have "topic_log cont (fold (run_top E) ops t0) (fold (spec_top name) ops [])"
    by (simp add: topic_inv_def)
  with assms(1) have log: "badger_laws E cont \<and> topic_log cont (fold (run_top E) ops t0) (fold (spec_top name) ops [])"
    by blast
  show ?thesis
    using tlog.fetch_log [OF log assms(7)] tlog.last_seq_log [OF log] by blast
qed

theorem topic_refines_log_witness:
  "\<exists>t0 d1. newFromDB mem_engine ''t'' [] True = (Inr t0, d1) \<and>
    GetMessages mem_engine (fold (run_top mem_engine)
        [TPublish 9 sample_env, TSubscribe, TRestart, TPublish 8 (sample_env\<lparr>env_Payload := [7]\<rparr>)] t0) 2 5
      = Inr [message_of ''t'' 2 8 (sample_env\<lparr>env_Payload := [7]\<rparr>)]"
proof -
  have "db_log (map_of []) ''t'' []"
    by (simp add: db_log_def db_msgs_def only_msg_keys_def saved_seq_def)
  then obtain t0 d1 where t0: "newFromDB mem_engine ''t'' [] True = (Inr t0, d1)"
    using newFromDB_log [OF badger_laws_mem writes_commit_mem] by blast
  have "wf_env (sample_env\<lparr>env_Payload := [7]\<rparr>)"
    using wf_sample_env by (simp add: wf_env_def)
  with topic_refines_log [OF badger_laws_mem writes_commit_mem _ t0,
      of "[TPublish 9 sample_env, TSubscribe, TRestart, TPublish 8 (sample_env\<lparr>env_Payload := [7]\<rparr>)]" 5 2]
  show ?thesis using t0 wf_sample_env by (auto simp: maxSlice_def max_alloc_def)
qed

text \<open>
  Publish on every branch. A publish never panics and always takes a new sequence number.
  If it succeeds, the message it reports is stored under that number and was appended to the
  channel of every subscriber that had room; if it fails, the database is unchanged and no
  subscriber was told.
\<close>

theorem publish_all_or_nothing:
  assumes "badger_laws E cont" "subs_inv t" "Publish E newV7 env t = (r, t')"
  shows "panic_free r \<and> t_seq t' = t_seq t + 1 \<and>
    (case r of
       Inr pr \<Rightarrow> pr_Msg pr = message_of (t_name t) (t_seq t + 1) newV7 env
         \<and> cont (t_db t') (msgKey (t_seq t + 1)) = Some (m_RawWire (pr_Msg pr))
         \<and> (\<forall>a \<in> set (t_subs t). buffered a t' =
             (if length (buffered a t) < subChanSize then buffered a t @ [pr_Msg pr] else buffered a t))
     | Inl e \<Rightarrow> cont (t_db t') = cont (t_db t) \<and> t_chans t' = t_chans t)"
  using assms(2)
proof (cases rule: Publish_cases [where E = E and ?newV7.0 = newV7 and env = env])
  case (stored d)
  have "cont (snd (SetUint64 E d seqKey v)) (msgKey q) = cont d (msgKey q)" for v q
    using kv.put_cont [OF assms(1), of d seqKey "put_be 8 v"]
    by (cases "Set E d seqKey (put_be 8 v)") (auto simp: SetUint64_def)
  moreover have "cont d (msgKey (t_seq t + 1)) = Some (m_RawWire (published newV7 env t))"
    using kv.put_cont [OF assms(1) stored(1)] by simp
  ultimately show ?thesis
    using stored(2) assms(3) buffered_Publish(2) [OF assms(2) _ assms(3)] by auto
next
  case (failed err d)
  then show ?thesis
    using assms(3) kv.failed_put_keeps [OF assms(1) failed(1)] by auto
qed

theorem publish_all_or_nothing_witness:
  "panic_free (fst (Publish mem_engine 9 sample_env sample_topic))
   \<and> t_seq (snd (Publish mem_engine 9 sample_env sample_topic)) = 3"
  using publish_all_or_nothing [OF badger_laws_mem sample_topic_ok(2) surjective_pairing, of 9 sample_env]
  by (simp add: sample_topic_def)



lemma publish_without_counter:
  assumes "badger_laws E cont" "subs_inv t" "t_seq t = 0"
    and "fst (Set E (t_db t) (msgKey 1) (m_RawWire (message_of (t_name t) 1 newV7 env))) = None"
    and "\<And>d v. fst (Set E d seqKey v) \<noteq> None"
  shows "\<exists>t'. Publish E newV7 env t = (Inr \<lparr>pr_Msg = message_of (t_name t) 1 newV7 env, pr_Duplicate = False\<rparr>, t')
    \<and> cont (t_db t') = (cont (t_db t))(msgKey 1 \<mapsto> m_RawWire (message_of (t_name t) 1 newV7 env)) \<and> t_name t' = t_name t"
proof -
  obtain d where d: "Set E (t_db t) (msgKey 1) (m_RawWire (message_of (t_name t) 1 newV7 env)) = (None, d)"
    using assms(4) by (metis prod.collapse)
  have "cont (snd (SetUint64 E d seqKey 1)) = cont d"
    using kv.failed_put_keeps [OF assms(1), of d seqKey] assms(5) unfolding SetUint64_def
    by (metis option.exhaust prod.collapse)
  then show ?thesis
    using Publish_eq [OF assms(2), of E newV7 env] d kv.put_cont [OF assms(1) d] by (simp add: assms(3))
qed

text \<open>
  A lost counter loses a message. \<open>Publish\<close> only logs a failed write of the counter
  \<^verbatim>\<open>meta:seq\<close>. If that write fails while the others succeed, then after a restart the topic
  counts from the old value again and the next publish overwrites a message that was
  acknowledged: of two publishes that both succeeded only the second is left.
\<close>

theorem lost_counter_overwrites:
  assumes laws: "badger_laws E cont" and empty: "cont d0 = Map.empty"
    and fails: "\<And>d v. fst (Set E d seqKey v) \<noteq> None"
    and others: "\<And>d k v. k \<noteq> [] \<Longrightarrow> k \<noteq> seqKey \<Longrightarrow> fst (Set E d k v) = None"
    and wf: "wf_env env1" "wf_env env2"
    and start: "newFromDB E name d0 True = (Inr t0, d1)"
    and pub1: "Publish E u1 env1 t0 = (r1, t1)"
    and restart: "newFromDB E name (t_db t1) True = (Inr t2, d2)"
    and pub2: "Publish E u2 env2 t2 = (r2, t3)"
  shows "r1 = Inr \<lparr>pr_Msg = message_of name 1 u1 env1, pr_Duplicate = False\<rparr>
    \<and> r2 = Inr \<lparr>pr_Msg = message_of name 1 u2 env2, pr_Duplicate = False\<rparr>
    \<and> GetMessages E t3 1 10 = Inr [message_of name 1 u2 env2]"
proof -
  have name_ok: "fst (Set E d nameKey v) = None" for d v
    using others [of nameKey] by (simp add: not_sym [OF msgKey_simps(6)])
  have t0: "cont (t_db t0) = [nameKey \<mapsto> bytes_of name]" "t_seq t0 = 0" "subs_inv t0" "t_name t0 = name"
    using newFromDB_ok [OF laws, of True d0 name] start name_ok by (auto simp: empty saved_seq_def)
  have t1: "r1 = Inr \<lparr>pr_Msg = message_of name 1 u1 env1, pr_Duplicate = False\<rparr>"
    "cont (t_db t1) = [nameKey \<mapsto> bytes_of name, msgKey 1 \<mapsto> m_RawWire (message_of name 1 u1 env1)]"
    using publish_without_counter [OF laws t0(3,2) _ fails, of u1 env1] pub1 t0(1,4) others
    by auto
  have "saved_seq (cont (t_db t1)) = 0"
    unfolding t1(2) by (simp add: saved_seq_def not_sym [OF msgKey_simps(4)])
  then have t2: "cont (t_db t2) = (cont (t_db t1))(nameKey \<mapsto> bytes_of name)" "t_seq t2 = 0" "subs_inv t2" "t_name t2 = name"
    using newFromDB_ok [OF laws, of True "t_db t1" name] restart name_ok by auto
  have t3: "r2 = Inr \<lparr>pr_Msg = message_of name 1 u2 env2, pr_Duplicate = False\<rparr>"
    "cont (t_db t3) = (cont (t_db t2))(msgKey 1 \<mapsto> m_RawWire (message_of name 1 u2 env2))" "t_name t3 = name"
    using publish_without_counter [OF laws t2(3,2) _ fails, of u2 env2] pub2 t2(4) others
    by auto
  have "db_msgs (cont (t_db t3)) (t_name t3) [message_of name 1 u2 env2]"
    unfolding t3(3) by (rule db_msgs_single [OF wf(2)]) (auto simp: t3(2) t2(1) t1(2))
  from GetMessages_db [OF laws this, of 10 1] t1(1) t3(1) show ?thesis by (simp add: maxSlice_def max_alloc_def)
qed

theorem lost_counter_overwrites_witness:
  "let E = faulty_engine (\<lambda>k. k = seqKey); env2 = sample_env\<lparr>env_Payload := [7]\<rparr> in
   \<exists>t0 d1 r1 t1 t2 d2 r2 t3.
     newFromDB E ''t'' [] True = (Inr t0, d1) \<and> Publish E 9 sample_env t0 = (r1, t1)
   \<and> newFromDB E ''t'' (t_db t1) True = (Inr t2, d2) \<and> Publish E 8 env2 t2 = (r2, t3)
   \<and> GetMessages E t3 1 10 = Inr [message_of ''t'' 1 8 env2]"
proof -
  let ?E = "faulty_engine (\<lambda>k. k = seqKey)"
  have fails: "fst (Set ?E d seqKey v) \<noteq> None" for d v
    by (simp add: Set_def faulty_engine_def)
  have others: "k \<noteq> [] \<Longrightarrow> k \<noteq> seqKey \<Longrightarrow> fst (Set ?E d k v) = None" for d k v
    by (simp add: Set_def faulty_engine_def)
  have new: "\<exists>t d'. newFromDB ?E ''t'' d True = (Inr t, d')" for d
    using newFromDB_ok [OF badger_laws_faulty, of True "\<lambda>k. k = seqKey" d "''t''"]
      others [of nameKey] by (auto simp: not_sym [OF msgKey_simps(6)])
  have wf2: "wf_env (sample_env\<lparr>env_Payload := [7]\<rparr>)"
    using wf_sample_env by (simp add: wf_env_def)
  obtain t0 d1 where t0: "newFromDB ?E ''t'' [] True = (Inr t0, d1)" using new by blast
  obtain r1 t1 where p1: "Publish ?E 9 sample_env t0 = (r1, t1)" by fastforce
  obtain t2 d2 where t2: "newFromDB ?E ''t'' (t_db t1) True = (Inr t2, d2)" using new by blast
  obtain r2 t3 where p2: "Publish ?E 8 (sample_env\<lparr>env_Payload := [7]\<rparr>) t2 = (r2, t3)" by fastforce
  have "GetMessages ?E t3 1 10 = Inr [message_of ''t'' 1 8 (sample_env\<lparr>env_Payload := [7]\<rparr>)]"
    using lost_counter_overwrites [OF badger_laws_faulty _ fails others wf_sample_env wf2 t0 p1 t2 p2] by simp
  with t0 p1 t2 p2 show ?thesis unfolding Let_def by blast
qed

end
