(* ===== verification/Auth.thy ===== *)
theory Auth
  imports Prelude
begin

text \<open>
  Users, authentication and the topic access lists (\<^verbatim>\<open>core/auth/auth.go\<close>). The password hash
  comparison of \<^verbatim>\<open>golang.org/x/crypto/bcrypt\<close>, the file read and the YAML decoder are
  arguments. The matcher is shown to decide the MQTT filter relation and the access lists to
  grant exactly what their patterns describe.
\<close>

section \<open>Users and the user store\<close>

record User =
  u_Name :: string
  u_Password :: string
  u_Bcrypt :: string
  u_Publish :: "string list"
  u_Subscribe :: "string list"
  u_Admin :: bool

record Store =
  st_users :: "string \<rightharpoonup> User"

text \<open>
  \<open>Load\<close>: the file's content (or the read error) and the decoder of its YAML. The loop writes
  the users into the map in order, so of two users with one name the later one counts.
\<close>

primrec load_users :: "User list \<Rightarrow> (string \<rightharpoonup> User) \<Rightarrow> (string \<rightharpoonup> User)" where
  "load_users [] m = m"
| "load_users (u # us) m = load_users us (m(u_Name u \<mapsto> u))"

definition Load :: "bytes res \<Rightarrow> (bytes \<Rightarrow> User list res) \<Rightarrow> Store res" where
  "Load readFile unmarshal =
     rbind readFile (\<lambda>raw. rbind (unmarshal raw) (\<lambda>users.
     Inr \<lparr>st_users = load_users users Map.empty\<rparr>))"

text \<open>
  \<open>Authenticate\<close>: the store is \<open>None\<close> for a nil pointer. \<open>bcrypt h p\<close> holds when
  \<^verbatim>\<open>bcrypt.CompareHashAndPassword\<close> returns nil.
\<close>

definition Authenticate ::
    "(bytes \<Rightarrow> bytes \<Rightarrow> bool) \<Rightarrow> Store option \<Rightarrow> string \<Rightarrow> string \<Rightarrow> User option \<times> bool" where
  "Authenticate bcrypt store username password =
     (case store of
        None \<Rightarrow> (None, True)
      | Some s \<Rightarrow>
          (case st_users s username of
             None \<Rightarrow> (None, False)
           | Some u \<Rightarrow>
               if u_Bcrypt u \<noteq> '''' then
                 if \<not> bcrypt (bytes_of (u_Bcrypt u)) (bytes_of password) then (None, False)
                 else (Some u, True)
               else if u_Password u \<noteq> '''' \<and> u_Password u = password then (Some u, True)
               else (None, False)))"

section \<open>Topic patterns\<close>

text \<open>\<^verbatim>\<open>strings.Split(s, "/")\<close>: the levels of a topic name; at least one, possibly empty.\<close>

fun split_levels :: "string \<Rightarrow> string list" where
  "split_levels [] = [[]]"
| "split_levels (c # cs) =
     (if c = CHR ''/'' then [] # split_levels cs
      else case split_levels cs of [] \<Rightarrow> [[c]] | l # ls \<Rightarrow> (c # l) # ls)"

text \<open>The loop of \<open>matchTopic\<close> from level \<open>i\<close> on: \<open>Some\<close> of the value it returns, \<open>None\<close> if it runs to its end.\<close>

fun matchTopic_loop :: "string list \<Rightarrow> nat \<Rightarrow> string list \<Rightarrow> bool option" where
  "matchTopic_loop [] i tParts = None"
| "matchTopic_loop (p # ps) i tParts =
     (if p = ''#'' then Some True
      else if length tParts \<le> i then Some False
      else if p \<noteq> ''+'' \<and> p \<noteq> tParts ! i then Some False
      else matchTopic_loop ps (Suc i) tParts)"

definition matchTopic :: "string \<Rightarrow> string \<Rightarrow> bool" where
  "matchTopic pattern topic =
     (if pattern = ''#'' then True
      else let pParts = split_levels pattern; tParts = split_levels topic in
        case matchTopic_loop pParts 0 tParts of
          Some b \<Rightarrow> b
        | None \<Rightarrow> length tParts = length pParts)"

definition CanPublish :: "User \<Rightarrow> string \<Rightarrow> bool" where
  "CanPublish u topic =
     (if u_Admin u then True
      else if list_ex (\<lambda>p. matchTopic p topic) (u_Publish u) then True
      else u_Publish u = [])"

definition CanSubscribe :: "User \<Rightarrow> string \<Rightarrow> bool" where
  "CanSubscribe u flt =
     (if u_Admin u then True
      else if list_ex (\<lambda>p. matchTopic p flt) (u_Subscribe u) then True
      else u_Subscribe u = [])"

text \<open>The users the sample file of \<^verbatim>\<open>WriteDefaultDev\<close> declares.\<close>

definition default_dev_users :: "User list" where
  "default_dev_users =
     [\<lparr>u_Name = ''admin'', u_Password = ''admin'', u_Bcrypt = '''',
       u_Publish = [''#''], u_Subscribe = [''#''], u_Admin = True\<rparr>,
      \<lparr>u_Name = ''pub'', u_Password = ''pub'', u_Bcrypt = '''',
       u_Publish = [''demo/#''], u_Subscribe = [], u_Admin = False\<rparr>,
      \<lparr>u_Name = ''sub'', u_Password = ''sub'', u_Bcrypt = '''',
       u_Publish = [], u_Subscribe = [''demo/#''], u_Admin = False\<rparr>]"

section \<open>The filter relation\<close>

text \<open>
  The meaning of a filter, level by level: \<open>#\<close> covers every remaining level, the parent
  included; \<open>+\<close> covers one level; any other level covers itself.
\<close>

inductive filter_covers :: "string list \<Rightarrow> string list \<Rightarrow> bool" where
  covers_end: "filter_covers [] []"
| covers_rest: "filter_covers (''#'' # ps) ts"
| covers_any: "filter_covers ps ts \<Longrightarrow> filter_covers (''+'' # ps) (t # ts)"
| covers_level: "filter_covers ps ts \<Longrightarrow> filter_covers (p # ps) (p # ts)"

inductive_simps filter_covers_Nil_simp [simp]: "filter_covers [] ts"
inductive_simps filter_covers_Cons_Nil_simp [simp]: "filter_covers (p # ps) []"
inductive_simps filter_covers_Cons_Cons_simp [simp]: "filter_covers (p # ps) (t # ts)"

section \<open>Levels\<close>

fun join_levels :: "string list \<Rightarrow> string" where
  "join_levels [] = []"
| "join_levels [l] = l"
| "join_levels (l # ls) = l @ CHR ''/'' # join_levels ls"

lemma split_levels_not_Nil [simp]: "split_levels s \<noteq> []"
  by (induction s) (auto split: list.splits)

lemma join_split_levels [simp]: "join_levels (split_levels s) = s"
proof (induction s)
  case Nil
  then show ?case by simp
next
  case (Cons c cs)
  obtain l ls where "split_levels cs = l # ls"
    by (cases "split_levels cs") auto
  with Cons show ?case by (cases ls) auto
qed

lemma split_levels_inject [simp]: "split_levels s = split_levels t \<longleftrightarrow> s = t"
  by (metis join_split_levels)

lemma split_levels_append_slash:
  "CHR ''/'' \<notin> set l \<Longrightarrow> split_levels (l @ CHR ''/'' # s) = l # split_levels s"
  by (induction l) auto

lemma split_levels_plain: "CHR ''/'' \<notin> set l \<Longrightarrow> split_levels l = [l]"
  by (induction l) auto

lemma split_join_levels:
  "ls \<noteq> [] \<Longrightarrow> \<forall>l \<in> set ls. CHR ''/'' \<notin> set l \<Longrightarrow> split_levels (join_levels ls) = ls"
  by (induction ls rule: join_levels.induct) (auto simp: split_levels_append_slash split_levels_plain)

lemma split_levels_no_slash: "l \<in> set (split_levels s) \<Longrightarrow> CHR ''/'' \<notin> set l"
  by (induction s arbitrary: l) (fastforce split: if_splits list.splits)+

section \<open>The matcher decides the filter relation\<close>

lemma matchTopic_loop_correct:
  "i \<le> length ts \<Longrightarrow> (case matchTopic_loop ps i ts of Some b \<Rightarrow> b | None \<Rightarrow> length ts = i + length ps)
    \<longleftrightarrow> filter_covers ps (drop i ts)"
proof (induction ps i ts rule: matchTopic_loop.induct)
  case (1 i ts)
  then show ?case by auto
next
  case (2 p ps i ts)
  show ?case
  proof (cases "i < length ts")
    case True
    then have "drop i ts = ts ! i # drop (Suc i) ts"
      by (simp add: Cons_nth_drop_Suc)
    with 2 True show ?thesis by (auto simp: covers_level split: option.splits)
  next
    case False
    with 2 show ?thesis by auto
  qed
qed

lemma split_hash [simp]: "split_levels ''#'' = [''#'']"
  by simp

lemma matchTopic_iff_covers: "matchTopic p t \<longleftrightarrow> filter_covers (split_levels p) (split_levels t)"
proof (cases "p = ''#''")
  case True
  then show ?thesis by (simp add: matchTopic_def filter_covers.intros)
next
  case False
  then show ?thesis
    using matchTopic_loop_correct [of 0 "split_levels t" "split_levels p"]
    by (auto simp: matchTopic_def Let_def split: option.splits)
qed

definition literal_level :: "string \<Rightarrow> bool" where
  "literal_level l \<longleftrightarrow> l \<noteq> ''#'' \<and> l \<noteq> ''+''"

lemma filter_covers_literal:
  "\<forall>p \<in> set ps. literal_level p \<Longrightarrow> filter_covers ps ts \<longleftrightarrow> ps = ts"
  by (induction ps arbitrary: ts) (auto simp: literal_level_def elim: filter_covers.cases intro: filter_covers.intros)

lemma filter_covers_subtree:
  "\<forall>p \<in> set ps. literal_level p \<Longrightarrow> filter_covers (ps @ [''#'']) ts \<longleftrightarrow> prefix ps ts"
proof (induction ps arbitrary: ts)
  case Nil
  then show ?case by (simp add: covers_rest)
next
  case (Cons p ps)
  then show ?case by (cases ts) (auto simp: literal_level_def)
qed

lemma split_levels_subtree: "split_levels (d @ ''/#'') = split_levels d @ [''#'']"
proof (induction d)
  case Nil
  then show ?case by simp
next
  case (Cons c cs)
  then show ?case by (auto split: list.splits)
qed

section \<open>The loaded users\<close>

lemma load_users_Some:
  "load_users us m n = Some u \<Longrightarrow> m n = Some u \<or> u \<in> set us \<and> u_Name u = n"
  by (induction us arbitrary: m) (fastforce split: if_splits)+

lemma Load_user:
  assumes "Load (Inr raw) unmarshal = Inr s" "st_users s n = Some u"
  obtains us where "unmarshal raw = Inr us" "u \<in> set us" "u_Name u = n"
  using assms load_users_Some [of _ Map.empty] by (auto simp: Load_def rbind_Inr_iff)

text \<open>The check a user's entry asks for: the hash if there is one, else a non-empty password.\<close>

definition credentials_ok :: "(bytes \<Rightarrow> bytes \<Rightarrow> bool) \<Rightarrow> User \<Rightarrow> string \<Rightarrow> bool" where
  "credentials_ok bcrypt u password \<longleftrightarrow>
     (if u_Bcrypt u \<noteq> '''' then bcrypt (bytes_of (u_Bcrypt u)) (bytes_of password)
      else u_Password u \<noteq> '''' \<and> u_Password u = password)"

lemma Authenticate_store:
  "Authenticate bcrypt (Some s) n pw =
    (case st_users s n of
       Some u \<Rightarrow> if credentials_ok bcrypt u pw then (Some u, True) else (None, False)
     | None \<Rightarrow> (None, False))"
  by (auto simp: Authenticate_def credentials_ok_def split: option.splits)

section \<open>Properties\<close>

text \<open>
  C38 (equivalence): the index loop of \<open>matchTopic\<close> decides the filter relation on the levels
  of pattern and topic, for every pattern and every topic.
\<close>
theorem acl_match_decides:
  "matchTopic p t \<longleftrightarrow> filter_covers (split_levels p) (split_levels t)"
  by (rule matchTopic_iff_covers)

text \<open>
  A user who is no administrator and whose access lists hold one subtree pattern
  \<open>d/#\<close> (no wildcard inside \<open>d\<close>) and one literal name \<open>x\<close> may publish exactly to the topics whose
  levels extend those of \<open>d\<close> (\<open>d\<close> itself included) and to \<open>x\<close>; the same for subscriptions.
\<close>
theorem acl_grants_exactly:
  assumes "\<not> u_Admin u" "\<forall>l \<in> set (split_levels d). literal_level l"
    and "\<forall>l \<in> set (split_levels x). literal_level l"
    and "u_Publish u = [d @ ''/#'', x]" "u_Subscribe u = [d @ ''/#'', x]"
  shows "(CanPublish u t \<longleftrightarrow> prefix (split_levels d) (split_levels t) \<or> t = x)
    \<and> (CanSubscribe u t \<longleftrightarrow> prefix (split_levels d) (split_levels t) \<or> t = x)"
  using assms
  by (auto simp: CanPublish_def CanSubscribe_def matchTopic_iff_covers split_levels_subtree
      filter_covers_subtree filter_covers_literal)

theorem acl_grants_exactly_witness:
  "let u = \<lparr>u_Name = ''dev'', u_Password = ''x'', u_Bcrypt = '''',
        u_Publish = [''demo/#'', ''hello''], u_Subscribe = [''demo/#'', ''hello''], u_Admin = False\<rparr>
   in CanPublish u ''demo/a/b'' \<and> CanPublish u ''demo'' \<and> \<not> CanPublish u ''demos''
      \<and> CanSubscribe u ''hello'' \<and> \<not> CanSubscribe u ''hello/a''"
proof -
  let ?u = "\<lparr>u_Name = ''dev'', u_Password = ''x'', u_Bcrypt = '''',
      u_Publish = [''demo/#'', ''hello''], u_Subscribe = [''demo/#'', ''hello''], u_Admin = False\<rparr>"
  note w = acl_grants_exactly [of ?u "''demo''" "''hello''"]
  show ?thesis
    using w [of "''demo/a/b''"] w [of "''demo''"] w [of "''demos''"] w [of "''hello''"]
      w [of "''hello/a''"]
    by (simp add: literal_level_def)
qed

text \<open>
  With a loaded user store, authentication succeeds only for a user the file
  declares under that very name and whose own credential check passes, and a failed
  authentication never hands out a user.
\<close>
theorem authenticate_only_declared:
  assumes "Load (Inr raw) unmarshal = Inr s"
    and "Authenticate bcrypt (Some s) n pw = (r, ok)"
  shows "if ok then \<exists>us u. unmarshal raw = Inr us \<and> u \<in> set us \<and> u_Name u = n \<and> r = Some u
           \<and> credentials_ok bcrypt u pw
         else r = None"
proof (cases "st_users s n")
  case None
  with assms(2) show ?thesis by (simp add: Authenticate_store)
next
  case (Some u)
  with assms(1) obtain us where "unmarshal raw = Inr us" "u \<in> set us" "u_Name u = n"
    by (rule Load_user)
  with assms(2) Some show ?thesis
    by (auto simp: Authenticate_store split: if_splits)
qed

theorem authenticate_only_declared_witness:
  "\<exists>s. Load (Inr []) (\<lambda>_. Inr default_dev_users) = Inr s
     \<and> Authenticate (\<lambda>_ _. False) (Some s) ''pub'' ''pub'' = (Some (default_dev_users ! 1), True)
     \<and> credentials_ok (\<lambda>_ _. False) (default_dev_users ! 1) ''pub''"
proof -
  let ?s = "\<lparr>st_users = load_users default_dev_users Map.empty\<rparr>"
  have l: "Load (Inr []) (\<lambda>_. Inr default_dev_users) = Inr ?s"
    by (simp add: Load_def)
  have a: "Authenticate (\<lambda>_ _. False) (Some ?s) ''pub'' ''pub'' = (Some (default_dev_users ! 1), True)"
    by (simp add: Authenticate_def default_dev_users_def)
  from authenticate_only_declared [OF l a] l a show ?thesis by auto
qed

text \<open>
  An empty access list grants everything. The sample user \<open>pub\<close>, declared with
  \<^verbatim>\<open>subscribe: []\<close>, may subscribe to every filter, and the sample user \<open>sub\<close>, declared with
  \<^verbatim>\<open>publish: []\<close>, may publish to every topic.
\<close>
theorem empty_acl_grants_everything:
  "CanSubscribe (default_dev_users ! 1) f \<and> CanPublish (default_dev_users ! 2) t"
  by (simp add: default_dev_users_def CanSubscribe_def CanPublish_def)

end
