(* ===== verification/Registry.thy ===== *)
theory Registry
  imports Topic Auth
begin

text \<open>
  The registry of topics (\<^verbatim>\<open>Registry\<close> in \<^verbatim>\<open>core/transport/mqtt/server.go\<close>): the topics by name, each
  in a directory of its own under the base directory. What \<^verbatim>\<open>storage.OpenBadger\<close> returns for
  a directory is the argument \<open>opened\<close>; a topic that is open lives in the registry.
\<close>

section \<open>Directories\<close>

text \<open>A cleaned path: absolute or not, and its components. \<open>filepath_Join\<close> is \<^verbatim>\<open>filepath.Join\<close> of
  a cleaned path and one element without a separator.\<close>

record path =
  p_abs :: bool
  p_comps :: "string list"

definition filepath_Join :: "path \<Rightarrow> string \<Rightarrow> path" where
  "filepath_Join b e =
     (if e = '''' \<or> e = ''.'' then b
      else if e = ''..''
      then (if p_comps b = [] \<or> last (p_comps b) = ''..''
            then (if p_abs b then b else b\<lparr>p_comps := p_comps b @ [''..'']\<rparr>)
            else b\<lparr>p_comps := butlast (p_comps b)\<rparr>)
      else b\<lparr>p_comps := p_comps b @ [e]\<rparr>)"

fun path_comps_string :: "string list \<Rightarrow> string" where
  "path_comps_string [] = ''''"
| "path_comps_string [c] = c"
| "path_comps_string (c # cs) = c @ ''/'' @ path_comps_string cs"

definition path_string :: "path \<Rightarrow> string" where
  "path_string p =
     (if p_abs p then ''/'' @ path_comps_string (p_comps p)
      else if p_comps p = [] then ''.'' else path_comps_string (p_comps p))"

definition sanitize_char :: "char \<Rightarrow> char" where
  "sanitize_char c = (if c \<in> {CHR ''/'', CHR 0x5C, CHR '':'', CHR '' ''} then CHR ''_'' else c)"

definition sanitizeTopicDir :: "string \<Rightarrow> string" where
  "sanitizeTopicDir name = map sanitize_char name"

section \<open>The registry\<close>

record 'd Registry =
  reg_topics :: "string \<rightharpoonup> 'd Topic"
  reg_baseDir :: path

definition NewRegistry :: "path \<Rightarrow> 'd Registry" where
  "NewRegistry baseDir = \<lparr>reg_topics = Map.empty, reg_baseDir = baseDir\<rparr>"

definition TopicDataDir :: "'d Registry \<Rightarrow> string \<Rightarrow> path" where
  "TopicDataDir r name = filepath_Join (reg_baseDir r) (sanitizeTopicDir name)"

definition registry_Get :: "'d Registry \<Rightarrow> string \<Rightarrow> 'd Topic option" where
  "registry_Get r name = reg_topics r name"

definition GetOrCreate :: "'d engine \<Rightarrow> (path \<Rightarrow> 'd res) \<Rightarrow> string \<Rightarrow> 'd Registry \<Rightarrow> 'd Topic res \<times> 'd Registry" where
  "GetOrCreate E opened name r =
     (case reg_topics r name of
        Some t \<Rightarrow> (Inr t, r)
      | None \<Rightarrow>
          let dir = filepath_Join (reg_baseDir r) (sanitizeTopicDir name) in
          (case topic_New E name (opened dir) of
             (Inl err, _) \<Rightarrow> (Inl (Wrapf ''registry: create topic %q'' [FStr name] err), r)
           | (Inr t, _) \<Rightarrow> (Inr t, r\<lparr>reg_topics := (reg_topics r)(name \<mapsto> t)\<rparr>)))"

text \<open>The body of the loop of \<open>Load\<close> on one directory entry: its name and whether it is a directory.\<close>

definition load_entry :: "'d engine \<Rightarrow> (path \<Rightarrow> 'd res) \<Rightarrow> path \<Rightarrow> string \<times> bool
    \<Rightarrow> (string \<rightharpoonup> 'd Topic) \<Rightarrow> (string \<rightharpoonup> 'd Topic)" where
  "load_entry E opened baseDir e topics =
     (case e of (name, isDir) \<Rightarrow>
        if \<not> isDir then topics
        else let dir = filepath_Join baseDir name in
          (case fst (LoadFromDir E (path_string dir) (opened dir)) of
             Inl _ \<Rightarrow> topics
           | Inr t \<Rightarrow> if t_name t = '''' then topics
                      else if topics (t_name t) \<noteq> None then topics
                      else topics(t_name t \<mapsto> t)))"

text \<open>\<open>readDir\<close> is what \<^verbatim>\<open>os.ReadDir\<close> returned for the base directory, \<open>isNotExist\<close> is \<^verbatim>\<open>os.IsNotExist\<close>.\<close>

definition registry_Load :: "'d engine \<Rightarrow> (go_error \<Rightarrow> bool) \<Rightarrow> (string \<times> bool) list res
    \<Rightarrow> (path \<Rightarrow> 'd res) \<Rightarrow> 'd Registry \<Rightarrow> go_error option \<times> 'd Registry" where
  "registry_Load E isNotExist readDir opened r =
     (case readDir of
        Inl err \<Rightarrow>
          if isNotExist err then (None, r)
          else (Some (Wrapf ''registry: read base dir %q'' [FStr (path_string (reg_baseDir r))] err), r)
      | Inr entries \<Rightarrow>
          (None, r\<lparr>reg_topics := fold (load_entry E opened (reg_baseDir r)) entries (reg_topics r)\<rparr>))"

section \<open>Names and directories\<close>

lemma sanitize_no_separator: "CHR ''/'' \<notin> set (sanitizeTopicDir name)"
  by (auto simp: sanitizeTopicDir_def sanitize_char_def split: if_splits)

lemma filepath_Join_child:
  "e \<notin> {'''', ''.'', ''..''} \<Longrightarrow> filepath_Join b e = b\<lparr>p_comps := p_comps b @ [e]\<rparr>"
  by (simp add: filepath_Join_def)

lemma filepath_Join_inject:
  "e \<notin> {'''', ''.'', ''..''} \<Longrightarrow> e' \<notin> {'''', ''.'', ''..''} \<Longrightarrow>
    filepath_Join b e = filepath_Join b e' \<longleftrightarrow> e = e'"
  by (cases b) (auto simp: filepath_Join_child)

lemma sanitize_eq_iff:
  "sanitizeTopicDir a = sanitizeTopicDir b \<longleftrightarrow> list_all2 (\<lambda>c d. sanitize_char c = sanitize_char d) a b"
  by (simp add: sanitizeTopicDir_def list_all2_conv_all_nth list_eq_iff_nth_eq)
    (metis length_map nth_map)

text \<open>Entries the loader may see: directory names that are not special.\<close>

abbreviation ordinary :: "string \<Rightarrow> bool" where
  "ordinary e \<equiv> e \<notin> {'''', ''.'', ''..''}"

section \<open>Creating topics\<close>

definition topics_inv :: "(string \<rightharpoonup> 'd Topic) \<Rightarrow> bool" where
  "topics_inv m \<longleftrightarrow> (\<forall>n t. m n = Some t \<longrightarrow> t_name t = n \<and> subs_inv t)"

definition registry_inv :: "'d Registry \<Rightarrow> bool" where
  "registry_inv r \<longleftrightarrow> topics_inv (reg_topics r)"

lemma topics_inv_upd: "topics_inv m \<Longrightarrow> t_name t = n \<Longrightarrow> subs_inv t \<Longrightarrow> topics_inv (m(n \<mapsto> t))"
  by (simp add: topics_inv_def)

lemma newFromDB_name: "newFromDB E name d w = (Inr t, d') \<Longrightarrow> t_name t = name \<and> subs_inv t"
  using subs_inv_newFromDB [of E name d w t d']
  by (auto simp: newFromDB_def loadSeq_def Let_def split: prod.splits option.splits sum.splits if_splits)

lemma topic_New_name: "topic_New E name o' = (Inr t, d') \<Longrightarrow> t_name t = name \<and> subs_inv t"
  by (auto simp: topic_New_def map_prod_def split: sum.splits prod.splits dest: newFromDB_name)

lemma registry_inv_GetOrCreate:
  "registry_inv r \<Longrightarrow> registry_inv (snd (GetOrCreate E opened name r))"
  "registry_inv r \<Longrightarrow> GetOrCreate E opened name r = (Inr t, r') \<Longrightarrow> t_name t = name \<and> subs_inv t \<and> reg_topics r' name = Some t"
  by (auto simp: GetOrCreate_def registry_inv_def topics_inv_def Let_def dest: topic_New_name
      split: option.splits prod.splits sum.splits)

lemma LoadFromDir_inv: "fst (LoadFromDir E dir o') = Inr t \<Longrightarrow> subs_inv t"
  by (auto simp: LoadFromDir_def split: sum.splits dest!: newFromDB_name [OF prod_eqI])
    (metis newFromDB_name prod.collapse)

lemma load_entry_inv:
  assumes "topics_inv topics"
  shows "topics_inv (load_entry E opened b e topics)"
proof -
  obtain name isDir where e: "e = (name, isDir)" by fastforce
  let ?dir = "filepath_Join b name"
  show ?thesis
  proof (cases "fst (LoadFromDir E (path_string ?dir) (opened ?dir))")
    case (Inl err)
    then show ?thesis using assms by (simp add: e load_entry_def Let_def)
  next
    case (Inr t)
    from LoadFromDir_inv [OF this] Inr assms show ?thesis
      by (simp add: e load_entry_def Let_def topics_inv_upd)
  qed
qed

lemma registry_inv_Load:
  assumes "registry_inv r"
  shows "registry_inv (snd (registry_Load E p rd opened r))"
proof -
  have "topics_inv m \<Longrightarrow> topics_inv (fold (load_entry E opened b) es m)" for b es m
    by (induction es arbitrary: m) (simp_all add: load_entry_inv)
  with assms show ?thesis
    by (auto simp: registry_Load_def registry_inv_def split: sum.splits)
qed

section \<open>Loading\<close>

lemma load_entry_topic:
  assumes "badger_laws E cont" "db_log (cont d) n ms" "cont d nameKey = Some (bytes_of n)" "n \<noteq> ''''"
    and "opened (filepath_Join b e) = Inr d" "topics n = None"
  shows "\<exists>t. load_entry E opened b (e, True) topics = topics(n \<mapsto> t) \<and> topic_log cont t ms \<and> t_name t = n
    \<and> t_db t = d \<and> offsets_Get (t_offsets t) = stored_offset (cont d)"
proof -
  have nm: "Get E d nameKey = Inr (bytes_of n)"
    by (simp add: kv.fetch_cont [OF assms(1)] assms(3))
  obtain t d' where t: "newFromDB E n d False = (Inr t, d')" "cont d' = cont d" "t_db t = d'" "t_name t = n"
    "t_seq t = saved_seq (cont d)" "offsets_Get (t_offsets t) = stored_offset (cont d)"
    using newFromDB_ok [OF assms(1), of False d n] by auto
  have "d' = d"
    using t(1) by (auto simp: newFromDB_def Let_def split: prod.splits option.splits)
  have "topic_log cont t ms"
    using assms(2) t(2-5) by (simp add: topic_log_def db_log_def)
  with t nm \<open>d' = d\<close> assms(4-6) show ?thesis
    by (auto simp: load_entry_def LoadFromDir_def Let_def)
qed

lemma load_entries_topics:
  assumes "badger_laws E cont"
  shows "distinct ns \<Longrightarrow> \<forall>n \<in> set ns. n \<noteq> '''' \<and> db_log (cont (dbs n)) n (L n)
      \<and> cont (dbs n) nameKey = Some (bytes_of n) \<and> opened (filepath_Join b (f n)) = Inr (dbs n) \<and> topics n = None \<Longrightarrow>
    dom (fold (load_entry E opened b) (map (\<lambda>n. (f n, True)) ns) topics) = dom topics \<union> set ns
    \<and> (\<forall>n. n \<notin> set ns \<longrightarrow> fold (load_entry E opened b) (map (\<lambda>n. (f n, True)) ns) topics n = topics n)
    \<and> (\<forall>n \<in> set ns. \<exists>t. fold (load_entry E opened b) (map (\<lambda>n. (f n, True)) ns) topics n = Some t
        \<and> topic_log cont t (L n) \<and> t_name t = n \<and> t_db t = dbs n
        \<and> offsets_Get (t_offsets t) = stored_offset (cont (dbs n)))"
proof (induction ns arbitrary: topics)
  case (Cons n ns)
  have "db_log (cont (dbs n)) n (L n)" "cont (dbs n) nameKey = Some (bytes_of n)" "n \<noteq> ''''"
    "opened (filepath_Join b (f n)) = Inr (dbs n)" "topics n = None"
    using Cons.prems by auto
  from load_entry_topic [where E = E and b = b and cont = cont and opened = opened and topics = topics and d = "dbs n" and e = "f n", OF assms this]
  obtain t where t: "load_entry E opened b (f n, True) topics = topics(n \<mapsto> t)"
    "topic_log cont t (L n)" "t_name t = n" "t_db t = dbs n" "offsets_Get (t_offsets t) = stored_offset (cont (dbs n))"
    by blast
  define m where "m = topics(n \<mapsto> t)"
  have n: "n \<notin> set ns" "distinct ns" using Cons.prems(1) by simp_all
  have "\<forall>k \<in> set ns. k \<noteq> '''' \<and> db_log (cont (dbs k)) k (L k) \<and> cont (dbs k) nameKey = Some (bytes_of k)
      \<and> opened (filepath_Join b (f k)) = Inr (dbs k) \<and> m k = None"
    using Cons.prems n by (auto simp: m_def)
  from Cons.IH [OF n(2) this] have IH: "dom (fold (load_entry E opened b) (map (\<lambda>n. (f n, True)) ns) m) = dom m \<union> set ns"
    "\<And>k. k \<notin> set ns \<Longrightarrow> fold (load_entry E opened b) (map (\<lambda>n. (f n, True)) ns) m k = m k"
    "\<And>k. k \<in> set ns \<Longrightarrow> \<exists>t. fold (load_entry E opened b) (map (\<lambda>n. (f n, True)) ns) m k = Some t
        \<and> topic_log cont t (L k) \<and> t_name t = k \<and> t_db t = dbs k
        \<and> offsets_Get (t_offsets t) = stored_offset (cont (dbs k))"
    by blast+
  have m: "dom m = insert n (dom topics)" "m n = Some t" "\<And>k. k \<noteq> n \<Longrightarrow> m k = topics k"
    by (auto simp: m_def)
  have step: "load_entry E opened b (f n, True) topics = m" by (simp add: t(1) m_def)
  show ?case
    using IH m n t(2-5) by (simp add: step)
qed simp

lemma sanitize_t: "sanitizeTopicDir n = ''t'' \<longleftrightarrow> n = ''t''"
proof -
  have "sanitize_char c = CHR ''t'' \<longleftrightarrow> c = CHR ''t''" for c
    by (simp add: sanitize_char_def)
  then show ?thesis by (auto simp: sanitizeTopicDir_def map_eq_Cons_conv)
qed

text \<open>The database of a topic \<^verbatim>\<open>t\<close> with one message.\<close>

definition stored_db :: mem_db where
  "stored_db = [(nameKey, bytes_of ''t''), (msgKey 1, m_RawWire (message_of ''t'' 1 9 sample_env)), (seqKey, put_be 8 (1 :: u64))]"

lemma stored_db_ok:
  "db_log (map_of stored_db) ''t'' [message_of ''t'' 1 9 sample_env]" "map_of stored_db nameKey = Some (bytes_of ''t'')"
proof -
  have "db_msgs (map_of stored_db) ''t'' [message_of ''t'' 1 9 sample_env]"
    unfolding stored_db_def by (rule db_msgs_single [OF wf_sample_env]) auto
  then show "db_log (map_of stored_db) ''t'' [message_of ''t'' 1 9 sample_env]"
    by (simp add: db_log_def saved_seq_def codec_simps stored_db_def not_sym [OF msgKey_simps(4)] not_sym [OF msgKey_simps(6)])
  show "map_of stored_db nameKey = Some (bytes_of ''t'')" by (simp add: stored_db_def)
qed

section \<open>Properties\<close>

text \<open>
  One topic per name. \<open>GetOrCreate\<close> returns the topic it has for the name and opens nothing
  in that case; otherwise it creates it. After a success the topic is found under its name and
  asking again returns it, whatever the file system says then. After a failure the registry is
  unchanged. Other names are never touched.
\<close>

theorem get_or_create_once:
  assumes "GetOrCreate E opened name r = (res, r')"
  shows "(case registry_Get r name of
       Some t \<Rightarrow> res = Inr t \<and> r' = r
     | None \<Rightarrow> (case res of
         Inr t \<Rightarrow> fst (topic_New E name (opened (TopicDataDir r name))) = Inr t
           \<and> registry_Get r' name = Some t \<and> GetOrCreate E opened2 name r' = (Inr t, r')
       | Inl e \<Rightarrow> r' = r))
    \<and> (\<forall>n. n \<noteq> name \<longrightarrow> registry_Get r' n = registry_Get r n)"
  using assms
  by (auto simp: GetOrCreate_def registry_Get_def TopicDataDir_def Let_def split: option.splits sum.splits prod.splits)

theorem get_or_create_once_witness:
  "\<exists>t r'. GetOrCreate mem_engine (\<lambda>_. Inr []) ''a/b'' (NewRegistry \<lparr>p_abs = True, p_comps = [''data'']\<rparr>) = (Inr t, r')
    \<and> registry_Get r' ''a/b'' = Some t"
proof -
  let ?r = "NewRegistry \<lparr>p_abs = True, p_comps = [''data'']\<rparr> :: mem_db Registry"
  obtain t d' where "newFromDB mem_engine ''a/b'' [] True = (Inr t, d')"
    using newFromDB_ok [OF badger_laws_mem, of True "[]" "''a/b''"] writes_commit_Set [OF writes_commit_mem msgKey_simps(3)]
    by blast
  then have "fst (GetOrCreate mem_engine (\<lambda>_. Inr []) ''a/b'' ?r) = Inr t"
    by (simp add: GetOrCreate_def NewRegistry_def topic_New_def Let_def)
  moreover have "registry_Get ?r ''a/b'' = None" by (simp add: registry_Get_def NewRegistry_def)
  ultimately show ?thesis
    using get_or_create_once [of mem_engine "\<lambda>_. Inr []" "''a/b''" ?r "Inr t" "snd (GetOrCreate mem_engine (\<lambda>_. Inr []) ''a/b'' ?r)"]
    by (auto simp: prod_eq_iff)
qed

text \<open>
  A restart recovers every topic. Let the base directory contain a directory for each of a
  list of topic names, and let each open to a database that holds that topic's name and log.
  Then loading a new registry finds exactly these topics, each with its log, its sequence
  number and its subscribers' offsets.
\<close>

theorem registry_load_recovers:
  assumes "badger_laws E cont" "distinct ns"
    and "\<forall>n \<in> set ns. n \<noteq> '''' \<and> db_log (cont (dbs n)) n (L n) \<and> cont (dbs n) nameKey = Some (bytes_of n)
      \<and> opened (TopicDataDir (NewRegistry base) n) = Inr (dbs n)"
    and "registry_Load E p (Inr (map (\<lambda>n. (sanitizeTopicDir n, True)) ns)) opened (NewRegistry base) = (err, r)"
  shows "err = None \<and> dom (reg_topics r) = set ns
    \<and> (\<forall>n \<in> set ns. \<exists>t. registry_Get r n = Some t \<and> topic_log cont t (L n) \<and> t_name t = n
        \<and> offsets_Get (t_offsets t) = stored_offset (cont (dbs n)))"
proof -
  have "\<forall>n \<in> set ns. n \<noteq> '''' \<and> db_log (cont (dbs n)) n (L n) \<and> cont (dbs n) nameKey = Some (bytes_of n)
      \<and> opened (filepath_Join base (sanitizeTopicDir n)) = Inr (dbs n) \<and> Map.empty n = None"
    using assms(3) by (simp add: TopicDataDir_def NewRegistry_def)
  note load = load_entries_topics [where topics = "Map.empty" and f = sanitizeTopicDir, OF assms(1,2) this]
  show ?thesis
    using load assms(4) by (auto simp: registry_Load_def NewRegistry_def registry_Get_def)
qed

theorem registry_load_recovers_witness:
  "let r = snd (registry_Load mem_engine (\<lambda>_. False) (Inr [(''t'', True)]) (\<lambda>_. Inr stored_db) (NewRegistry \<lparr>p_abs = True, p_comps = [''data'']\<rparr>)) in
   dom (reg_topics r) = {''t''} \<and> (\<exists>t. registry_Get r ''t'' = Some t \<and> topic_log map_of t [message_of ''t'' 1 9 sample_env])"
proof -
  let ?base = "\<lparr>p_abs = True, p_comps = [''data'']\<rparr>" and ?m = "message_of ''t'' 1 9 sample_env"
  have dir: "sanitizeTopicDir ''t'' = ''t''" by (simp add: sanitizeTopicDir_def sanitize_char_def)
  show ?thesis
    using registry_load_recovers [OF badger_laws_mem, of "[''t'']" "\<lambda>_. stored_db" "\<lambda>_. [?m]" "\<lambda>_. Inr stored_db" ?base "\<lambda>_. False"
        None "snd (registry_Load mem_engine (\<lambda>_. False) (Inr [(''t'', True)]) (\<lambda>_. Inr stored_db) (NewRegistry ?base))"]
      stored_db_ok unfolding Let_def dir list.map by (simp add: registry_Load_def) blast
qed

text \<open>
  Directories. A sanitised name never contains a separator. Unless it is empty or a dot
  name the topic's directory is an immediate subdirectory of the base directory, and two such
  names share a directory exactly if they agree in length and at every position up to the
  characters that are replaced by an underscore, so \<^verbatim>\<open>a/b\<close> and \<^verbatim>\<open>a_b\<close> do.
\<close>

theorem topic_directories:
  "CHR ''/'' \<notin> set (sanitizeTopicDir a)
   \<and> (ordinary (sanitizeTopicDir a) \<longrightarrow>
        TopicDataDir r a = (reg_baseDir r)\<lparr>p_comps := p_comps (reg_baseDir r) @ [sanitizeTopicDir a]\<rparr>)
   \<and> (ordinary (sanitizeTopicDir a) \<and> ordinary (sanitizeTopicDir b) \<longrightarrow>
        (TopicDataDir r a = TopicDataDir r b \<longleftrightarrow> list_all2 (\<lambda>c d. sanitize_char c = sanitize_char d) a b))"
  using sanitize_no_separator [of a] filepath_Join_child [of "sanitizeTopicDir a" "reg_baseDir r"]
    filepath_Join_inject [of "sanitizeTopicDir a" "sanitizeTopicDir b" "reg_baseDir r"]
  unfolding TopicDataDir_def sanitize_eq_iff by blast

theorem topic_directories_witness:
  "TopicDataDir (NewRegistry \<lparr>p_abs = True, p_comps = [''data'']\<rparr> :: mem_db Registry) ''a/b''
     = \<lparr>p_abs = True, p_comps = [''data'', ''a_b'']\<rparr>
   \<and> TopicDataDir (NewRegistry \<lparr>p_abs = True, p_comps = [''data'']\<rparr> :: mem_db Registry) ''a/b''
     = TopicDataDir (NewRegistry \<lparr>p_abs = True, p_comps = [''data'']\<rparr> :: mem_db Registry) ''a_b''"
proof -
  let ?r = "NewRegistry \<lparr>p_abs = True, p_comps = [''data'']\<rparr> :: mem_db Registry"
  have "sanitizeTopicDir ''a/b'' = ''a_b''" "sanitizeTopicDir ''a_b'' = ''a_b''"
    by (simp_all add: sanitizeTopicDir_def sanitize_char_def)
  then show ?thesis
    using topic_directories [of "''a/b''" ?r "''a_b''"]
    by (auto simp: NewRegistry_def sanitize_char_def)
qed

text \<open>
  A topic outside the base directory. The name \<^verbatim>\<open>..\<close> is not sanitised: the database of a
  topic with that name is opened in the parent of the base directory; the names \<^verbatim>\<open>.\<close> and the
  empty one open it in the base directory itself.
\<close>

theorem topic_directory_escapes:
  assumes "p_comps (reg_baseDir r) \<noteq> []" "last (p_comps (reg_baseDir r)) \<noteq> ''..''"
  shows "TopicDataDir r ''..'' = (reg_baseDir r)\<lparr>p_comps := butlast (p_comps (reg_baseDir r))\<rparr>
    \<and> TopicDataDir r ''.'' = reg_baseDir r \<and> TopicDataDir r '''' = reg_baseDir r"
  using assms by (simp add: TopicDataDir_def filepath_Join_def sanitizeTopicDir_def sanitize_char_def)

theorem topic_directory_escapes_witness:
  "TopicDataDir (NewRegistry \<lparr>p_abs = True, p_comps = [''srv'', ''topics'']\<rparr> :: mem_db Registry) ''..'' = \<lparr>p_abs = True, p_comps = [''srv'']\<rparr>"
  using topic_directory_escapes [of "NewRegistry \<lparr>p_abs = True, p_comps = [''srv'', ''topics'']\<rparr> :: mem_db Registry"]
  by (simp add: NewRegistry_def)

end
