(* ===== verification/Bounded_Memory.thy ===== *)
theory Bounded_Memory
  imports Prelude
begin

text \<open>
  The contract of the two bounded memories of the system, the broker's store of idempotency
  keys and the client's cache of delivered message ids: a key they hold, with its value,
  grows older by at most one with each key learnt and is not dropped before its age reaches
  the capacity or its value is no longer valid. The age of a key is the number of keys
  learnt after it.
\<close>

definition age_in :: "'k list \<Rightarrow> 'k \<Rightarrow> nat option" where
  "age_in ks k = (if k \<in> set ks then Some (length (takeWhile (\<lambda>x. x \<noteq> k) (rev ks))) else None)"

lemma age_in_Some_iff: "(\<exists>n. age_in ks k = Some n) \<longleftrightarrow> k \<in> set ks"
  by (simp add: age_in_def)

lemma age_in_snoc:
  "age_in (ks @ [x]) k = (if x = k then Some 0 else map_option Suc (age_in ks k))"
  by (auto simp: age_in_def)

lemma age_in_split:
  assumes "age_in ks k = Some n"
  obtains pre post where "ks = pre @ k # post" "k \<notin> set post" "length post = n"
proof -
  from assms have "k \<in> set ks" by (auto simp: age_in_def split: if_splits)
  then obtain pre post where ks: "ks = pre @ k # post" "k \<notin> set post"
    by (meson split_list_last)
  have "takeWhile (\<lambda>x. x \<noteq> k) (rev post @ k # rev pre) = rev post"
    using ks(2) by (subst takeWhile_append2) auto
  with assms ks that show ?thesis by (auto simp: age_in_def split: if_splits)
qed

lemma age_in_append: "k \<notin> set post \<Longrightarrow> age_in (pre @ k # post) k = Some (length post)"
proof -
  assume "k \<notin> set post"
  then have "takeWhile (\<lambda>x. x \<noteq> k) (rev post @ k # rev pre) = rev post"
    by (subst takeWhile_append2) auto
  then show ?thesis by (simp add: age_in_def)
qed

text \<open>Dropping the oldest keys down to the capacity keeps a key that is young enough.\<close>

lemma age_in_drop:
  assumes "age_in ks k = Some n" "n < cap"
  shows "age_in (drop (length ks - cap) ks) k = Some n"
proof -
  obtain pre post where ks: "ks = pre @ k # post" "k \<notin> set post" "length post = n"
    using assms(1) by (rule age_in_split)
  then have "drop (length ks - cap) ks = drop (length ks - cap) pre @ k # post"
    using assms(2) by simp
  then show ?thesis using ks by (simp add: age_in_append)
qed

text \<open>Dropping other keys makes a key at most younger.\<close>

lemma age_in_filter:
  assumes "age_in ks k = Some n" "P k"
  obtains m where "m \<le> n" "age_in (filter P ks) k = Some m"
proof -
  obtain pre post where ks: "ks = pre @ k # post" "k \<notin> set post" "length post = n"
    using assms(1) by (rule age_in_split)
  then have "age_in (filter P ks) k = Some (length (filter P post))"
    using assms(2) by (simp add: age_in_append)
  with ks that show ?thesis by (metis length_filter_le)
qed

locale bounded_memory =
  fixes holds :: "'s \<Rightarrow> 'k \<Rightarrow> 'v \<Rightarrow> nat \<Rightarrow> bool"
    and valid :: "'x \<Rightarrow> 'v \<Rightarrow> bool"
    and learn :: "'x \<Rightarrow> 's \<Rightarrow> 's"
    and cap :: "'s \<Rightarrow> nat"
    and inv :: "'s \<Rightarrow> bool"
  assumes inv_learn: "inv s \<Longrightarrow> inv (learn x s)"
    and cap_learn: "cap (learn x s) = cap s"
    and ages: "inv s \<Longrightarrow> holds s k v n \<Longrightarrow> valid x v \<Longrightarrow> Suc n < cap s
      \<Longrightarrow> \<exists>m \<le> Suc n. holds (learn x s) k v m"
begin

lemma inv_fold: "inv s \<Longrightarrow> inv (fold learn xs s)"
  by (induction xs arbitrary: s) (auto simp: inv_learn)

text \<open>A key survives as long as fewer keys are learnt than the capacity leaves room for.\<close>

lemma remembered:
  "inv s \<Longrightarrow> holds s k v n \<Longrightarrow> \<forall>x \<in> set xs. valid x v \<Longrightarrow> n + length xs < cap s
    \<Longrightarrow> \<exists>m \<le> n + length xs. holds (fold learn xs s) k v m"
proof (induction xs arbitrary: s n)
  case Nil
  then show ?case by auto
next
  case (Cons x xs)
  then obtain m where m: "m \<le> Suc n" "holds (learn x s) k v m"
    using ages [of s k v n x] by auto
  then obtain j where "j \<le> m + length xs" "holds (fold learn xs (learn x s)) k v j"
    using Cons.prems Cons.IH [of "learn x s" m] by (auto simp: inv_learn cap_learn)
  with m(1) show ?case by (auto intro!: exI [of _ j])
qed

end

end
