(* ===== verification/Dedup.thy ===== *)
theory Dedup
  imports Bounded_Memory Codec Mem_Engine
begin

text \<open>
  Producer-side deduplication (\<^verbatim>\<open>core/dedup/dedup.go\<close>): recently seen idempotency keys with the
  message they produced, in memory in order of arrival and, if there is a database, written
  through to it. \<open>now\<close> and \<open>now2\<close> are the values of the clock at the first and the second
  call of \<^verbatim>\<open>time.Now\<close> in an operation; the mutex makes every operation atomic.
\<close>

section \<open>Model\<close>

definition dedupKeyPrefix :: string where
  "dedupKeyPrefix = ''dedup:''"

record dedupEntry =
  de_serverMsgID :: uuid
  de_seq :: u64
  de_expiresAt :: gotime

record 'd dedupStore =
  ds_lru :: "uuid \<rightharpoonup> dedupEntry"
  ds_order :: "uuid list"
  ds_capacity :: nat
  ds_ttl :: int
  ds_db :: "'d option"

definition dedup_New :: "'d option \<Rightarrow> int \<Rightarrow> int \<Rightarrow> 'd dedupStore" where
  "dedup_New db capacity ttl =
     \<lparr>ds_lru = Map.empty, ds_order = [],
      ds_capacity = nat (if capacity < 1024 then 1024 else capacity),
      ds_ttl = (if ttl \<le> 0 then 10 * 60 * 1000000000 else ttl),
      ds_db = db\<rparr>"

definition dedupDBKey :: "uuid \<Rightarrow> bytes" where
  "dedupDBKey i = bytes_of dedupKeyPrefix @ put_be 16 i"

text \<open>\<^verbatim>\<open>if s.db != nil { _ = s.db.Delete(dedupDBKey(id)) }\<close>\<close>

definition dedup_db_delete :: "'d engine \<Rightarrow> 'd option \<Rightarrow> uuid \<Rightarrow> 'd option" where
  "dedup_db_delete E db i = map_option (\<lambda>d. snd (Delete E d (dedupDBKey i))) db"

text \<open>The value \<open>persistLocked\<close> writes: message id, sequence number and expiry, 32 bytes.\<close>

definition entry_bytes :: "dedupEntry \<Rightarrow> bytes" where
  "entry_bytes e =
     put_be 16 (de_serverMsgID e) @ put_be 8 (de_seq e) @ put_be 8 (unix_nano (de_expiresAt e))"

definition persistLocked :: "'d engine \<Rightarrow> uuid \<Rightarrow> dedupEntry \<Rightarrow> 'd dedupStore \<Rightarrow> 'd dedupStore" where
  "persistLocked E i e s =
     (case ds_db s of
        None \<Rightarrow> s
      | Some d \<Rightarrow> s\<lparr>ds_db := Some (snd (Set E d (dedupDBKey i) (entry_bytes e)))\<rparr>)"

text \<open>The 32 bytes read back, as \<open>loadFromDB\<close> takes them apart.\<close>

definition entry_of_bytes :: "bytes \<Rightarrow> dedupEntry res" where
  "entry_of_bytes raw =
     (if length raw < 32 then Inl (Err ''short'')
      else Inr \<lparr>de_serverMsgID = get_be (take 16 raw),
               de_seq = get_be (take 8 (drop 16 raw)),
               de_expiresAt = time_unix (get_be (take 8 (drop 24 raw)))\<rparr>)"

definition loadFromDB :: "'d engine \<Rightarrow> gotime \<Rightarrow> 'd \<Rightarrow> uuid \<Rightarrow> dedupEntry option \<times> 'd" where
  "loadFromDB E now d i =
     (case Get E d (dedupDBKey i) of
        Inl _ \<Rightarrow> (None, d)
      | Inr raw \<Rightarrow>
          (case entry_of_bytes raw of
             Inl _ \<Rightarrow> (None, d)
           | Inr e \<Rightarrow> if de_expiresAt e < now then (None, snd (Delete E d (dedupDBKey i)))
                      else (Some e, d)))"

text \<open>The loop of \<open>evictExpiredLocked\<close>: the map, the database and the ids kept so far.\<close>

fun evict_loop :: "'d engine \<Rightarrow> gotime \<Rightarrow> uuid list
    \<Rightarrow> (uuid \<rightharpoonup> dedupEntry) \<times> 'd option \<times> uuid list
    \<Rightarrow> (uuid \<rightharpoonup> dedupEntry) \<times> 'd option \<times> uuid list" where
  "evict_loop E now [] acc = acc"
| "evict_loop E now (i # ids) (lru, db, kept) =
     (if (case lru i of None \<Rightarrow> True | Some e \<Rightarrow> de_expiresAt e < now)
      then evict_loop E now ids (lru(i := None), dedup_db_delete E db i, kept)
      else evict_loop E now ids (lru, db, kept @ [i]))"

definition evictExpiredLocked :: "'d engine \<Rightarrow> gotime \<Rightarrow> 'd dedupStore \<Rightarrow> 'd dedupStore" where
  "evictExpiredLocked E now s =
     (case evict_loop E now (ds_order s) (ds_lru s, ds_db s, []) of
        (lru, db, kept) \<Rightarrow> s\<lparr>ds_lru := lru, ds_db := db, ds_order := kept\<rparr>)"

text \<open>The look-up shared by \<open>Check\<close> and \<open>SeenOrRemember\<close>: in the database, if there is one.\<close>

definition Check :: "'d engine \<Rightarrow> gotime \<Rightarrow> gotime \<Rightarrow> uuid \<Rightarrow> 'd dedupStore
    \<Rightarrow> dedupEntry option \<times> 'd dedupStore" where
  "Check E now now2 i s =
     (let s = evictExpiredLocked E now s in
      case ds_lru s i of
        Some e \<Rightarrow> (Some e, s)
      | None \<Rightarrow>
          (case ds_db s of
             None \<Rightarrow> (None, s)
           | Some d \<Rightarrow>
               (case loadFromDB E now2 d i of
                  (Some e, d') \<Rightarrow> (Some e, s\<lparr>ds_lru := (ds_lru s)(i \<mapsto> e), ds_db := Some d'\<rparr>)
                | (None, d') \<Rightarrow> (None, s\<lparr>ds_db := Some d'\<rparr>))))"

text \<open>The loop that drops the oldest ids while there are more than the capacity.\<close>

fun trim_loop :: "'d engine \<Rightarrow> nat \<Rightarrow> uuid list \<Rightarrow> (uuid \<rightharpoonup> dedupEntry) \<Rightarrow> 'd option
    \<Rightarrow> uuid list \<times> (uuid \<rightharpoonup> dedupEntry) \<times> 'd option" where
  "trim_loop E cap [] lru db = ([], lru, db)"
| "trim_loop E cap (oldest # rest) lru db =
     (if cap < length (oldest # rest)
      then trim_loop E cap rest (lru(oldest := None)) (dedup_db_delete E db oldest)
      else (oldest # rest, lru, db))"

definition dedup_trim :: "'d engine \<Rightarrow> 'd dedupStore \<Rightarrow> 'd dedupStore" where
  "dedup_trim E s =
     (case trim_loop E (ds_capacity s) (ds_order s) (ds_lru s) (ds_db s) of
        (order, lru, db) \<Rightarrow> s\<lparr>ds_order := order, ds_lru := lru, ds_db := db\<rparr>)"

definition Remember :: "'d engine \<Rightarrow> gotime \<Rightarrow> uuid \<Rightarrow> uuid \<Rightarrow> u64 \<Rightarrow> 'd dedupStore \<Rightarrow> 'd dedupStore" where
  "Remember E now i serverMsgID seq s =
     (let e = \<lparr>de_serverMsgID = serverMsgID, de_seq = seq, de_expiresAt = now + ds_ttl s\<rparr>;
          s = s\<lparr>ds_lru := (ds_lru s)(i \<mapsto> e), ds_order := ds_order s @ [i]\<rparr> in
      dedup_trim E (persistLocked E i e s))"

fun touch_order :: "uuid \<Rightarrow> uuid list \<Rightarrow> uuid list \<Rightarrow> uuid list" where
  "touch_order i seen [] = seen"
| "touch_order i seen (k # ks) = (if k = i then seen @ ks @ [i] else touch_order i (seen @ [k]) ks)"

definition touchLocked :: "uuid \<Rightarrow> 'd dedupStore \<Rightarrow> 'd dedupStore" where
  "touchLocked i s = s\<lparr>ds_order := touch_order i [] (ds_order s)\<rparr>"

definition SeenOrRemember :: "'d engine \<Rightarrow> gotime \<Rightarrow> gotime \<Rightarrow> uuid \<Rightarrow> uuid \<Rightarrow> u64 \<Rightarrow> 'd dedupStore
    \<Rightarrow> (dedupEntry \<times> bool) \<times> 'd dedupStore" where
  "SeenOrRemember E now now2 i serverMsgID seq s =
     (let s = evictExpiredLocked E now s;
          e = \<lparr>de_serverMsgID = serverMsgID, de_seq = seq, de_expiresAt = now + ds_ttl s\<rparr>;
          record_new = (\<lambda>s. ((e, False), dedup_trim E (persistLocked E i e
             (s\<lparr>ds_lru := (ds_lru s)(i \<mapsto> e), ds_order := ds_order s @ [i]\<rparr>)))) in
      case ds_lru s i of
        Some e0 \<Rightarrow> ((e0, True), s)
      | None \<Rightarrow>
          (case ds_db s of
             None \<Rightarrow> record_new s
           | Some d \<Rightarrow>
               (case loadFromDB E now2 d i of
                  (Some e0, d') \<Rightarrow>
                    ((e0, True), touchLocked i (s\<lparr>ds_lru := (ds_lru s)(i \<mapsto> e0), ds_db := Some d'\<rparr>))
                | (None, d') \<Rightarrow> record_new (s\<lparr>ds_db := Some d'\<rparr>))))"

definition dedup_Size :: "'d dedupStore \<Rightarrow> nat" where
  "dedup_Size s = card (dom (ds_lru s))"

text \<open>
  How the broker uses the store for one publish request that goes through: \<open>Check\<close>, and
  \<open>Remember\<close> if the key was new. The result says what was found; \<open>at\<close> is the time of the
  request, at which all its clock readings are taken.
\<close>

record request =
  rq_at :: gotime
  rq_id :: uuid
  rq_msg :: uuid
  rq_seq :: u64

definition admit :: "'d engine \<Rightarrow> request \<Rightarrow> 'd dedupStore \<Rightarrow> dedupEntry option \<times> 'd dedupStore" where
  "admit E r s =
     (case Check E (rq_at r) (rq_at r) (rq_id r) s of
        (Some e, s') \<Rightarrow> (Some e, s')
      | (None, s') \<Rightarrow> (None, Remember E (rq_at r) (rq_id r) (rq_msg r) (rq_seq r) s'))"

section \<open>The stored entry\<close>

definition wf_entry :: "dedupEntry \<Rightarrow> bool" where
  "wf_entry e \<longleftrightarrow> in_int64 (de_expiresAt e)"

interpretation entry: codec entry_bytes entry_of_bytes wf_entry
  by unfold_locales (simp add: entry_bytes_def entry_of_bytes_def wf_entry_def codec_simps)

lemma dedupDBKey_inject [simp]: "dedupDBKey i = dedupDBKey j \<longleftrightarrow> i = j"
proof -
  have "get_be (put_be 16 i) = i" "get_be (put_be 16 j) = j"
    by (simp_all add: get_be_put_be)
  then show ?thesis by (metis dedupDBKey_def same_append_eq)
qed

lemma dedupDBKey_not_Nil [simp]: "dedupDBKey i \<noteq> []"
  by (simp add: dedupDBKey_def dedupKeyPrefix_def)

section \<open>Eviction and trimming\<close>

definition expired :: "gotime \<Rightarrow> (uuid \<rightharpoonup> dedupEntry) \<Rightarrow> uuid \<Rightarrow> bool" where
  "expired now lru i \<longleftrightarrow> (case lru i of None \<Rightarrow> True | Some e \<Rightarrow> de_expiresAt e < now)"

lemma expired_upd: "x \<noteq> a \<Longrightarrow> expired now (lru(a := v)) x = expired now lru x"
  by (simp add: expired_def)

lemma evict_loop_Cons:
  "evict_loop E now (i # ids) (lru, db, kept) =
    (if expired now lru i then evict_loop E now ids (lru(i := None), dedup_db_delete E db i, kept)
     else evict_loop E now ids (lru, db, kept @ [i]))"
  by (simp add: expired_def)

lemma evict_loop_kept:
  "distinct ids \<Longrightarrow> snd (snd (evict_loop E now ids (lru, db, kept)))
    = kept @ filter (\<lambda>i. \<not> expired now lru i) ids"
proof (induction ids arbitrary: lru db kept)
  case Nil
  then show ?case by simp
next
  case (Cons i ids)
  have "filter (\<lambda>x. \<not> expired now (lru(i := None)) x) ids = filter (\<lambda>x. \<not> expired now lru x) ids"
    using Cons.prems by (intro filter_cong refl) (metis distinct.simps(2) expired_upd)
  with Cons show ?case by (simp add: evict_loop_Cons del: evict_loop.simps)
qed

lemma evict_loop_lru:
  "distinct ids \<Longrightarrow> fst (evict_loop E now ids (lru, db, kept)) k
    = (if k \<in> set ids \<and> expired now lru k then None else lru k)"
  by (induction ids arbitrary: lru db kept)
    (auto simp: evict_loop_Cons expired_upd simp del: evict_loop.simps(2))

lemma evict_fields [simp]:
  "ds_capacity (evictExpiredLocked E now s) = ds_capacity s"
  "ds_ttl (evictExpiredLocked E now s) = ds_ttl s"
  by (simp_all add: evictExpiredLocked_def split: prod.splits)

lemma evict_order:
  "distinct (ds_order s) \<Longrightarrow>
    ds_order (evictExpiredLocked E now s) = filter (\<lambda>i. \<not> expired now (ds_lru s) i) (ds_order s)"
  using evict_loop_kept [of "ds_order s" E now "ds_lru s" "ds_db s" "[]"]
  by (simp add: evictExpiredLocked_def split_beta)

lemma evict_lru:
  "distinct (ds_order s) \<Longrightarrow> ds_lru (evictExpiredLocked E now s) k
    = (if k \<in> set (ds_order s) \<and> expired now (ds_lru s) k then None else ds_lru s k)"
  using evict_loop_lru [of "ds_order s" E now "ds_lru s" "ds_db s" "[]" k]
  by (simp add: evictExpiredLocked_def split_beta)

lemma trim_loop_order: "fst (trim_loop E cap ks lru db) = drop (length ks - cap) ks"
  by (induction ks arbitrary: lru db) (auto simp: Suc_diff_le)

lemma trim_loop_lru:
  "fst (snd (trim_loop E cap ks lru db)) k = (if k \<in> set (take (length ks - cap) ks) then None else lru k)"
  by (induction ks arbitrary: lru db) (auto simp: Suc_diff_le)

lemma trim_fields [simp]:
  "ds_capacity (dedup_trim E s) = ds_capacity s" "ds_ttl (dedup_trim E s) = ds_ttl s"
  by (simp_all add: dedup_trim_def split: prod.splits)

lemma trim_order: "ds_order (dedup_trim E s) = drop (length (ds_order s) - ds_capacity s) (ds_order s)"
  using trim_loop_order [of E "ds_capacity s" "ds_order s" "ds_lru s" "ds_db s"]
  by (simp add: dedup_trim_def split_beta)

lemma trim_lru:
  "ds_lru (dedup_trim E s) k
    = (if k \<in> set (take (length (ds_order s) - ds_capacity s) (ds_order s)) then None else ds_lru s k)"
  using trim_loop_lru [of E "ds_capacity s" "ds_order s" "ds_lru s" "ds_db s" k]
  by (simp add: dedup_trim_def split_beta)

lemma persist_fields [simp]:
  "ds_lru (persistLocked E i e s) = ds_lru s" "ds_order (persistLocked E i e s) = ds_order s"
  "ds_capacity (persistLocked E i e s) = ds_capacity s" "ds_ttl (persistLocked E i e s) = ds_ttl s"
  by (simp_all add: persistLocked_def split: option.splits)

lemma Remember_fields [simp]:
  "ds_capacity (Remember E now i m q s) = ds_capacity s" "ds_ttl (Remember E now i m q s) = ds_ttl s"
  by (simp_all add: Remember_def Let_def)

lemma Check_fields [simp]:
  "ds_capacity (snd (Check E now now2 i s)) = ds_capacity s"
  "ds_ttl (snd (Check E now now2 i s)) = ds_ttl s"
  "ds_order (snd (Check E now now2 i s)) = ds_order (evictExpiredLocked E now s)"
  by (simp_all add: Check_def Let_def split: option.splits prod.splits)

section \<open>The invariant\<close>

text \<open>
  The order lists each id once and only ids that are in the map, and it is no longer than the
  capacity, which is at least 1024.
\<close>

definition dedup_inv :: "'d dedupStore \<Rightarrow> bool" where
  "dedup_inv s \<longleftrightarrow> distinct (ds_order s) \<and> set (ds_order s) \<subseteq> dom (ds_lru s)
     \<and> length (ds_order s) \<le> ds_capacity s \<and> 1024 \<le> ds_capacity s"

lemma dedup_inv_New: "dedup_inv (dedup_New db c ttl)"
  by (simp add: dedup_inv_def dedup_New_def) linarith

lemma dedup_inv_evict:
  assumes "dedup_inv s"
  shows "dedup_inv (evictExpiredLocked E now s)"
proof -
  have "length (filter P (ds_order s)) \<le> ds_capacity s" for P
    using assms by (auto simp: dedup_inv_def intro: le_trans [OF length_filter_le])
  with assms show ?thesis
    by (auto simp: dedup_inv_def evict_order evict_lru domIff)
qed

lemma dedup_inv_Check: "dedup_inv s \<Longrightarrow> dedup_inv (snd (Check E now now2 i s))"
  using dedup_inv_evict [of s E now]
  by (auto simp: dedup_inv_def Check_def Let_def split: option.splits prod.splits)

lemma dedup_inv_Remember:
  assumes "dedup_inv s" "i \<notin> set (ds_order s)"
  shows "dedup_inv (Remember E now i m q s)"
proof -
  let ?ks = "ds_order s @ [i]" and ?n = "length (ds_order s @ [i]) - ds_capacity s"
  have "distinct ?ks" using assms by (simp add: dedup_inv_def)
  then have "set (drop ?n ?ks) \<inter> set (take ?n ?ks) = {}"
    by (metis append_take_drop_id distinct_append inf_commute)
  moreover have "set (drop ?n ?ks) \<subseteq> insert i (dom (ds_lru s))"
    using assms(1) set_drop_subset [of ?n ?ks] by (auto simp: dedup_inv_def)
  ultimately show ?thesis
    using assms \<open>distinct ?ks\<close>
    by (auto simp: dedup_inv_def Remember_def Let_def trim_order trim_lru domIff dest: in_set_dropD)
qed

text \<open>A key that \<open>Check\<close> did not find is not in the order either.\<close>

lemma Check_None:
  assumes "dedup_inv s" "Check E now now2 i s = (None, s')"
  shows "ds_lru s' i = None" "i \<notin> set (ds_order s')"
proof -
  show n: "ds_lru s' i = None"
    using assms(2) by (auto simp: Check_def Let_def split: option.splits prod.splits)
  have "dedup_inv s'"
    using dedup_inv_Check [OF assms(1), of E now now2 i] assms(2) by simp
  with n show "i \<notin> set (ds_order s')"
    by (auto simp: dedup_inv_def)
qed

lemma dedup_inv_admit: "dedup_inv s \<Longrightarrow> dedup_inv (snd (admit E r s))"
  using dedup_inv_Check [of s E "rq_at r" "rq_at r" "rq_id r"]
  by (auto simp: admit_def dest: Check_None intro!: dedup_inv_Remember split: prod.splits option.splits)

lemma admit_fields [simp]: "ds_capacity (snd (admit E r s)) = ds_capacity s" "ds_ttl (snd (admit E r s)) = ds_ttl s"
  by (simp_all add: admit_def split: prod.splits option.splits)
    (metis Check_fields Remember_fields snd_conv)+

section \<open>The window\<close>

definition dedup_holds :: "'d dedupStore \<Rightarrow> uuid \<Rightarrow> dedupEntry \<Rightarrow> nat \<Rightarrow> bool" where
  "dedup_holds s i e n \<longleftrightarrow> ds_lru s i = Some e \<and> age_in (ds_order s) i = Some n"

lemma Check_found:
  assumes "dedup_inv s" "dedup_holds s i e n" "now \<le> de_expiresAt e"
  shows "fst (Check E now now2 i s) = Some e"
  using assms by (simp add: Check_def Let_def evict_lru dedup_inv_def dedup_holds_def expired_def)

lemma Check_holds:
  assumes "dedup_inv s" "dedup_holds s i e n" "now \<le> de_expiresAt e"
  shows "\<exists>m \<le> n. dedup_holds (snd (Check E now now2 j s)) i e m"
proof -
  let ?s = "evictExpiredLocked E now s"
  have dist: "distinct (ds_order s)" and lru: "ds_lru s i = Some e" and age: "age_in (ds_order s) i = Some n"
    using assms(1,2) by (auto simp: dedup_inv_def dedup_holds_def)
  have "\<not> expired now (ds_lru s) i"
    using lru assms(3) by (simp add: expired_def)
  then obtain m where m: "m \<le> n" "age_in (ds_order ?s) i = Some m"
    using age_in_filter [OF age, of "\<lambda>i. \<not> expired now (ds_lru s) i"] evict_order [OF dist] by metis
  have "ds_lru ?s i = Some e"
    using lru assms(3) by (simp add: evict_lru [OF dist] expired_def)
  then have "ds_lru (snd (Check E now now2 j s)) i = Some e"
    by (auto simp: Check_def Let_def split: option.splits prod.splits)
  with m show ?thesis
    by (auto simp: dedup_holds_def)
qed

lemma Remember_holds:
  assumes "dedup_inv s" "dedup_holds s i e n" "j \<noteq> i" "j \<notin> set (ds_order s)" "Suc n < ds_capacity s"
  shows "dedup_holds (Remember E now j m q s) i e (Suc n)"
proof -
  let ?ks = "ds_order s @ [j]"
  have age: "age_in ?ks i = Some (Suc n)"
    using assms(2,3) by (simp add: age_in_snoc dedup_holds_def)
  from age_in_drop [OF this assms(5)]
  have kept: "age_in (drop (length ?ks - ds_capacity s) ?ks) i = Some (Suc n)" .
  then have "i \<in> set (drop (length ?ks - ds_capacity s) ?ks)"
    using age_in_Some_iff by metis
  moreover have "distinct ?ks"
    using assms(1,4) by (simp add: dedup_inv_def)
  ultimately have "i \<notin> set (take (length ?ks - ds_capacity s) ?ks)"
    by (metis append_take_drop_id disjoint_iff distinct_append)
  with kept assms(2,3) show ?thesis
    by (simp add: dedup_holds_def Remember_def Let_def trim_order trim_lru)
qed

lemma Remember_new:
  assumes "dedup_inv s" "i \<notin> set (ds_order s)"
  shows "dedup_holds (Remember E now i m q s) i
    \<lparr>de_serverMsgID = m, de_seq = q, de_expiresAt = now + ds_ttl s\<rparr> 0"
proof -
  let ?ks = "ds_order s @ [i]" and ?n = "length (ds_order s @ [i]) - ds_capacity s"
  have cap: "length (ds_order s) \<le> ds_capacity s" "0 < ds_capacity s"
    using assms by (auto simp: dedup_inv_def)
  then have "?n \<le> length (ds_order s)" by simp
  then have "drop ?n ?ks = drop ?n (ds_order s) @ [i]" "take ?n ?ks = take ?n (ds_order s)"
    by auto
  moreover have "i \<notin> set (take ?n (ds_order s))"
    using assms(2) by (meson in_set_takeD)
  ultimately show ?thesis
    by (simp add: dedup_holds_def Remember_def Let_def trim_order trim_lru age_in_snoc)
qed

lemma admit_found:
  assumes "dedup_inv s" "dedup_holds s (rq_id r) e n" "rq_at r \<le> de_expiresAt e"
  shows "fst (admit E r s) = Some e"
  using Check_found [OF assms, of E "rq_at r"] by (auto simp: admit_def split: prod.splits option.splits)

lemma admit_new:
  assumes "dedup_inv s" "admit E r s = (None, s')"
  shows "dedup_holds s' (rq_id r)
    \<lparr>de_serverMsgID = rq_msg r, de_seq = rq_seq r, de_expiresAt = rq_at r + ds_ttl s\<rparr> 0"
proof -
  let ?c = "Check E (rq_at r) (rq_at r) (rq_id r) s"
  from assms(2) have c: "?c = (None, snd ?c)"
    and s': "s' = Remember E (rq_at r) (rq_id r) (rq_msg r) (rq_seq r) (snd ?c)"
    by (auto simp: admit_def split: prod.splits option.splits)
  show ?thesis
    using Remember_new [OF dedup_inv_Check [OF assms(1)] Check_None(2) [OF assms(1) c]]
    unfolding s' by simp
qed

lemma admit_ages:
  assumes "dedup_inv s" "dedup_holds s i e n" "rq_at r \<le> de_expiresAt e" "Suc n < ds_capacity s"
  shows "\<exists>m \<le> Suc n. dedup_holds (snd (admit E r s)) i e m"
proof -
  let ?c = "Check E (rq_at r) (rq_at r) (rq_id r) s"
  obtain m where m: "m \<le> n" "dedup_holds (snd ?c) i e m"
    using Check_holds [OF assms(1-3)] by blast
  have inv: "dedup_inv (snd ?c)" by (rule dedup_inv_Check [OF assms(1)])
  show ?thesis
  proof (cases "fst ?c")
    case None
    then have c: "?c = (None, snd ?c)" by (metis prod.collapse)
    note gone = Check_None [OF assms(1) c]
    have "rq_id r \<noteq> i"
      using gone(1) m(2) by (auto simp: dedup_holds_def)
    then have "dedup_holds (Remember E (rq_at r) (rq_id r) (rq_msg r) (rq_seq r) (snd ?c)) i e (Suc m)"
      using Remember_holds [OF inv m(2) _ gone(2)] m(1) assms(4) by simp
    moreover have "admit E r s = (None, Remember E (rq_at r) (rq_id r) (rq_msg r) (rq_seq r) (snd ?c))"
      unfolding admit_def by (subst c) simp
    ultimately have "dedup_holds (snd (admit E r s)) i e (Suc m)" by simp
    with m(1) show ?thesis by auto
  next
    case (Some e')
    then have "snd (admit E r s) = snd ?c"
      by (auto simp: admit_def split: prod.splits)
    with m show ?thesis by (auto intro: le_SucI)
  qed
qed

interpretation dedup_mem: bounded_memory dedup_holds "\<lambda>r e. rq_at r \<le> de_expiresAt e"
  "\<lambda>r s. snd (admit E r s)" ds_capacity dedup_inv for E
  by unfold_locales (auto simp: dedup_inv_admit dest: admit_ages)

section \<open>Durability\<close>

lemma cont_Delete_other:
  assumes "badger_laws E cont" "k \<noteq> k'"
  shows "cont (snd (Delete E d k)) k' = cont d k'"
  using kv.del_cont [OF assms(1), of d k "fst (Delete E d k)" "snd (Delete E d k)"] assms(2)
  by (auto split: if_splits)

lemma trim_loop_db:
  assumes "badger_laws E cont" "i \<notin> set (take (length ks - cap) ks)"
  shows "\<exists>d'. snd (snd (trim_loop E cap ks lru (Some d))) = Some d'
    \<and> cont d' (dedupDBKey i) = cont d (dedupDBKey i)"
  using assms(2)
proof (induction ks arbitrary: lru d)
  case Nil
  then show ?case by simp
next
  case (Cons k ks)
  show ?case
  proof (cases "cap < length (k # ks)")
    case True
    then have i: "i \<noteq> k" "i \<notin> set (take (length ks - cap) ks)"
      using Cons.prems by (auto simp: Suc_diff_le)
    then have "cont (snd (Delete E d (dedupDBKey k))) (dedupDBKey i) = cont d (dedupDBKey i)"
      by (intro cont_Delete_other [OF assms(1)]) simp
    with Cons.IH [OF i(2), of "lru(k := None)" "snd (Delete E d (dedupDBKey k))"] True show ?thesis
      by (simp add: dedup_db_delete_def fun_upd_def)
  qed simp
qed

lemma Remember_persists:
  assumes "badger_laws E cont" "writes_commit E" "dedup_inv s" "i \<notin> set (ds_order s)" "ds_db s = Some d"
  shows "\<exists>d'. ds_db (Remember E now i m q s) = Some d' \<and> cont d' (dedupDBKey i)
    = Some (entry_bytes \<lparr>de_serverMsgID = m, de_seq = q, de_expiresAt = now + ds_ttl s\<rparr>)"
proof -
  let ?e = "\<lparr>de_serverMsgID = m, de_seq = q, de_expiresAt = now + ds_ttl s\<rparr>"
  let ?ks = "ds_order s @ [i]" and ?d = "snd (Set E d (dedupDBKey i) (entry_bytes ?e))"
  have "length (ds_order s) \<le> ds_capacity s" "0 < ds_capacity s"
    using assms(3) by (auto simp: dedup_inv_def)
  then have "i \<notin> set (take (length ?ks - ds_capacity s) ?ks)"
    using assms(4) by (auto dest: in_set_takeD)
  from trim_loop_db [OF assms(1) this, of "(ds_lru s)(i \<mapsto> ?e)" ?d]
  show ?thesis
    using cont_Set_commit [OF assms(1,2), of "dedupDBKey i" d] assms(5)
    by (simp add: Remember_def Let_def persistLocked_def dedup_trim_def split_beta)
qed

lemma loadFromDB_entry:
  assumes "badger_laws E cont" "cont d (dedupDBKey i) = Some (entry_bytes e)" "wf_entry e" "now \<le> de_expiresAt e"
  shows "loadFromDB E now d i = (Some e, d)"
  using assms by (simp add: loadFromDB_def kv.fetch_cont [OF assms(1)] entry.dec_enc)

section \<open>Runs of the store\<close>

definition dedup_run :: "'d engine \<Rightarrow> request list \<Rightarrow> 'd dedupStore \<Rightarrow> 'd dedupStore" where
  "dedup_run E rs s = fold (\<lambda>r s. snd (admit E r s)) rs s"

definition entry_for :: "request \<Rightarrow> int \<Rightarrow> dedupEntry" where
  "entry_for r ttl =
     \<lparr>de_serverMsgID = rq_msg r, de_seq = rq_seq r, de_expiresAt = rq_at r + ttl\<rparr>"

lemma dedup_run_simps [simp]:
  "dedup_run E [] s = s" "dedup_run E (r # rs) s = dedup_run E rs (snd (admit E r s))"
  by (simp_all add: dedup_run_def)

lemma dedup_inv_run: "dedup_inv s \<Longrightarrow> dedup_inv (dedup_run E rs s)"
  unfolding dedup_run_def by (rule dedup_mem.inv_fold)

lemma dedup_run_fields [simp]:
  "ds_capacity (dedup_run E rs s) = ds_capacity s" "ds_ttl (dedup_run E rs s) = ds_ttl s"
  by (induction rs arbitrary: s) simp_all

text \<open>Without a database the map holds no key that is not in the order.\<close>

definition no_strays :: "'d dedupStore \<Rightarrow> bool" where
  "no_strays s \<longleftrightarrow> ds_db s = None \<and> (\<forall>k. ds_lru s k \<noteq> None \<longrightarrow> k \<in> set (ds_order s))"

lemma no_strays_New: "no_strays (dedup_New None c ttl)"
  by (simp add: no_strays_def dedup_New_def)

lemma dedup_db_None:
  "snd (snd (trim_loop E cap ks lru None)) = None"
  "fst (snd (evict_loop E now ids (lru, None, kept))) = None"
  by (induction ks arbitrary: lru) (simp_all add: dedup_db_delete_def,
     induction ids arbitrary: lru kept, simp_all add: dedup_db_delete_def)

lemma no_strays_evict:
  assumes "dedup_inv s" "no_strays s"
  shows "no_strays (evictExpiredLocked E now s)"
proof -
  have "ds_db (evictExpiredLocked E now s) = None"
    using assms(2) dedup_db_None(2) [of E now "ds_order s" "ds_lru s" "[]"]
    by (simp add: no_strays_def evictExpiredLocked_def split_beta)
  with assms show ?thesis
    by (auto simp: no_strays_def dedup_inv_def evict_lru evict_order split: if_splits)
qed

lemma no_strays_Remember:
  assumes "no_strays s"
  shows "no_strays (Remember E now i m q s)"
proof -
  let ?ks = "ds_order s @ [i]" and ?n = "length (ds_order s @ [i]) - ds_capacity s"
  have "k \<in> set (drop ?n ?ks)" if "k \<in> set ?ks" "k \<notin> set (take ?n ?ks)" for k
    using that by (metis Un_iff append_take_drop_id set_append)
  moreover have "k \<in> set ?ks \<and> k \<notin> set (take ?n ?ks)" if "ds_lru (Remember E now i m q s) k \<noteq> None" for k
    using that assms by (simp add: Remember_def Let_def trim_lru no_strays_def split: if_splits)
  ultimately have "\<forall>k. ds_lru (Remember E now i m q s) k \<noteq> None \<longrightarrow> k \<in> set (ds_order (Remember E now i m q s))"
    by (simp add: Remember_def Let_def trim_order)
  moreover have "ds_db (Remember E now i m q s) = None"
    using assms by (simp add: Remember_def Let_def no_strays_def persistLocked_def dedup_trim_def
      split_beta dedup_db_None)
  ultimately show ?thesis by (simp add: no_strays_def)
qed

lemma no_strays_admit:
  assumes "dedup_inv s" "no_strays s"
  shows "no_strays (snd (admit E r s))"
proof -
  note evicted = no_strays_evict [OF assms, of E "rq_at r"]
  then have "snd (Check E (rq_at r) (rq_at r) (rq_id r) s) = evictExpiredLocked E (rq_at r) s"
    by (simp add: Check_def Let_def no_strays_def split: option.splits)
  with evicted have "no_strays (snd (Check E (rq_at r) (rq_at r) (rq_id r) s))" by simp
  then show ?thesis
    by (auto simp: admit_def no_strays_Remember split: prod.splits option.splits)
qed

lemma no_strays_run: "dedup_inv s \<Longrightarrow> no_strays s \<Longrightarrow> no_strays (dedup_run E rs s)"
  by (induction rs arbitrary: s) (simp_all add: dedup_inv_admit no_strays_admit)

text \<open>A key that is in the map and not in the order stays there whatever happens.\<close>

definition stray :: "uuid \<Rightarrow> dedupEntry \<Rightarrow> 'd dedupStore \<Rightarrow> bool" where
  "stray i e s \<longleftrightarrow> dedup_inv s \<and> ds_lru s i = Some e \<and> i \<notin> set (ds_order s)"

lemma stray_Check:
  assumes "stray i e s"
  shows "stray i e (snd (Check E now now2 j s))" "j = i \<Longrightarrow> fst (Check E now now2 j s) = Some e"
proof -
  have s: "dedup_inv s" "distinct (ds_order s)" "ds_lru s i = Some e" "i \<notin> set (ds_order s)"
    using assms by (auto simp: stray_def dedup_inv_def)
  then have lru: "ds_lru (evictExpiredLocked E now s) i = Some e"
    by (simp add: evict_lru)
  then have "ds_lru (snd (Check E now now2 j s)) i = Some e"
    by (auto simp: Check_def Let_def split: option.splits prod.splits)
  then show "stray i e (snd (Check E now now2 j s))"
    using s dedup_inv_Check [OF s(1)] by (simp add: stray_def evict_order)
  show "j = i \<Longrightarrow> fst (Check E now now2 j s) = Some e"
    using lru by (simp add: Check_def Let_def)
qed

lemma stray_Remember:
  assumes "stray i e s" "j \<noteq> i" "j \<notin> set (ds_order s)"
  shows "stray i e (Remember E now j m q s)"
proof -
  let ?ks = "ds_order s @ [j]" and ?n = "length (ds_order s @ [j]) - ds_capacity s"
  have "i \<notin> set ?ks" using assms by (simp add: stray_def)
  then have "i \<notin> set (take ?n ?ks)" "i \<notin> set (drop ?n ?ks)"
    by (meson in_set_takeD in_set_dropD)+
  with assms show ?thesis
    by (simp add: stray_def dedup_inv_Remember) (simp add: Remember_def Let_def trim_order trim_lru)
qed

lemma stray_admit:
  assumes "stray i e s"
  shows "stray i e (snd (admit E r s))" "rq_id r = i \<Longrightarrow> fst (admit E r s) = Some e"
proof -
  let ?c = "Check E (rq_at r) (rq_at r) (rq_id r) s"
  note chk = stray_Check [OF assms, where E = E and now = "rq_at r" and ?now2.0 = "rq_at r" and j = "rq_id r"]
  show "rq_id r = i \<Longrightarrow> fst (admit E r s) = Some e"
    using chk(2) by (auto simp: admit_def split: prod.splits option.splits)
  show "stray i e (snd (admit E r s))"
  proof (cases "fst ?c")
    case None
    then have c: "?c = (None, snd ?c)" by (metis prod.collapse)
    have "rq_id r \<noteq> i" using None chk(2) by auto
    moreover have "rq_id r \<notin> set (ds_order (snd ?c))"
      using Check_None(2) [OF _ c] assms by (auto simp: stray_def)
    ultimately show ?thesis
      unfolding admit_def by (subst c) (simp add: stray_Remember [OF chk(1)])
  next
    case (Some e')
    then have "snd (admit E r s) = snd ?c"
      by (auto simp: admit_def split: prod.splits)
    with chk(1) show ?thesis by simp
  qed
qed

lemma stray_run: "stray i e s \<Longrightarrow> stray i e (dedup_run E rs s)"
  by (induction rs arbitrary: s) (simp_all add: stray_admit)

text \<open>A store that has a database keeps having one.\<close>

lemma dedup_db_Some:
  "snd (snd (trim_loop E cap ks lru (Some d))) \<noteq> None"
  "fst (snd (evict_loop E now ids (lru, Some d, kept))) \<noteq> None"
  by (induction ks arbitrary: lru d) (simp_all add: dedup_db_delete_def,
     induction ids arbitrary: lru kept d, simp_all add: dedup_db_delete_def)

lemma evict_db: "ds_db s \<noteq> None \<Longrightarrow> ds_db (evictExpiredLocked E now s) \<noteq> None"
  by (cases "ds_db s") (simp_all add: evictExpiredLocked_def split_beta dedup_db_Some del: not_None_eq)

lemma Check_db: "ds_db s \<noteq> None \<Longrightarrow> ds_db (snd (Check E now now2 i s)) \<noteq> None"
  using evict_db [of s E now]
  by (simp add: Check_def Let_def del: not_None_eq split: option.splits prod.splits)

lemma Remember_db: "ds_db s \<noteq> None \<Longrightarrow> ds_db (Remember E now i m q s) \<noteq> None"
  by (cases "ds_db s")
    (simp_all add: Remember_def Let_def persistLocked_def dedup_trim_def split_beta dedup_db_Some del: not_None_eq)

lemma dedup_run_db: "ds_db s \<noteq> None \<Longrightarrow> ds_db (dedup_run E rs s) \<noteq> None"
proof (induction rs arbitrary: s)
  case (Cons r rs)
  have "ds_db (snd (admit E r s)) \<noteq> None"
    using Check_db [OF Cons.prems, of E "rq_at r" "rq_at r" "rq_id r"]
    by (cases "Check E (rq_at r) (rq_at r) (rq_id r) s")
      (simp add: admit_def Remember_db del: not_None_eq split: option.splits)
  then show ?case using Cons.IH by simp
qed simp

text \<open>A restarted store finds what the database holds and keeps it outside the order.\<close>

lemma restart_finds:
  assumes "badger_laws E cont" "cont d (dedupDBKey (rq_id r)) = Some (entry_bytes e)" "wf_entry e"
    and "rq_at r \<le> de_expiresAt e"
  shows "fst (admit E r (dedup_New (Some d) c ttl)) = Some e"
    and "stray (rq_id r) e (snd (admit E r (dedup_New (Some d) c ttl)))"
proof -
  let ?s = "dedup_New (Some d) c ttl"
  have "evictExpiredLocked E (rq_at r) ?s = ?s"
    by (simp add: evictExpiredLocked_def dedup_New_def)
  then have adm: "admit E r ?s = (Some e, ?s\<lparr>ds_lru := [rq_id r \<mapsto> e]\<rparr>)"
    by (simp add: admit_def Check_def loadFromDB_entry [OF assms]) (simp add: dedup_New_def loadFromDB_entry [OF assms])
  then show "fst (admit E r ?s) = Some e" by simp
  show "stray (rq_id r) e (snd (admit E r ?s))"
    using dedup_inv_New [of "Some d" c ttl] dedup_inv_admit [of ?s E r] adm
    by (simp add: stray_def dedup_New_def)
qed

section \<open>Properties\<close>

text \<open>
  C33 (exactly-once window). Whatever requests came before: once a request has been admitted as
  new, every later request with the same idempotency key is answered with that first entry, as
  long as it comes within the time to live and fewer other requests than the capacity were
  handled in between, all of them within the time to live as well. It holds with any database,
  also one whose operations fail.
\<close>

theorem dedup_window:
  assumes new: "admit E r (dedup_run E before (dedup_New db c ttl)) = (None, s1)"
    and between: "\<forall>x \<in> set between. rq_at x \<le> rq_at r + ds_ttl s1"
    and few: "length between < ds_capacity s1"
    and again: "rq_id r' = rq_id r" "rq_at r' \<le> rq_at r + ds_ttl s1"
  shows "fst (admit E r' (dedup_run E between s1)) = Some (entry_for r (ds_ttl s1))"
proof -
  let ?s0 = "dedup_run E before (dedup_New db c ttl)" and ?e = "entry_for r (ds_ttl s1)"
  have s0: "dedup_inv ?s0" by (simp add: dedup_inv_run dedup_inv_New)
  have s1: "dedup_inv s1" "ds_ttl s1 = ds_ttl ?s0"
    using dedup_inv_admit [OF s0, of E r] admit_fields(2) [of E r ?s0] new by auto
  then have "dedup_holds s1 (rq_id r) ?e 0"
    using admit_new [OF s0 new] by (simp add: entry_for_def)
  from dedup_mem.remembered [OF s1(1) this, of between E] between few
  obtain m where "dedup_holds (dedup_run E between s1) (rq_id r) ?e m"
    by (auto simp: dedup_run_def entry_for_def)
  then show ?thesis
    using admit_found [OF dedup_inv_run [OF s1(1)], of E between r' ?e m E] again by (simp add: entry_for_def)
qed

theorem dedup_window_witness:
  "fst (admit mem_engine \<lparr>rq_at = 90, rq_id = 7, rq_msg = 4, rq_seq = 9\<rparr>
     (dedup_run mem_engine [\<lparr>rq_at = 20, rq_id = 8, rq_msg = 2, rq_seq = 6\<rparr>]
       (snd (admit mem_engine \<lparr>rq_at = 10, rq_id = 7, rq_msg = 1, rq_seq = 5\<rparr> (dedup_New None 0 100)))))
   = Some \<lparr>de_serverMsgID = 1, de_seq = 5, de_expiresAt = 110\<rparr>"
  using dedup_window [of mem_engine "\<lparr>rq_at = 10, rq_id = 7, rq_msg = 1, rq_seq = 5\<rparr>" "[]" None 0 100
     "snd (admit mem_engine \<lparr>rq_at = 10, rq_id = 7, rq_msg = 1, rq_seq = 5\<rparr> (dedup_New None 0 100))"
     "[\<lparr>rq_at = 20, rq_id = 8, rq_msg = 2, rq_seq = 6\<rparr>]" "\<lparr>rq_at = 90, rq_id = 7, rq_msg = 4, rq_seq = 9\<rparr>"]
  by (simp add: entry_for_def) (simp add: admit_def Check_def evictExpiredLocked_def dedup_New_def)

text \<open>
  C40 (memory bound). A store without a database never holds more keys than its capacity,
  whatever is published and when: the map and the order list the same keys, each once.
\<close>

theorem dedup_memory_bounded:
  "let s = dedup_run E rs (dedup_New None c ttl) in
     dedup_Size s \<le> ds_capacity s \<and> distinct (ds_order s) \<and> set (ds_order s) = dom (ds_lru s)"
proof -
  let ?s = "dedup_run E rs (dedup_New None c ttl)"
  have "dedup_inv ?s" "no_strays ?s"
    by (simp_all add: dedup_inv_run no_strays_run dedup_inv_New no_strays_New)
  then have "set (ds_order ?s) = dom (ds_lru ?s)" "distinct (ds_order ?s)" "length (ds_order ?s) \<le> ds_capacity ?s"
    by (auto simp: dedup_inv_def no_strays_def domIff)
  then show ?thesis
    by (simp add: Let_def dedup_Size_def) (metis distinct_card)
qed

text \<open>
  Restart. If the store writes to a database that keeps the laws and commits its writes,
  then a process started afterwards on that database answers a repeated request with the entry
  of the first one until it expires, although its memory is empty.
\<close>

theorem dedup_survives_restart:
  assumes laws: "badger_laws E cont" "writes_commit E"
    and new: "admit E r (dedup_run E before (dedup_New (Some d) c ttl)) = (None, s1)"
    and int64: "in_int64 (rq_at r + ds_ttl s1)"
    and again: "rq_id r' = rq_id r" "rq_at r' \<le> rq_at r + ds_ttl s1"
  shows "\<exists>d1. ds_db s1 = Some d1 \<and>
    fst (admit E r' (dedup_New (Some d1) c' ttl')) = Some (entry_for r (ds_ttl s1))"
proof -
  let ?s0 = "dedup_run E before (dedup_New (Some d) c ttl)"
  let ?c = "Check E (rq_at r) (rq_at r) (rq_id r) ?s0"
  have s0: "dedup_inv ?s0" by (simp add: dedup_inv_run dedup_inv_New)
  have c: "?c = (None, snd ?c)"
    and s1: "s1 = Remember E (rq_at r) (rq_id r) (rq_msg r) (rq_seq r) (snd ?c)"
    using new by (auto simp: admit_def split: prod.splits option.splits)
  have "ds_db ?s0 \<noteq> None"
    by (rule dedup_run_db) (simp add: dedup_New_def)
  then obtain d0 where d0: "ds_db (snd ?c) = Some d0"
    using Check_db [of ?s0 E "rq_at r" "rq_at r" "rq_id r"] by blast
  obtain d1 where d1: "ds_db s1 = Some d1"
    "cont d1 (dedupDBKey (rq_id r')) = Some (entry_bytes (entry_for r (ds_ttl s1)))"
    using Remember_persists [OF laws dedup_inv_Check [OF s0] Check_None(2) [OF s0 c] d0]
    unfolding s1 again entry_for_def by (metis Remember_fields(2))
  have "wf_entry (entry_for r (ds_ttl s1))" "rq_at r' \<le> de_expiresAt (entry_for r (ds_ttl s1))"
    using int64 again by (simp_all add: wf_entry_def entry_for_def)
  from restart_finds(1) [OF laws(1) d1(2) this] d1(1) show ?thesis by blast
qed

theorem dedup_survives_restart_witness:
  "fst (admit mem_engine \<lparr>rq_at = 90, rq_id = 7, rq_msg = 4, rq_seq = 9\<rparr>
     (dedup_New (ds_db (snd (admit mem_engine \<lparr>rq_at = 10, rq_id = 7, rq_msg = 1, rq_seq = 5\<rparr>
       (dedup_New (Some []) 0 100)))) 0 100))
   = Some \<lparr>de_serverMsgID = 1, de_seq = 5, de_expiresAt = 110\<rparr>"
proof -
  let ?r = "\<lparr>rq_at = 10, rq_id = 7, rq_msg = 1, rq_seq = 5\<rparr>"
  let ?s1 = "snd (admit mem_engine ?r (dedup_New (Some []) 0 100))"
  have "admit mem_engine ?r (dedup_run mem_engine [] (dedup_New (Some []) 0 100)) = (None, ?s1)"
    by (simp add: admit_def Check_def evictExpiredLocked_def dedup_New_def loadFromDB_def Get_def
        engine_defs badger_ErrKeyNotFound_def ErrKeyNotFound_def)
  moreover have "ds_ttl ?s1 = 100" by (simp add: dedup_New_def)
  ultimately show ?thesis
    using dedup_survives_restart [OF badger_laws_mem writes_commit_mem, of ?r "[]" "[]" 0 100 ?s1
        "\<lparr>rq_at = 90, rq_id = 7, rq_msg = 4, rq_seq = 9\<rparr>" 0 100]
    by (auto simp: entry_for_def in_int64_def)
qed

text \<open>
  An entry read back never expires. \<open>Check\<close> puts an entry it loads from the database into
  the map but not into the order, and both eviction and trimming walk the order. From then on
  every request with that key is a duplicate, at any time, also long after the entry's expiry,
  and whatever else is handled in between: the time to live and the capacity no longer apply.
\<close>

theorem dedup_reloaded_never_expires:
  assumes "badger_laws E cont" "cont d (dedupDBKey (rq_id r)) = Some (entry_bytes e)" "wf_entry e"
    and "rq_at r \<le> de_expiresAt e" and "rq_id r' = rq_id r"
  shows "fst (admit E r' (dedup_run E (r # rs) (dedup_New (Some d) c ttl))) = Some e"
  using stray_admit(2) [OF stray_run [OF restart_finds(2) [OF assms(1-4)]]] assms(5) by simp

theorem dedup_reloaded_never_expires_witness:
  "fst (admit mem_engine \<lparr>rq_at = 1000000, rq_id = 7, rq_msg = 4, rq_seq = 9\<rparr>
     (dedup_run mem_engine [\<lparr>rq_at = 100, rq_id = 7, rq_msg = 4, rq_seq = 9\<rparr>]
       (dedup_New (Some [(dedupDBKey 7,
          entry_bytes \<lparr>de_serverMsgID = 1, de_seq = 5, de_expiresAt = 110\<rparr>)]) 0 100)))
   = Some \<lparr>de_serverMsgID = 1, de_seq = 5, de_expiresAt = 110\<rparr>"
  by (rule dedup_reloaded_never_expires [OF badger_laws_mem])
    (simp_all add: wf_entry_def in_int64_def)

lemma touch_order_id: "i \<notin> set ks \<Longrightarrow> touch_order i seen ks = seen @ ks"
  by (induction ks arbitrary: seen) auto

lemma SeenOrRemember_admit:
  assumes "dedup_inv s"
  shows "SeenOrRemember E t t i m q s =
    (let (found, s') = admit E \<lparr>rq_at = t, rq_id = i, rq_msg = m, rq_seq = q\<rparr> s in
     (case found of Some e \<Rightarrow> (e, True)
      | None \<Rightarrow> (\<lparr>de_serverMsgID = m, de_seq = q, de_expiresAt = t + ds_ttl s\<rparr>, False), s'))"
proof -
  let ?s = "evictExpiredLocked E t s"
  have "dedup_inv ?s" by (rule dedup_inv_evict [OF assms])
  then have "ds_lru ?s i = None \<Longrightarrow> touchLocked i (?s\<lparr>ds_lru := l, ds_db := b\<rparr>) = ?s\<lparr>ds_lru := l, ds_db := b\<rparr>" for l b
    by (subgoal_tac "i \<notin> set (ds_order ?s)") (auto simp: touchLocked_def touch_order_id dedup_inv_def)
  then show ?thesis
    by (simp add: SeenOrRemember_def admit_def Check_def Remember_def Let_def split: option.splits prod.splits)
qed

text \<open>
  The combined operation. In every state a run reaches, \<open>SeenOrRemember\<close> does what \<open>Check\<close>
  followed by \<open>Remember\<close> does: same answer, same new state.
\<close>

theorem seen_or_remember_is_admit:
  "let s = dedup_run E rs (dedup_New db c ttl);
       r = \<lparr>rq_at = t, rq_id = i, rq_msg = m, rq_seq = q\<rparr>;
       (found, s') = admit E r s in
   SeenOrRemember E t t i m q s =
     (case found of Some e \<Rightarrow> (e, True) | None \<Rightarrow> (entry_for r (ds_ttl s), False), s')"
  unfolding Let_def by (subst SeenOrRemember_admit) (simp_all add: dedup_inv_run dedup_inv_New entry_for_def split_beta split: option.split)

end
