(* ===== verification/Server.thy ===== *)
theory Server
  imports Registry Dedup
begin

text \<open>
  The server's table of sessions (\<^verbatim>\<open>Server\<close> in \<^verbatim>\<open>core/transport/mqtt/server.go\<close>) and what its sessions
  share: the registry of topics, the deduplication store of the hub
  (\<^verbatim>\<open>core/brokerhub/hub.go\<close>) and the user store. A session is identified by its address, a
  number. The listeners and the accept loop are in \<open>Startup\<close> and \<open>Listener\<close>.
\<close>

section \<open>Model\<close>

text \<open>The list \<^verbatim>\<open>Topics\<close> is filled from a map in no particular order, so it is a set here.\<close>

record SessionInfo =
  si_ClientID :: string
  si_RemoteAddr :: string
  si_Username :: string
  si_Connected :: gotime
  si_Topics :: "string set"

record 'd Server =
  srv_registry :: "'d Registry"
  srv_dedup :: "'d dedupStore option"
  srv_auth :: "Store option"
  srv_authReq :: bool
  srv_sessions :: "nat \<rightharpoonup> SessionInfo"

definition NewHub :: "'d option \<Rightarrow> int \<Rightarrow> int \<Rightarrow> 'd dedupStore" where
  "NewHub metaDB dedupCap dedupTTL = dedup_New metaDB dedupCap dedupTTL"

definition NewServer :: "'d Registry \<Rightarrow> 'd dedupStore option \<Rightarrow> Store option \<Rightarrow> bool \<Rightarrow> 'd Server" where
  "NewServer registry hub authStore authRequired =
     \<lparr>srv_registry = registry, srv_dedup = hub, srv_auth = authStore, srv_authReq = authRequired,
      srv_sessions = Map.empty\<rparr>"

definition registerSession :: "nat \<Rightarrow> SessionInfo \<Rightarrow> 'd Server \<Rightarrow> 'd Server" where
  "registerSession a info srv = srv\<lparr>srv_sessions := (srv_sessions srv)(a \<mapsto> info)\<rparr>"

definition updateSessionIdentity :: "nat \<Rightarrow> string \<Rightarrow> string \<Rightarrow> 'd Server \<Rightarrow> 'd Server" where
  "updateSessionIdentity a clientID username srv =
     (case srv_sessions srv a of
        None \<Rightarrow> srv
      | Some info \<Rightarrow> srv\<lparr>srv_sessions := (srv_sessions srv)(a \<mapsto> info\<lparr>si_ClientID := clientID, si_Username := username\<rparr>)\<rparr>)"

definition updateSessionTopics :: "nat \<Rightarrow> string set \<Rightarrow> 'd Server \<Rightarrow> 'd Server" where
  "updateSessionTopics a topics srv =
     (case srv_sessions srv a of
        None \<Rightarrow> srv
      | Some info \<Rightarrow> srv\<lparr>srv_sessions := (srv_sessions srv)(a \<mapsto> info\<lparr>si_Topics := topics\<rparr>)\<rparr>)"

definition unregisterSession :: "nat \<Rightarrow> 'd Server \<Rightarrow> 'd Server" where
  "unregisterSession a srv = srv\<lparr>srv_sessions := (srv_sessions srv)(a := None)\<rparr>"

text \<open>The sessions \<open>KickClient\<close> collects and then closes.\<close>

definition kicked :: "string \<Rightarrow> 'd Server \<Rightarrow> nat \<Rightarrow> bool" where
  "kicked clientID srv a =
     (case srv_sessions srv a of None \<Rightarrow> False | Some info \<Rightarrow> si_ClientID info = clientID)"

section \<open>Topics of the registry\<close>

text \<open>A topic is shared by pointer: an operation on it replaces the registry's entry.\<close>

definition put_topic :: "string \<Rightarrow> 'd Topic \<Rightarrow> 'd Server \<Rightarrow> 'd Server" where
  "put_topic n t srv =
     srv\<lparr>srv_registry := (srv_registry srv)\<lparr>reg_topics := (reg_topics (srv_registry srv))(n \<mapsto> t)\<rparr>\<rparr>"

abbreviation topic_at :: "'d Server \<Rightarrow> string \<Rightarrow> 'd Topic option" where
  "topic_at srv n \<equiv> reg_topics (srv_registry srv) n"

lemma topic_at_put [simp]: "topic_at (put_topic n t srv) m = (if m = n then Some t else topic_at srv m)"
  by (simp add: put_topic_def)

lemma put_topic_fields [simp]:
  "srv_dedup (put_topic n t srv) = srv_dedup srv" "srv_sessions (put_topic n t srv) = srv_sessions srv"
  "srv_auth (put_topic n t srv) = srv_auth srv" "srv_authReq (put_topic n t srv) = srv_authReq srv"
  "reg_baseDir (srv_registry (put_topic n t srv)) = reg_baseDir (srv_registry srv)"
  by (simp_all add: put_topic_def)

lemma session_table_fields [simp]:
  "srv_registry (updateSessionTopics a ts srv) = srv_registry srv"
  "srv_dedup (updateSessionTopics a ts srv) = srv_dedup srv"
  "srv_registry (updateSessionIdentity a c u srv) = srv_registry srv"
  "srv_dedup (updateSessionIdentity a c u srv) = srv_dedup srv"
  "srv_registry (registerSession a i srv) = srv_registry srv"
  "srv_registry (unregisterSession a srv) = srv_registry srv"
  by (simp_all add: updateSessionTopics_def updateSessionIdentity_def registerSession_def unregisterSession_def
      split: option.splits)

end
