(* ===== verification/Packet.thy ===== *)
theory Packet
  imports Codec
begin

text \<open>
  The MQTT packet layer (\<^verbatim>\<open>core/transport/mqtt/packet.go\<close>): the packet structs, the reader
  with every parser and every error it returns, and the writers. A reader is the list of
  bytes still to come, at whose end the connection reports end of file; a writer returns
  the frame it hands to \<^verbatim>\<open>w.Write\<close>.
\<close>

section \<open>Constants and packets\<close>

definition TypeConnect :: byte where [simp]: "TypeConnect = 1"
definition TypeConnAck :: byte where [simp]: "TypeConnAck = 2"
definition TypePublish :: byte where [simp]: "TypePublish = 3"
definition TypePubAck :: byte where [simp]: "TypePubAck = 4"
definition TypeSubscribe :: byte where [simp]: "TypeSubscribe = 8"
definition TypeSubAck :: byte where [simp]: "TypeSubAck = 9"
definition TypeUnsubscribe :: byte where [simp]: "TypeUnsubscribe = 10"
definition TypeUnsubAck :: byte where [simp]: "TypeUnsubAck = 11"
definition TypePingReq :: byte where [simp]: "TypePingReq = 12"
definition TypePingResp :: byte where [simp]: "TypePingResp = 13"
definition TypeDisconnect :: byte where [simp]: "TypeDisconnect = 14"

definition ConnAccepted :: byte where "ConnAccepted = 0"
definition ConnRefusedBadCredentials :: byte where "ConnRefusedBadCredentials = 4"

record ConnectPacket =
  cp_ClientID :: string
  cp_Username :: string
  cp_Password :: string
  cp_CleanSession :: bool
  cp_KeepAlive :: u16

record PublishPacket =
  pp_TopicName :: string
  pp_PacketID :: u16
  pp_QoS :: byte
  pp_Retain :: bool
  pp_Dup :: bool
  pp_Payload :: bytes

record TopicFilter =
  tf_Filter :: string
  tf_QoS :: byte

record SubscribePacket =
  sp_PacketID :: u16
  sp_Topics :: "TopicFilter list"

record UnsubscribePacket =
  up_PacketID :: u16
  up_Topics :: "string list"

record PubAckPacket =
  pa_PacketID :: u16

record Packet =
  pkt_Type :: byte
  pkt_Connect :: "ConnectPacket option"
  pkt_Publish :: "PublishPacket option"
  pkt_PubAck :: "PubAckPacket option"
  pkt_Subscribe :: "SubscribePacket option"
  pkt_Unsubscribe :: "UnsubscribePacket option"

text \<open>\<^verbatim>\<open>&Packet{Type: t}\<close>\<close>

definition new_packet :: "byte \<Rightarrow> Packet" where
  "new_packet t = \<lparr>pkt_Type = t, pkt_Connect = None, pkt_Publish = None, pkt_PubAck = None,
     pkt_Subscribe = None, pkt_Unsubscribe = None\<rparr>"

section \<open>The reader\<close>

definition io_EOF :: go_error where
  "io_EOF = Err ''EOF''"

definition io_ErrUnexpectedEOF :: go_error where
  "io_ErrUnexpectedEOF = Err ''unexpected EOF''"

text \<open>\<^verbatim>\<open>io.ReadFull\<close> into a buffer of \<open>n\<close> bytes: the bytes read and what is left.\<close>

definition io_ReadFull :: "bytes \<Rightarrow> nat \<Rightarrow> (bytes \<times> bytes) res" where
  "io_ReadFull r n =
     (if n \<le> length r then Inr (take n r, drop n r)
      else if r = [] then Inl io_EOF else Inl io_ErrUnexpectedEOF)"

text \<open>The loop of \<^verbatim>\<open>readRemainingLength\<close>: the reader, then the variables \<open>len\<close> and \<open>shift\<close>.\<close>

fun readRemainingLength_loop :: "bytes \<Rightarrow> nat \<Rightarrow> nat \<Rightarrow> (nat \<times> bytes) res" where
  "readRemainingLength_loop [] len shift = Inl io_EOF"
| "readRemainingLength_loop (b # r) len shift =
     (let len' = len OR push_bit shift (unat (b AND 0x7F)) in
      if b AND 0x80 = 0 then Inr (len', r)
      else if 21 < shift + 7 then Inl (Err ''remaining length: overflow (more than 4 bytes)'')
      else readRemainingLength_loop r len' (shift + 7))"

definition readRemainingLength :: "bytes \<Rightarrow> (nat \<times> bytes) res" where
  "readRemainingLength r = readRemainingLength_loop r 0 0"

definition readString :: "bytes \<Rightarrow> nat \<Rightarrow> (string \<times> nat) res" where
  "readString b pos =
     (if length b < pos + 2 then Inl (Err ''string: buffer too short for length prefix'')
      else rbind (go_slice b pos (pos + 2)) (\<lambda>lb. rbind (go_uint16 lb) (\<lambda>w.
        let l = unat w; pos = pos + 2 in
        if length b < pos + l
        then Inl (Errorf ''string: buffer too short for data (need %d, have %d)''
                    [FNat l, FNat (length b - pos)])
        else rbind (go_slice b pos (pos + l)) (\<lambda>s. Inr (string_of s, pos + l)))))"

text \<open>A field that is present only when its flag is set; the position is unchanged otherwise.\<close>

definition readStringIf :: "bool \<Rightarrow> string \<Rightarrow> bytes \<Rightarrow> nat \<Rightarrow> (string \<times> nat) res" where
  "readStringIf flag what b pos = (if flag then wrap_res what (readString b pos) else Inr ('''', pos))"

definition parseConnect :: "bytes \<Rightarrow> ConnectPacket res" where
  "parseConnect body =
     rbind (wrap_res ''protocol name'' (readString body 0)) (\<lambda>(protoName, pos).
     if protoName \<noteq> ''MQTT'' \<and> protoName \<noteq> ''MQIsdp''
     then Inl (Errorf ''unsupported protocol name: %q'' [FStr protoName])
     else if length body \<le> pos then Inl (Err ''CONNECT: missing protocol level'')
     else let pos = pos + 1 in
     if length body \<le> pos then Inl (Err ''CONNECT: missing connect flags'')
     else rbind (go_index body pos) (\<lambda>connectFlags.
     let pos = pos + 1;
         cleanSession = (connectFlags AND 0x02 \<noteq> 0);
         usernameFlag = (connectFlags AND 0x80 \<noteq> 0);
         passwordFlag = (connectFlags AND 0x40 \<noteq> 0);
         willFlag = (connectFlags AND 0x04 \<noteq> 0) in
     if length body < pos + 2 then Inl (Err ''CONNECT: missing keep-alive'')
     else rbind (go_slice body pos (pos + 2)) (\<lambda>kb. rbind (go_uint16 kb) (\<lambda>keepAlive.
     rbind (wrap_res ''CONNECT: client ID'' (readString body (pos + 2))) (\<lambda>(clientID, pos).
     rbind (readStringIf willFlag ''CONNECT: will topic'' body pos) (\<lambda>(_, pos).
     rbind (readStringIf willFlag ''CONNECT: will message'' body pos) (\<lambda>(_, pos).
     rbind (readStringIf usernameFlag ''CONNECT: username'' body pos) (\<lambda>(username, pos).
     rbind (readStringIf passwordFlag ''CONNECT: password'' body pos) (\<lambda>(password, _).
     Inr \<lparr>cp_ClientID = clientID, cp_Username = username, cp_Password = password,
          cp_CleanSession = cleanSession, cp_KeepAlive = keepAlive\<rparr>)))))))))"

definition parsePublish :: "byte \<Rightarrow> bytes \<Rightarrow> PublishPacket res" where
  "parsePublish flags body =
     (let dup = (flags AND 0x08 \<noteq> 0);
          qos = drop_bit 1 flags AND 0x03;
          retain = (flags AND 0x01 \<noteq> 0) in
      rbind (wrap_res ''PUBLISH: topic name'' (readString body 0)) (\<lambda>(topicName, pos).
      rbind (if 0 < qos
             then if length body < pos + 2
                  then Inl (Err ''PUBLISH: missing packet identifier for QoS > 0'')
                  else rbind (go_slice body pos (pos + 2)) (\<lambda>pb. rbind (go_uint16 pb) (\<lambda>p.
                       Inr (p, pos + 2)))
             else Inr (0, pos)) (\<lambda>(packetID, pos).
      rbind (go_slice body pos (length body)) (\<lambda>payload.
      Inr \<lparr>pp_TopicName = topicName, pp_PacketID = packetID, pp_QoS = qos,
           pp_Retain = retain, pp_Dup = dup, pp_Payload = payload\<rparr>))))"

text \<open>The body of the loop of \<^verbatim>\<open>parseSubscribe\<close>: one filter and its QoS byte.\<close>

definition readTopicFilter :: "bytes \<Rightarrow> nat \<Rightarrow> (TopicFilter \<times> nat) res" where
  "readTopicFilter body pos =
     rbind (wrap_res ''SUBSCRIBE: topic filter'' (readString body pos)) (\<lambda>(filter, pos).
     if length body \<le> pos then Inl (Err ''SUBSCRIBE: missing QoS byte'')
     else rbind (go_index body pos) (\<lambda>q.
     Inr (\<lparr>tf_Filter = filter, tf_QoS = q AND 0x03\<rparr>, pos + 1)))"

lemma rbind_cong [fundef_cong]:
  "r = r' \<Longrightarrow> (\<And>x. r' = Inr x \<Longrightarrow> f x = g x) \<Longrightarrow> rbind r f = rbind r' g"
  by (cases r') auto

lemma readString_Inr:
  "readString b pos = Inr (s, p) \<Longrightarrow> p = pos + 2 + length s \<and> p \<le> length b"
  by (auto simp: readString_def rbind_Inr_iff Let_def go_slice_Inr_iff split: if_splits)

lemma readTopicFilter_Inr:
  "readTopicFilter b pos = Inr (tf, p) \<Longrightarrow> pos < p \<and> p \<le> length b"
  by (auto simp: readTopicFilter_def rbind_Inr_iff split: if_splits dest: readString_Inr)

function parseSubscribe_loop :: "bytes \<Rightarrow> nat \<Rightarrow> TopicFilter list \<Rightarrow> TopicFilter list res" where
  "parseSubscribe_loop body pos topics =
     (if pos < length body
      then rbind (readTopicFilter body pos) (\<lambda>(tf, p). parseSubscribe_loop body p (topics @ [tf]))
      else Inr topics)"
  by pat_completeness auto
termination
  by (relation "measure (\<lambda>(body, pos, _). length body - pos)") (auto dest: readTopicFilter_Inr)

definition parseSubscribe :: "bytes \<Rightarrow> SubscribePacket res" where
  "parseSubscribe body =
     (if length body < 2 then Inl (Err ''SUBSCRIBE: body too short'')
      else rbind (go_slice body 0 2) (\<lambda>pb. rbind (go_uint16 pb) (\<lambda>packetID.
        rbind (parseSubscribe_loop body 2 []) (\<lambda>topics.
        Inr \<lparr>sp_PacketID = packetID, sp_Topics = topics\<rparr>))))"

function parseUnsubscribe_loop :: "bytes \<Rightarrow> nat \<Rightarrow> string list \<Rightarrow> string list res" where
  "parseUnsubscribe_loop body pos topics =
     (if pos < length body
      then rbind (wrap_res ''UNSUBSCRIBE: topic filter'' (readString body pos))
             (\<lambda>(t, p). parseUnsubscribe_loop body p (topics @ [t]))
      else Inr topics)"
  by pat_completeness auto
termination
  by (relation "measure (\<lambda>(body, pos, _). length body - pos)") (auto dest: readString_Inr)

declare parseSubscribe_loop.simps [simp del] parseUnsubscribe_loop.simps [simp del]

definition parseUnsubscribe :: "bytes \<Rightarrow> UnsubscribePacket res" where
  "parseUnsubscribe body =
     (if length body < 2 then Inl (Err ''UNSUBSCRIBE: body too short'')
      else rbind (go_slice body 0 2) (\<lambda>pb. rbind (go_uint16 pb) (\<lambda>packetID.
        rbind (parseUnsubscribe_loop body 2 []) (\<lambda>topics.
        Inr \<lparr>up_PacketID = packetID, up_Topics = topics\<rparr>))))"

text \<open>The switch of \<^verbatim>\<open>ReadPacket\<close> on the packet type.\<close>

definition parsePacket :: "byte \<Rightarrow> byte \<Rightarrow> bytes \<Rightarrow> Packet res" where
  "parsePacket pktType flags body =
     (let pkt = new_packet pktType in
      if pktType = TypeConnect then
        rbind (wrap_res ''parse CONNECT'' (parseConnect body)) (\<lambda>cp. Inr (pkt\<lparr>pkt_Connect := Some cp\<rparr>))
      else if pktType = TypePublish then
        rbind (wrap_res ''parse PUBLISH'' (parsePublish flags body)) (\<lambda>pp. Inr (pkt\<lparr>pkt_Publish := Some pp\<rparr>))
      else if pktType = TypePubAck then
        if length body < 2 then Inl (Err ''PUBACK: body too short'')
        else rbind (go_slice body 0 2) (\<lambda>pb. rbind (go_uint16 pb) (\<lambda>p.
          Inr (pkt\<lparr>pkt_PubAck := Some \<lparr>pa_PacketID = p\<rparr>\<rparr>)))
      else if pktType = TypeSubscribe then
        rbind (wrap_res ''parse SUBSCRIBE'' (parseSubscribe body)) (\<lambda>sp. Inr (pkt\<lparr>pkt_Subscribe := Some sp\<rparr>))
      else if pktType = TypeUnsubscribe then
        rbind (wrap_res ''parse UNSUBSCRIBE'' (parseUnsubscribe body)) (\<lambda>up. Inr (pkt\<lparr>pkt_Unsubscribe := Some up\<rparr>))
      else if pktType = TypePingReq \<or> pktType = TypeDisconnect then Inr pkt
      else Inl (Errorf ''unknown MQTT packet type: %d'' [FNat (unat pktType)]))"

definition ReadPacket :: "bytes \<Rightarrow> (Packet \<times> bytes) res" where
  "ReadPacket r =
     rbind (wrap_res ''read fixed-header byte'' (io_ReadFull r 1)) (\<lambda>(header, r).
     rbind (go_index header 0) (\<lambda>h.
     let pktType = drop_bit 4 h; flags = h AND 0x0F in
     rbind (wrap_res ''read remaining length'' (readRemainingLength r)) (\<lambda>(remaining, r).
     rbind (if 0 < remaining then wrap_res ''read packet body'' (io_ReadFull r remaining)
            else Inr ([], r)) (\<lambda>(body, r).
     rbind (parsePacket pktType flags body) (\<lambda>pkt. Inr (pkt, r))))))"

section \<open>The writers\<close>

definition encodeString :: "string \<Rightarrow> bytes" where
  "encodeString s = (let b = bytes_of s in
     [word_of_nat (drop_bit 8 (length b)), word_of_nat (length b)] @ b)"

function encodeRemainingLength :: "nat \<Rightarrow> bytes" where
  "encodeRemainingLength len =
     (let b = (word_of_nat (len AND 0x7F) :: byte); len' = drop_bit 7 len in
      if 0 < len' then (b OR 0x80) # encodeRemainingLength len' else [b])"
  by pat_completeness auto
termination
  by (relation "measure id") (auto simp: drop_bit_eq_div div_greater_zero_iff)

declare encodeRemainingLength.simps [simp del]

definition packet_id_bytes :: "u16 \<Rightarrow> bytes" where
  "packet_id_bytes packetID = [ucast (drop_bit 8 packetID), ucast packetID]"

definition WriteConnAck :: "bool \<Rightarrow> byte \<Rightarrow> bytes" where
  "WriteConnAck sessionPresent returnCode =
     [push_bit 4 TypeConnAck, 0x02, if sessionPresent then 1 else 0, returnCode]"

definition WritePublish :: "string \<Rightarrow> bytes \<Rightarrow> byte \<Rightarrow> u16 \<Rightarrow> bool \<Rightarrow> bytes" where
  "WritePublish topicName payload qos packetID dup =
     (let flags = push_bit 1 qos OR (if dup then 0x08 else 0);
          varHeader = encodeString topicName @ (if 0 < qos then packet_id_bytes packetID else []) in
      [push_bit 4 TypePublish OR flags] @
      encodeRemainingLength (length varHeader + length payload) @ varHeader @ payload)"

definition WritePubAck :: "u16 \<Rightarrow> bytes" where
  "WritePubAck packetID = [push_bit 4 TypePubAck, 0x02] @ packet_id_bytes packetID"

definition WriteSubAck :: "u16 \<Rightarrow> bytes \<Rightarrow> bytes" where
  "WriteSubAck packetID returnCodes =
     (let body = packet_id_bytes packetID @ returnCodes in
      [push_bit 4 TypeSubAck] @ encodeRemainingLength (length body) @ body)"

definition WriteUnsubAck :: "u16 \<Rightarrow> bytes" where
  "WriteUnsubAck packetID = [push_bit 4 TypeUnsubAck, 0x02] @ packet_id_bytes packetID"

definition WritePingResp :: bytes where
  "WritePingResp = [push_bit 4 TypePingResp, 0x00]"

section \<open>Strings and packet identifiers\<close>

lemma packet_id_bytes_put_be: "packet_id_bytes p = put_be 2 p"
  by (simp add: packet_id_bytes_def numeral_2_eq_2)

lemma length_packet_id_bytes [simp]: "length (packet_id_bytes p) = 2"
  by (simp add: packet_id_bytes_def)

lemma get_be_packet_id_bytes [simp, codec_simps]: "get_be (packet_id_bytes p) = p"
  by (simp add: packet_id_bytes_put_be codec_simps)

lemma encodeString_put_be:
  "encodeString s = put_be 2 (word_of_nat (length s) :: u16) @ bytes_of s"
proof -
  have "(ucast (drop_bit 8 (word_of_nat n :: u16)) :: byte) = word_of_nat (drop_bit 8 n)"
    "(ucast (word_of_nat n :: u16) :: byte) = word_of_nat n" for n
    by (auto intro!: bit_word_eqI simp: bit_simps)
  then show ?thesis by (simp add: encodeString_def Let_def numeral_2_eq_2)
qed

lemma length_encodeString [simp, codec_simps]: "length (encodeString s) = 2 + length s"
  by (simp add: encodeString_def Let_def)

lemma readString_at:
  assumes "length s < 65536"
  shows "readString (pre @ encodeString s @ post) (length pre)
         = Inr (s, length pre + length (encodeString s))"
proof -
  have "unat (word_of_nat (length s) :: u16) = length s"
    using assms by (simp add: unat_of_nat)
  then show ?thesis
    by (simp add: readString_def encodeString_put_be go_simps codec_simps Let_def)
qed

interpretation str: field_codec encodeString readString "\<lambda>s. length s < 65536"
  by unfold_locales (rule readString_at)

section \<open>The remaining length\<close>

lemma or_push_bit_add:
  assumes "(l :: nat) < 2 ^ n"
  shows "l OR push_bit n x = l + x * 2 ^ n"
proof -
  have "take_bit n l AND push_bit n x = 0"
    by (intro bit_eqI) (auto simp: bit_simps)
  then have "l AND push_bit n x = 0"
    using assms by (simp add: take_bit_nat_eq_self)
  then show ?thesis
    by (simp add: push_bit_eq_mult flip: disjunctive_add_eq_or)
qed

text \<open>The seven payload bits and the continuation bit of one length byte.\<close>

lemma nat_and_127: "(n :: nat) AND 127 = n mod 128"
  using take_bit_eq_mask [of 7 n] by (simp add: take_bit_eq_mod mask_eq_exp_minus_1)

lemma length_byte:
  assumes "m < 128"
  defines "b \<equiv> word_of_nat m :: byte"
  shows "b AND 0x80 = 0" "(b OR 0x80) AND 0x80 \<noteq> 0"
    "unat (b AND 0x7F) = m" "unat ((b OR 0x80) AND 0x7F) = m"
proof -
  have hi: "bit (0x80 :: int) k \<longleftrightarrow> k = 7" for k
    using bit_exp_iff [of 7 k, where 'a = int] by simp
  have lo: "bit (0x7F :: int) k \<longleftrightarrow> k < 7" for k
    using bit_mask_iff [of 7 k, where 'a = int] by (auto simp: mask_eq_exp_minus_1)
  have b: "bit b k \<Longrightarrow> k < 7" for k
    using assms take_bit_nat_eq_self [of m 7] bit_take_bit_iff [of 7 m k] by (auto simp: bit_simps)
  show "b AND 0x80 = 0"
    by (rule bit_word_eqI) (auto simp: bit_and_iff hi dest: b)
  have "bit ((b OR 0x80) AND 0x80) 7"
    by (simp add: bit_and_iff bit_or_iff hi)
  then show "(b OR 0x80) AND 0x80 \<noteq> 0"
    by (metis bit_0_eq bot_apply bot_bool_def)
  have u: "unat b = m"
    using assms by (simp add: unat_of_nat)
  have "b AND 0x7F = b" "(b OR 0x80) AND 0x7F = b"
    by (auto intro!: bit_word_eqI simp: bit_and_iff bit_or_iff hi lo dest: b)
  with u show "unat (b AND 0x7F) = m" "unat ((b OR 0x80) AND 0x7F) = m"
    by auto
qed

text \<open>What the loop keeps from one length byte to the next.\<close>

lemma length_shift_step:
  assumes "(len :: nat) < 2 ^ shift" "n < 2 ^ (28 - shift)" "shift \<in> {0, 7, 14, 21}" "\<not> n < 128"
  shows "shift + 7 \<in> {0, 7, 14, 21}" "shift + 7 \<le> 21"
    and "len + (n mod 128) * 2 ^ shift < 2 ^ (shift + 7)"
    and "n div 128 < 2 ^ (28 - (shift + 7))"
    and "len + (n mod 128) * 2 ^ shift + (n div 128) * 2 ^ (shift + 7) = len + n * 2 ^ shift"
proof -
  show "shift + 7 \<in> {0, 7, 14, 21}" "shift + 7 \<le> 21"
    "len + (n mod 128) * 2 ^ shift < 2 ^ (shift + 7)" "n div 128 < 2 ^ (28 - (shift + 7))"
    using assms by auto
  have "n * 2 ^ shift = (n mod 128 + n div 128 * 128) * 2 ^ shift" by simp
  then show "len + (n mod 128) * 2 ^ shift + (n div 128) * 2 ^ (shift + 7) = len + n * 2 ^ shift"
    by (simp only: power_add add_mult_distrib) simp
qed

lemma encodeRemainingLength_small:
  "n < 128 \<Longrightarrow> encodeRemainingLength n = [word_of_nat n]"
  by (subst encodeRemainingLength.simps) (simp add: nat_and_127 drop_bit_eq_div)

lemma encodeRemainingLength_big:
  "\<not> n < 128 \<Longrightarrow> encodeRemainingLength n
    = (word_of_nat (n mod 128) OR 0x80) # encodeRemainingLength (n div 128)"
  by (subst encodeRemainingLength.simps) (simp add: nat_and_127 drop_bit_eq_div div_greater_zero_iff)

lemma readRemainingLength_loop_encode:
  assumes "len < 2 ^ shift" "n < 2 ^ (28 - shift)" "shift \<in> {0, 7, 14, 21}"
  shows "readRemainingLength_loop (encodeRemainingLength n @ r) len shift = Inr (len + n * 2 ^ shift, r)"
  using assms
proof (induction n arbitrary: len shift rule: encodeRemainingLength.induct)
  case (1 n)
  have len': "len OR push_bit shift (n mod 128) = len + (n mod 128) * 2 ^ shift"
    by (rule or_push_bit_add) (fact 1)
  show ?case
  proof (cases "n < 128")
    case True
    then show ?thesis
      using len' length_byte [of "n mod 128"] by (simp add: encodeRemainingLength_small)
  next
    case False
    note step = length_shift_step [OF "1.prems" False]
    have "readRemainingLength_loop (encodeRemainingLength (n div 128) @ r)
        (len + (n mod 128) * 2 ^ shift) (shift + 7) = Inr (len + n * 2 ^ shift, r)"
      using False "1.IH" step by (simp add: drop_bit_eq_div div_greater_zero_iff)
    then show ?thesis
      using False len' length_byte [of "n mod 128"] step(2)
      by (simp add: encodeRemainingLength_big)
  qed
qed

lemma readRemainingLength_encode:
  "n < 268435456 \<Longrightarrow> readRemainingLength (encodeRemainingLength n @ r) = Inr (n, r)"
  using readRemainingLength_loop_encode [of 0 0 n r] by (simp add: readRemainingLength_def)

interpretation remlen: stream_codec encodeRemainingLength readRemainingLength "\<lambda>n. n < 268435456"
  by unfold_locales (rule readRemainingLength_encode)

lemma readRemainingLength_loop_Inr:
  "readRemainingLength_loop r len shift = Inr (n, r') \<Longrightarrow> length r' < length r"
  by (induction r len shift rule: readRemainingLength_loop.induct)
    (fastforce simp: Let_def split: if_splits)+

lemma readRemainingLength_Inr: "readRemainingLength r = Inr (n, r') \<Longrightarrow> length r' < length r"
  unfolding readRemainingLength_def by (rule readRemainingLength_loop_Inr)

lemma panic_free_readRemainingLength_loop [no_panic]:
  "panic_free (readRemainingLength_loop r len shift)"
  by (induction r len shift rule: readRemainingLength_loop.induct) (auto simp: Let_def io_EOF_def)

lemma panic_free_readRemainingLength [no_panic]: "panic_free (readRemainingLength r)"
  by (simp add: readRemainingLength_def panic_free_readRemainingLength_loop)

section \<open>The parsers do not panic\<close>

lemma panic_free_io_ReadFull [no_panic]: "panic_free (io_ReadFull r n)"
  by (simp add: io_ReadFull_def io_EOF_def io_ErrUnexpectedEOF_def)

lemma io_ReadFull_Inr: "io_ReadFull r n = Inr (b, r') \<Longrightarrow> length b = n \<and> b @ r' = r"
  by (auto simp: io_ReadFull_def split: if_splits)

lemma panic_free_readString [no_panic]: "panic_free (readString b pos)"
  by (auto simp: readString_def Let_def intro!: no_panic dest!: length_go_slice)

lemma panic_free_readStringIf [no_panic]: "panic_free (readStringIf f m b pos)"
  by (simp add: readStringIf_def no_panic)

lemma panic_free_parseConnect [no_panic]: "panic_free (parseConnect b)"
  by (auto simp: parseConnect_def Let_def split: prod.splits intro!: no_panic dest!: length_go_slice)

lemma panic_free_parsePublish [no_panic]: "panic_free (parsePublish f b)"
  by (auto simp: parsePublish_def Let_def rbind_Inr_iff split: prod.splits if_splits intro!: no_panic
      dest!: length_go_slice readString_Inr)

lemma panic_free_readTopicFilter [no_panic]: "panic_free (readTopicFilter b pos)"
  by (auto simp: readTopicFilter_def split: prod.splits intro!: no_panic)

lemma panic_free_parseSubscribe_loop [no_panic]: "panic_free (parseSubscribe_loop b pos ts)"
proof (induction b pos ts rule: parseSubscribe_loop.induct)
  case (1 b pos ts)
  then show ?case
    by (subst parseSubscribe_loop.simps) (auto split: prod.splits intro!: no_panic)
qed

lemma panic_free_parseUnsubscribe_loop [no_panic]: "panic_free (parseUnsubscribe_loop b pos ts)"
proof (induction b pos ts rule: parseUnsubscribe_loop.induct)
  case (1 b pos ts)
  then show ?case
    by (subst parseUnsubscribe_loop.simps) (auto split: prod.splits intro!: no_panic)
qed

lemma panic_free_parseSubscribe [no_panic]: "panic_free (parseSubscribe b)"
  by (auto simp: parseSubscribe_def intro!: no_panic dest!: length_go_slice)

lemma panic_free_parseUnsubscribe [no_panic]: "panic_free (parseUnsubscribe b)"
  by (auto simp: parseUnsubscribe_def intro!: no_panic dest!: length_go_slice)

lemma panic_free_parsePacket [no_panic]: "panic_free (parsePacket t f b)"
  unfolding parsePacket_def Let_def
  by (intro no_panic) (auto simp: no_panic dest!: length_go_slice)

lemma panic_free_ReadPacket [no_panic]: "panic_free (ReadPacket r)"
  unfolding ReadPacket_def Let_def
  by (auto intro!: no_panic dest!: io_ReadFull_Inr)

text \<open>Reading a packet takes at least two bytes off the stream.\<close>

lemma ReadPacket_consumes: "ReadPacket r = Inr (pkt, r') \<Longrightarrow> length r' < length r"
  by (auto simp: ReadPacket_def rbind_Inr_iff io_ReadFull_def Let_def split: if_splits
      dest!: readRemainingLength_Inr)

section \<open>Frames\<close>

text \<open>A frame: the first byte, the length of the body and the body.\<close>

lemma ReadPacket_frame:
  assumes "length body < 268435456"
  shows "ReadPacket (h # encodeRemainingLength (length body) @ body @ rest)
    = rbind (parsePacket (drop_bit 4 h) (h AND 0x0F) body) (\<lambda>pkt. Inr (pkt, rest))"
  using readRemainingLength_encode [OF assms, of "body @ rest"]
  by (simp add: ReadPacket_def io_ReadFull_def go_simps Let_def)

text \<open>The PUBLISH packets a writer can express: no retain flag, an identifier only with QoS > 0.\<close>

definition wf_publish :: "PublishPacket \<Rightarrow> bool" where
  "wf_publish pp \<longleftrightarrow> pp_QoS pp < 4 \<and> \<not> pp_Retain pp \<and> (pp_QoS pp = 0 \<longrightarrow> pp_PacketID pp = 0)
     \<and> length (pp_TopicName pp) < 65536
     \<and> length (pp_TopicName pp) + length (pp_Payload pp) + 4 < 268435456"

definition publish_frame :: "PublishPacket \<Rightarrow> bytes" where
  "publish_frame pp =
     WritePublish (pp_TopicName pp) (pp_Payload pp) (pp_QoS pp) (pp_PacketID pp) (pp_Dup pp)"

lemma qos_cases:
  fixes q :: byte
  assumes "q < 4"
  shows "q = 0 \<or> q = 1 \<or> q = 2 \<or> q = 3"
proof -
  have "unat q < 4" using assms by (simp add: word_less_nat_alt)
  then have "unat q = 0 \<or> unat q = 1 \<or> unat q = 2 \<or> unat q = 3" by linarith
  then show ?thesis by (simp add: word_unat_eq_iff)
qed

text \<open>The flags in the first byte of a PUBLISH frame, for each QoS and DUP.\<close>

lemma publish_flags:
  fixes q :: byte and dup :: bool
  assumes "q < 4"
  defines "h \<equiv> push_bit 4 3 OR (push_bit 1 q OR (if dup then 0x08 else 0))"
  shows "drop_bit 4 h = 3" "((h AND 0x0F) AND 0x08 \<noteq> 0) = dup"
    "drop_bit 1 (h AND 0x0F) AND 0x03 = q" "(h AND 0x0F) AND 0x01 = 0"
proof -
  have "unat q < 4" using assms(1) by (simp add: word_less_nat_alt)
  then have "unat q = 0 \<or> unat q = 1 \<or> unat q = 2 \<or> unat q = 3" by linarith
  then have "q = 0 \<or> q = 1 \<or> q = 2 \<or> q = 3"
    by (simp add: word_unat_eq_iff)
  then show "drop_bit 4 h = 3" "((h AND 0x0F) AND 0x08 \<noteq> 0) = dup"
    "drop_bit 1 (h AND 0x0F) AND 0x03 = q" "(h AND 0x0F) AND 0x01 = 0"
    unfolding h_def by (auto split: if_splits)
qed

lemma parsePublish_body:
  assumes "wf_publish pp"
    and "(f AND 0x08 \<noteq> 0) = pp_Dup pp" "drop_bit 1 f AND 0x03 = pp_QoS pp" "f AND 0x01 = 0"
  defines "vh \<equiv> encodeString (pp_TopicName pp)
      @ (if 0 < pp_QoS pp then packet_id_bytes (pp_PacketID pp) else [])"
  shows "parsePublish f (vh @ pp_Payload pp) = Inr pp"
proof -
  have t: "length (pp_TopicName pp) < 65536"
    using assms(1) by (auto simp: wf_publish_def)
  have rd: "readString (vh @ pp_Payload pp) 0 = Inr (pp_TopicName pp, 2 + length (pp_TopicName pp))"
    using str.rd_front [OF t] by (simp add: vh_def)
  show ?thesis
  proof (cases "0 < pp_QoS pp")
    case True
    with assms show ?thesis
      unfolding parsePublish_def Let_def rd
      by (cases pp) (simp add: go_simps wf_publish_def)
  next
    case False
    with assms show ?thesis
      unfolding parsePublish_def Let_def rd
      by (cases pp) (simp add: go_simps wf_publish_def word_gt_0)
  qed
qed

lemma ReadPacket_publish_frame:
  assumes "wf_publish pp"
  shows "ReadPacket (publish_frame pp @ rest)
    = Inr ((new_packet TypePublish)\<lparr>pkt_Publish := Some pp\<rparr>, rest)"
proof -
  let ?vh = "encodeString (pp_TopicName pp)
      @ (if 0 < pp_QoS pp then packet_id_bytes (pp_PacketID pp) else [])"
  let ?h = "push_bit 4 3 OR (push_bit 1 (pp_QoS pp) OR (if pp_Dup pp then 0x08 else 0)) :: byte"
  have q: "pp_QoS pp < 4" and len: "length (?vh @ pp_Payload pp) < 268435456"
    using assms by (auto simp: wf_publish_def)
  have "publish_frame pp @ rest
      = ?h # encodeRemainingLength (length (?vh @ pp_Payload pp)) @ (?vh @ pp_Payload pp) @ rest"
    by (simp add: publish_frame_def WritePublish_def Let_def)
  then show ?thesis
    using parsePublish_body [OF assms publish_flags(2-4) [OF q, of "pp_Dup pp"]]
      publish_flags(1) [OF q, of "pp_Dup pp"]
    by (simp only: ReadPacket_frame [OF len]) (simp add: parsePacket_def Let_def)
qed

interpretation publish: stream_codec publish_frame
  "\<lambda>r. rbind (ReadPacket r) (\<lambda>(pkt, r').
     case pkt_Publish pkt of Some pp \<Rightarrow> Inr (pp, r') | None \<Rightarrow> Inl (Err ''not a PUBLISH''))"
  wf_publish
  by unfold_locales (simp add: ReadPacket_publish_frame new_packet_def)

lemma ReadPacket_pubAck_frame:
  "ReadPacket (WritePubAck p @ rest)
    = Inr ((new_packet TypePubAck)\<lparr>pkt_PubAck := Some \<lparr>pa_PacketID = p\<rparr>\<rparr>, rest)"
  using ReadPacket_frame [of "packet_id_bytes p" "0x40" rest]
  by (simp add: WritePubAck_def parsePacket_def Let_def encodeRemainingLength_small go_simps)

section \<open>SUBSCRIBE and UNSUBSCRIBE bodies\<close>

definition filter_field :: "TopicFilter \<Rightarrow> bytes" where
  "filter_field tf = encodeString (tf_Filter tf) @ [tf_QoS tf]"

definition wf_filter :: "TopicFilter \<Rightarrow> bool" where
  "wf_filter tf \<longleftrightarrow> length (tf_Filter tf) < 65536 \<and> tf_QoS tf AND 0x03 = tf_QoS tf"

lemma readTopicFilter_at:
  assumes "wf_filter tf"
  shows "readTopicFilter (pre @ filter_field tf @ post) (length pre)
    = Inr (tf, length pre + length (filter_field tf))"
proof -
  have "readString (pre @ encodeString (tf_Filter tf) @ (tf_QoS tf # post)) (length pre)
      = Inr (tf_Filter tf, length pre + (2 + length (tf_Filter tf)))"
    using assms str.rd_at [of "tf_Filter tf"] by (simp add: wf_filter_def)
  moreover have "(pre @ encodeString (tf_Filter tf) @ tf_QoS tf # post)
      ! (length pre + (2 + length (tf_Filter tf))) = tf_QoS tf"
    by (simp add: nth_append)
  ultimately show ?thesis
    using assms by (cases tf) (simp add: readTopicFilter_def filter_field_def go_simps wf_filter_def)
qed

interpretation filters: field_loop filter_field readTopicFilter wf_filter parseSubscribe_loop
proof unfold_locales
  fix tf pre post
  show "wf_filter tf \<Longrightarrow> readTopicFilter (pre @ filter_field tf @ post) (length pre)
      = Inr (tf, length pre + length (filter_field tf))"
    by (rule readTopicFilter_at)
qed (auto simp: parseSubscribe_loop.simps filter_field_def)

interpretation names: field_loop encodeString
  "\<lambda>b pos. wrap_res ''UNSUBSCRIBE: topic filter'' (readString b pos)"
  "\<lambda>s. length s < 65536" parseUnsubscribe_loop
proof unfold_locales
  show "length s < 65536 \<Longrightarrow> encodeString s \<noteq> []" for s
    by (simp add: encodeString_def Let_def)
qed (auto simp: str.rd_at parseUnsubscribe_loop.simps)

lemma parseSubscribe_body:
  assumes "list_all wf_filter ts"
  shows "parseSubscribe (packet_id_bytes p @ concat (map filter_field ts))
    = Inr \<lparr>sp_PacketID = p, sp_Topics = ts\<rparr>"
  using filters.loop_reads [OF assms, of 2 "packet_id_bytes p" "[]"]
  by (simp add: parseSubscribe_def go_simps)

lemma parseUnsubscribe_body:
  assumes "list_all (\<lambda>s. length s < 65536) ts"
  shows "parseUnsubscribe (packet_id_bytes p @ concat (map encodeString ts))
    = Inr \<lparr>up_PacketID = p, up_Topics = ts\<rparr>"
  using names.loop_reads [OF assms, of 2 "packet_id_bytes p" "[]"]
  by (simp add: parseUnsubscribe_def go_simps)

section \<open>Lengths the reader refuses\<close>

lemma readRemainingLength_loop_overflow:
  assumes "2 ^ (28 - shift) \<le> n" "shift \<in> {0, 7, 14, 21}"
  shows "readRemainingLength_loop (encodeRemainingLength n @ r) len shift
    = Inl (Err ''remaining length: overflow (more than 4 bytes)'')"
  using assms
proof (induction n arbitrary: len shift rule: encodeRemainingLength.induct)
  case (1 n)
  have big: "\<not> n < 128" using "1.prems" by auto
  note byte = length_byte [of "n mod 128"]
  show ?case
  proof (cases "shift = 21")
    case True
    then show ?thesis using byte by (simp add: encodeRemainingLength_big [OF big])
  next
    case False
    with "1.prems" have "2 ^ (28 - (shift + 7)) \<le> n div 128" "shift + 7 \<in> {0, 7, 14, 21}"
      by auto
    with "1.IH" big have "readRemainingLength_loop (encodeRemainingLength (n div 128) @ r) len' (shift + 7)
        = Inl (Err ''remaining length: overflow (more than 4 bytes)'')" for len'
      by (simp add: drop_bit_eq_div div_greater_zero_iff)
    with False "1.prems" byte show ?thesis
      by (auto simp: encodeRemainingLength_big [OF big] Let_def)
  qed
qed

lemma length_encodeRemainingLength:
  "0 < k \<Longrightarrow> n < 128 ^ k \<Longrightarrow> length (encodeRemainingLength n) \<le> k"
proof (induction k arbitrary: n)
  case 0
  then show ?case by simp
next
  case (Suc k)
  show ?case
  proof (cases "n < 128")
    case True
    then show ?thesis by (simp add: encodeRemainingLength_small)
  next
    case False
    with Suc.prems have "0 < k" "n div 128 < 128 ^ k"
      by (auto simp: less_mult_imp_div_less mult.commute intro: gr0I)
    with Suc.IH False show ?thesis by (simp add: encodeRemainingLength_big)
  qed
qed

lemma length_encodeRemainingLength_lower:
  "128 ^ k \<le> n \<Longrightarrow> k < length (encodeRemainingLength n)"
proof (induction k arbitrary: n)
  case 0
  then show ?case by (subst encodeRemainingLength.simps) (simp add: Let_def)
next
  case (Suc k)
  have "(128 :: nat) \<le> 128 ^ Suc k" by (rule self_le_power) simp_all
  with Suc.prems have "\<not> n < 128" by linarith
  moreover have "128 ^ k \<le> n div 128"
    using Suc.prems by (simp add: less_eq_div_iff_mult_less_eq mult.commute)
  ultimately show ?case
    using Suc.IH by (simp add: encodeRemainingLength_big)
qed

section \<open>Properties\<close>

text \<open>
  What the broker's length decoder makes of the broker's own length encoder,
  for every length. Up to \<open>2^28 - 1\<close>, the largest length MQTT allows, the encoding is at most
  four bytes and reads back exactly, leaving the rest of the stream; a larger length is always
  refused with the overflow error and never read as a different length.
\<close>
theorem remaining_length_total:
  "readRemainingLength (encodeRemainingLength n @ r) =
     (if n < 2 ^ 28 then Inr (n, r)
      else Inl (Err ''remaining length: overflow (more than 4 bytes)''))
   \<and> (length (encodeRemainingLength n) \<le> 4 \<longleftrightarrow> n < 2 ^ 28)"
proof (cases "n < 2 ^ 28")
  case True
  then show ?thesis
    using readRemainingLength_encode [of n r] length_encodeRemainingLength [of 4 n] by simp
next
  case False
  then have "readRemainingLength (encodeRemainingLength n @ r)
      = Inl (Err ''remaining length: overflow (more than 4 bytes)'')"
    unfolding readRemainingLength_def by (intro readRemainingLength_loop_overflow) auto
  with False show ?thesis
    using length_encodeRemainingLength_lower [of 4 n] by simp
qed

text \<open>
  C34 (round trip): a connection that carries PUBLISH frames written by \<open>WritePublish\<close> is read
  back by \<open>ReadPacket\<close> frame by frame: the same packets in the same order, with topic, payload,
  QoS, identifier and DUP flag intact, and the bytes after the last frame untouched.
\<close>
theorem publish_stream_roundtrip:
  assumes "list_all wf_publish pps"
  shows "read_n ReadPacket (length pps) (concat (map publish_frame pps) @ rest)
    = Inr (map (\<lambda>pp. (new_packet TypePublish)\<lparr>pkt_Publish := Some pp\<rparr>) pps, rest)"
  using assms by (induction pps) (auto simp: ReadPacket_publish_frame)

theorem publish_stream_roundtrip_witness:
  "let p = \<lparr>pp_TopicName = ''a/b'', pp_PacketID = 513, pp_QoS = 1, pp_Retain = False,
            pp_Dup = True, pp_Payload = [1, 2, 3]\<rparr>;
       q = \<lparr>pp_TopicName = ''t'', pp_PacketID = 0, pp_QoS = 0, pp_Retain = False,
            pp_Dup = False, pp_Payload = []\<rparr>
   in publish_frame p = [0x3A, 10, 0, 3, 97, 47, 98, 2, 1, 1, 2, 3]
    \<and> read_n ReadPacket 2 (publish_frame p @ publish_frame q @ [7])
      = Inr ([(new_packet 3)\<lparr>pkt_Publish := Some p\<rparr>, (new_packet 3)\<lparr>pkt_Publish := Some q\<rparr>], [7])"
proof -
  let ?p = "\<lparr>pp_TopicName = ''a/b'', pp_PacketID = 513, pp_QoS = 1, pp_Retain = False,
      pp_Dup = True, pp_Payload = [1, 2, 3]\<rparr>"
  let ?q = "\<lparr>pp_TopicName = ''t'', pp_PacketID = 0, pp_QoS = 0, pp_Retain = False,
      pp_Dup = False, pp_Payload = []\<rparr>"
  have "publish_frame ?p = [0x3A, 10, 0, 3, 97, 47, 98, 2, 1, 1, 2, 3]"
    by (simp add: publish_frame_def WritePublish_def encodeString_def packet_id_bytes_def bytes_of_def
        encodeRemainingLength_small Let_def drop_bit_eq_div)
  moreover have "list_all wf_publish [?p, ?q]"
    by (simp add: wf_publish_def)
  ultimately show ?thesis
    using publish_stream_roundtrip [of "[?p, ?q]" "[7]"] by (simp add: Let_def numeral_2_eq_2)
qed

text \<open>
  Whatever bytes a client sends, the packet reader never panics, and each packet
  it returns takes bytes off the stream, so a session's read loop ends with the stream.
\<close>
theorem packet_reader_safe:
  "panic_free (ReadPacket r) \<and> (\<forall>pkt r'. ReadPacket r = Inr (pkt, r') \<longrightarrow> length r' < length r)"
  by (simp add: panic_free_ReadPacket ReadPacket_consumes)

theorem packet_reader_safe_witness:
  "ReadPacket [0xC0, 0, 5] = Inr (new_packet 12, [5]) \<and> length [5 :: byte] < length [0xC0, 0, 5 :: byte]"
proof -
  have "ReadPacket [0xC0, 0, 5] = Inr (new_packet 12, [5])"
    by (simp add: ReadPacket_def io_ReadFull_def go_simps readRemainingLength_def parsePacket_def Let_def)
  with packet_reader_safe [of "[0xC0, 0, 5]"] show ?thesis by blast
qed

text \<open>
  The body loops of SUBSCRIBE and UNSUBSCRIBE return exactly the filters (with
  their QoS) and names that were encoded, in order, for any number of them.
\<close>
theorem subscription_bodies_roundtrip:
  assumes "list_all wf_filter ts" "list_all (\<lambda>s. length s < 65536) ns"
  shows "parseSubscribe (packet_id_bytes p @ concat (map filter_field ts))
      = Inr \<lparr>sp_PacketID = p, sp_Topics = ts\<rparr>
    \<and> parseUnsubscribe (packet_id_bytes p @ concat (map encodeString ns))
      = Inr \<lparr>up_PacketID = p, up_Topics = ns\<rparr>"
  using parseSubscribe_body [OF assms(1)] parseUnsubscribe_body [OF assms(2)] by blast

theorem subscription_bodies_roundtrip_witness:
  "parseSubscribe [0, 9, 0, 1, 97, 1, 0, 2, 98, 99, 0] =
     Inr \<lparr>sp_PacketID = 9, sp_Topics = [\<lparr>tf_Filter = ''a'', tf_QoS = 1\<rparr>, \<lparr>tf_Filter = ''bc'', tf_QoS = 0\<rparr>]\<rparr>
   \<and> parseUnsubscribe [0, 9, 0, 1, 97, 0, 2, 98, 99] = Inr \<lparr>up_PacketID = 9, up_Topics = [''a'', ''bc'']\<rparr>"
  using subscription_bodies_roundtrip [of "[\<lparr>tf_Filter = ''a'', tf_QoS = 1\<rparr>, \<lparr>tf_Filter = ''bc'', tf_QoS = 0\<rparr>]"
      "[''a'', ''bc'']" 9]
  by (simp add: wf_filter_def filter_field_def encodeString_def packet_id_bytes_def bytes_of_def
      Let_def drop_bit_eq_div)

end
