(* ===== verification/Session.thy ===== *)
theory Session
  imports Server Packet
begin

text \<open>
  One MQTT session (\<^verbatim>\<open>core/transport/mqtt/session.go\<close>): the handlers of the client's packets, the
  delivery of messages with acknowledgements, and the retransmission timer. A handler takes
  the session and the server and returns its error, if any, and both; a mutex makes each of
  the code's critical sections one step. A result \<open>None\<close> of an operation means that it never
  returns (the search for a free packet id can run forever).
\<close>

section \<open>Model\<close>

definition catchUpLimit :: int where
  "catchUpLimit = 500"

definition retransmitTimeout :: int where
  "retransmitTimeout = 10 * 1000000000"

text \<open>
  The connection: the frames written, the number of writes tried, what the network makes of
  each write, and whether it was closed.
\<close>

record conn =
  cn_out :: "bytes list"
  cn_tries :: nat
  cn_net :: "nat \<Rightarrow> go_error option"
  cn_closed :: bool

definition conn_Write :: "bytes \<Rightarrow> conn \<Rightarrow> go_error option \<times> conn" where
  "conn_Write b c =
     (let c' = c\<lparr>cn_tries := Suc (cn_tries c)\<rparr> in
      case (if cn_closed c then Some (Err ''use of closed network connection'') else cn_net c (cn_tries c)) of
        Some e \<Rightarrow> (Some e, c')
      | None \<Rightarrow> (None, c'\<lparr>cn_out := cn_out c @ [b]\<rparr>))"

text \<open>The pointer to the topic is the topic's name in the registry.\<close>

record inflightMsg =
  if_topicName :: string
  if_seq :: u64
  if_wire :: bytes
  if_qos :: byte
  if_sentAt :: gotime
  if_topicRef :: string

text \<open>
  \<open>s_subs\<close> maps a filter to its unsubscribe function, that is to the channel address in the
  topic of that name. \<open>s_live\<close> lists the delivery goroutines: topic, channel, QoS.
\<close>

record session =
  s_addr :: nat
  s_conn :: conn
  s_remote :: string
  s_clientID :: string
  s_user :: "User option"
  s_subs :: "string \<rightharpoonup> nat"
  s_subQoS :: "string \<rightharpoonup> byte"
  s_inflight :: "u16 \<rightharpoonup> inflightMsg"
  s_nextPktID :: u16
  s_live :: "(string \<times> nat \<times> byte) list"

definition newSession :: "nat \<Rightarrow> conn \<Rightarrow> string \<Rightarrow> session" where
  "newSession a c remote =
     \<lparr>s_addr = a, s_conn = c, s_remote = remote, s_clientID = '''', s_user = None,
      s_subs = Map.empty, s_subQoS = Map.empty, s_inflight = Map.empty, s_nextPktID = 1, s_live = []\<rparr>"

definition session_Close :: "session \<Rightarrow> session" where
  "session_Close s = s\<lparr>s_conn := (s_conn s)\<lparr>cn_closed := True\<rparr>\<rparr>"

text \<open>\<open>write\<close> around one of the packet writers, which wrap the error with their message.\<close>

definition session_write :: "string \<Rightarrow> bytes \<Rightarrow> session \<Rightarrow> go_error option \<times> session" where
  "session_write msg frame s =
     (case conn_Write frame (s_conn s) of (err, c) \<Rightarrow> (map_option (Wrap msg) err, s\<lparr>s_conn := c\<rparr>))"

partial_function (option) alloc_loop :: "(u16 \<rightharpoonup> inflightMsg) \<Rightarrow> u16 \<Rightarrow> (u16 \<times> u16) option" where
  "alloc_loop inflight next =
     (let next' = (if next + 1 = 0 then 1 else next + 1) in
      case inflight next of
        None \<Rightarrow> Some (next, next')
      | Some _ \<Rightarrow> alloc_loop inflight next')"

definition allocPacketID :: "session \<Rightarrow> (u16 \<times> session) option" where
  "allocPacketID s =
     (case alloc_loop (s_inflight s) (s_nextPktID s) of
        None \<Rightarrow> None
      | Some (pid, next) \<Rightarrow> Some (pid, s\<lparr>s_nextPktID := next\<rparr>))"

text \<open>
  What the environment supplies during a handler: the readings of the clock (for time stamps,
  in \<open>Check\<close>, in its database look-up, in \<open>Remember\<close>), fresh UUIDs, and what opening a
  directory returns.
\<close>

record 'd inputs =
  in_now :: gotime
  in_check :: gotime
  in_load :: gotime
  in_remember :: gotime
  in_newV7 :: uuid
  in_serverV7 :: uuid
  in_opened :: "path \<Rightarrow> 'd res"

definition handleConnect :: "(bytes \<Rightarrow> bytes \<Rightarrow> bool) \<Rightarrow> ConnectPacket \<Rightarrow> session \<Rightarrow> 'd Server
    \<Rightarrow> go_error option \<times> session \<times> 'd Server" where
  "handleConnect bcrypt cp s srv =
     (let s = s\<lparr>s_clientID := (if cp_ClientID cp = '''' then ''auto-'' @ s_remote s else cp_ClientID cp)\<rparr>;
          accept = (\<lambda>s.
            let username = (case s_user s of None \<Rightarrow> cp_Username cp | Some u \<Rightarrow> u_Name u);
                srv = updateSessionIdentity (s_addr s) (s_clientID s) username srv in
            case session_write ''write CONNACK'' (WriteConnAck False ConnAccepted) s of (err, s) \<Rightarrow> (err, s, srv))
      in if srv_authReq srv \<and> srv_auth srv \<noteq> None
         then (case Authenticate bcrypt (srv_auth srv) (cp_Username cp) (cp_Password cp) of
                 (u, True) \<Rightarrow> accept (s\<lparr>s_user := u\<rparr>)
               | (_, False) \<Rightarrow>
                   (Some (Errorf ''auth failed for user %q'' [FStr (cp_Username cp)]),
                    snd (session_write ''write CONNACK'' (WriteConnAck False ConnRefusedBadCredentials) s), srv))
         else accept s)"

definition puback_if :: "PublishPacket \<Rightarrow> session \<Rightarrow> go_error option \<times> session" where
  "puback_if pp s = (if pp_QoS pp = 1 then session_write ''write PUBACK'' (WritePubAck (pp_PacketID pp)) s else (None, s))"

text \<open>The envelope a publish carries, or a new one around a bare payload.\<close>

definition publish_env :: "'d inputs \<Rightarrow> PublishPacket \<Rightarrow> Envelope" where
  "publish_env inp pp =
     (case Decode (pp_Payload pp) of
        Inr env \<Rightarrow> env
      | Inl _ \<Rightarrow> NewPublish (in_newV7 inp) (in_now inp) uuid_Nil (pp_Payload pp))"

definition handlePublish :: "'d engine \<Rightarrow> 'd inputs \<Rightarrow> PublishPacket \<Rightarrow> session \<Rightarrow> 'd Server
    \<Rightarrow> go_error option \<times> session \<times> 'd Server" where
  "handlePublish E inp pp s srv =
     (if (case s_user s of None \<Rightarrow> False | Some u \<Rightarrow> \<not> CanPublish u (pp_TopicName pp))
      then (Some (Errorf ''publish denied for topic %q'' [FStr (pp_TopicName pp)]), s, srv)
      else let env = publish_env inp pp in
      case GetOrCreate E (in_opened inp) (pp_TopicName pp) (srv_registry srv) of
        (Inl err, reg) \<Rightarrow>
          (Some (wrapf_error ''get topic %q: %w'' [FStr (pp_TopicName pp)] err), s, srv\<lparr>srv_registry := reg\<rparr>)
      | (Inr t, reg) \<Rightarrow>
          let srv = srv\<lparr>srv_registry := reg\<rparr>;
              looked = map_option (Check E (in_check inp) (in_load inp) (env_IdempotencyID env)) (srv_dedup srv);
              srv = srv\<lparr>srv_dedup := map_option snd looked\<rparr> in
          if (case looked of Some (Some _, _) \<Rightarrow> True | _ \<Rightarrow> False)
          then (case puback_if pp s of (err, s) \<Rightarrow> (err, s, srv))
          else case Publish E (in_serverV7 inp) env t of
            (Inl err, t') \<Rightarrow>
              (Some (wrapf_error ''publish to topic %q: %w'' [FStr (pp_TopicName pp)] err), s,
               put_topic (pp_TopicName pp) t' srv)
          | (Inr result, t') \<Rightarrow>
              let srv = put_topic (pp_TopicName pp) t' srv;
                  srv = srv\<lparr>srv_dedup := map_option (Remember E (in_remember inp) (env_IdempotencyID env)
                          (m_ServerMsgID (pr_Msg result)) (m_Seq (pr_Msg result))) (srv_dedup srv)\<rparr> in
              case puback_if pp s of (err, s) \<Rightarrow> (err, s, srv))"

text \<open>Delivery of one message to this client; \<open>n\<close> is the topic it comes from.\<close>

definition delivery_wire :: "'d inputs \<Rightarrow> Message \<Rightarrow> bytes" where
  "delivery_wire inp m =
     (if m_RawWire m = []
      then Encode (WithServerMsgID (NewPublish (in_newV7 inp) (in_now inp) (m_IdempotencyID m) (m_Payload m)) (m_ServerMsgID m))
      else m_RawWire m)"

definition deliverMessage :: "'d engine \<Rightarrow> 'd inputs \<Rightarrow> string \<Rightarrow> Message \<Rightarrow> byte \<Rightarrow> session \<Rightarrow> 'd Server
    \<Rightarrow> (go_error option \<times> session \<times> 'd Server) option" where
  "deliverMessage E inp n m qos s srv =
     (let wire = delivery_wire inp m in
      if qos = 1
      then case allocPacketID s of
             None \<Rightarrow> None
           | Some (pid, s) \<Rightarrow>
               let s = s\<lparr>s_inflight := (s_inflight s)(pid \<mapsto>
                     \<lparr>if_topicName = m_Topic m, if_seq = m_Seq m, if_wire = wire, if_qos = 1,
                      if_sentAt = in_now inp, if_topicRef = n\<rparr>)\<rparr> in
               (case session_write ''write PUBLISH'' (WritePublish (m_Topic m) wire 1 pid False) s of
                  (err, s) \<Rightarrow> Some (err, s, srv))
      else case session_write ''write PUBLISH'' (WritePublish (m_Topic m) wire 0 0 False) s of
             (Some err, s) \<Rightarrow> Some (Some err, s, srv)
           | (None, s) \<Rightarrow>
               Some (None, s,
                 (case topic_at srv n of
                    None \<Rightarrow> srv
                  | Some t \<Rightarrow> put_topic n (topic_setOffset E (s_clientID s) (m_Seq m) t) srv)))"

subsection \<open>Subscribing\<close>

record pending =
  pd_topic :: string
  pd_ch :: nat
  pd_catchUp :: "Message list"
  pd_qos :: byte

definition syncSessionTopics :: "session \<Rightarrow> 'd Server \<Rightarrow> 'd Server" where
  "syncSessionTopics s srv = updateSessionTopics (s_addr s) (dom (s_subs s)) srv"

definition unsub_topic :: "string \<Rightarrow> nat \<Rightarrow> 'd Server \<Rightarrow> 'd Server" where
  "unsub_topic n a srv = (case topic_at srv n of None \<Rightarrow> srv | Some t \<Rightarrow> put_topic n (unsub a t) srv)"

definition catch_up_messages :: "'d engine \<Rightarrow> string \<Rightarrow> 'd Topic \<Rightarrow> Message list" where
  "catch_up_messages E clientID t =
     (let offset = offsets_Get (t_offsets t) clientID in
      if offset < t_seq t
      then (case GetMessages E t (offset + 1) catchUpLimit of Inl _ \<Rightarrow> [] | Inr ms \<Rightarrow> ms)
      else [])"

text \<open>The body of the first loop for a filter the user may subscribe to and whose topic is \<open>t\<close>.\<close>

definition subscribe_topic :: "'d engine \<Rightarrow> TopicFilter \<Rightarrow> 'd Topic \<Rightarrow> session \<Rightarrow> 'd Server
    \<Rightarrow> pending \<times> session \<times> 'd Server" where
  "subscribe_topic E tf t s srv =
     (let flt = tf_Filter tf;
          (ch, t) = Subscribe t;
          srv = put_topic flt t srv;
          qos = (if 1 < tf_QoS tf then 1 else tf_QoS tf);
          srv = (case s_subs s flt of Some old \<Rightarrow> unsub_topic flt old srv | None \<Rightarrow> srv);
          s = s\<lparr>s_subs := (s_subs s)(flt \<mapsto> ch), s_subQoS := (s_subQoS s)(flt \<mapsto> qos)\<rparr> in
      (\<lparr>pd_topic = flt, pd_ch = ch, pd_catchUp = catch_up_messages E (s_clientID s) t, pd_qos = qos\<rparr>, s, srv))"

fun subscribe_loop :: "'d engine \<Rightarrow> 'd inputs \<Rightarrow> TopicFilter list \<Rightarrow> bytes \<Rightarrow> pending list \<Rightarrow> session \<Rightarrow> 'd Server
    \<Rightarrow> (bytes \<times> pending list) res \<times> session \<times> 'd Server" where
  "subscribe_loop E inp [] codes ps s srv = (Inr (codes, ps), s, srv)"
| "subscribe_loop E inp (tf # tfs) codes ps s srv =
     (if (case s_user s of None \<Rightarrow> False | Some u \<Rightarrow> \<not> CanSubscribe u (tf_Filter tf))
      then subscribe_loop E inp tfs (codes @ [0x80]) ps s srv
      else case GetOrCreate E (in_opened inp) (tf_Filter tf) (srv_registry srv) of
        (Inl err, reg) \<Rightarrow>
          (Inl (wrapf_error ''get topic %q: %w'' [FStr (tf_Filter tf)] err), s, srv\<lparr>srv_registry := reg\<rparr>)
      | (Inr t, reg) \<Rightarrow>
          (case subscribe_topic E tf t s (srv\<lparr>srv_registry := reg\<rparr>) of
             (p, s, srv) \<Rightarrow> subscribe_loop E inp tfs (codes @ [pd_qos p]) (ps @ [p]) s srv))"

fun deliver_all :: "'d engine \<Rightarrow> 'd inputs \<Rightarrow> string \<Rightarrow> byte \<Rightarrow> Message list \<Rightarrow> session \<Rightarrow> 'd Server
    \<Rightarrow> (go_error option \<times> session \<times> 'd Server) option" where
  "deliver_all E inp n qos [] s srv = Some (None, s, srv)"
| "deliver_all E inp n qos (m # ms) s srv =
     (case deliverMessage E inp n m qos s srv of
        None \<Rightarrow> None
      | Some (Some err, s, srv) \<Rightarrow> Some (Some err, s, srv)
      | Some (None, s, srv) \<Rightarrow> deliver_all E inp n qos ms s srv)"

fun deliver_pendings :: "'d engine \<Rightarrow> 'd inputs \<Rightarrow> pending list \<Rightarrow> session \<Rightarrow> 'd Server
    \<Rightarrow> (go_error option \<times> session \<times> 'd Server) option" where
  "deliver_pendings E inp [] s srv = Some (None, s, srv)"
| "deliver_pendings E inp (p # ps) s srv =
     (case deliver_all E inp (pd_topic p) (pd_qos p) (pd_catchUp p) s srv of
        None \<Rightarrow> None
      | Some (Some err, s, srv) \<Rightarrow> Some (Some err, s, srv)
      | Some (None, s, srv) \<Rightarrow> deliver_pendings E inp ps s srv)"

definition handleSubscribe :: "'d engine \<Rightarrow> 'd inputs \<Rightarrow> SubscribePacket \<Rightarrow> session \<Rightarrow> 'd Server
    \<Rightarrow> (go_error option \<times> session \<times> 'd Server) option" where
  "handleSubscribe E inp sp s srv =
     (case subscribe_loop E inp (sp_Topics sp) [] [] s srv of
        (Inl err, s, srv) \<Rightarrow> Some (Some err, s, srv)
      | (Inr (codes, ps), s, srv) \<Rightarrow>
          (case session_write ''write SUBACK'' (WriteSubAck (sp_PacketID sp) codes) s of
             (Some err, s) \<Rightarrow> Some (Some err, s, srv)
           | (None, s) \<Rightarrow>
               (case deliver_pendings E inp ps s (syncSessionTopics s srv) of
                  None \<Rightarrow> None
                | Some (Some err, s, srv) \<Rightarrow> Some (Some err, s, srv)
                | Some (None, s, srv) \<Rightarrow>
                    Some (None, s\<lparr>s_live := s_live s @ map (\<lambda>p. (pd_topic p, pd_ch p, pd_qos p)) ps\<rparr>, srv))))"

text \<open>
  One round of a delivery goroutine: receive from the channel; a closed channel or a failed
  write ends it, a message at or below the client's offset is skipped.
\<close>

definition live_step :: "'d engine \<Rightarrow> 'd inputs \<Rightarrow> string \<times> nat \<times> byte \<Rightarrow> session \<Rightarrow> 'd Server
    \<Rightarrow> (session \<times> 'd Server) option" where
  "live_step E inp g s srv =
     (case g of (n, ch, qos) \<Rightarrow>
      case topic_at srv n of
        None \<Rightarrow> Some (s, srv)
      | Some t \<Rightarrow>
          (case chan_recv ch t of
             (Blocked, t') \<Rightarrow> Some (s, srv)
           | (Closed, t') \<Rightarrow> Some (s\<lparr>s_live := remove1 g (s_live s)\<rparr>, srv)
           | (Got m, t') \<Rightarrow>
               let srv = put_topic n t' srv in
               if m_Seq m \<le> offsets_Get (t_offsets t') (s_clientID s) then Some (s, srv)
               else (case deliverMessage E inp n m qos s srv of
                       None \<Rightarrow> None
                     | Some (Some err, s, srv) \<Rightarrow> Some (s\<lparr>s_live := remove1 g (s_live s)\<rparr>, srv)
                     | Some (None, s, srv) \<Rightarrow> Some (s, srv))))"

subsection \<open>Acknowledgements, retransmission, unsubscribing\<close>

definition handlePubAck :: "'d engine \<Rightarrow> PubAckPacket \<Rightarrow> session \<Rightarrow> 'd Server \<Rightarrow> go_error option \<times> session \<times> 'd Server" where
  "handlePubAck E pa s srv =
     (case s_inflight s (pa_PacketID pa) of
        None \<Rightarrow> (None, s, srv)
      | Some msg \<Rightarrow>
          (None, s\<lparr>s_inflight := (s_inflight s)(pa_PacketID pa := None)\<rparr>,
           (case topic_at srv (if_topicRef msg) of
              None \<Rightarrow> srv
            | Some t \<Rightarrow> put_topic (if_topicRef msg) (topic_setOffset E (s_clientID s) (if_seq msg) t) srv)))"

definition due :: "gotime \<Rightarrow> session \<Rightarrow> u16 \<Rightarrow> bool" where
  "due now s pid =
     (case s_inflight s pid of None \<Rightarrow> False | Some msg \<Rightarrow> retransmitTimeout \<le> now - if_sentAt msg)"

definition resend :: "gotime \<Rightarrow> u16 \<times> inflightMsg \<Rightarrow> session \<Rightarrow> session" where
  "resend now item s =
     (case item of (pid, msg) \<Rightarrow>
      case session_write ''write PUBLISH'' (WritePublish (if_topicName msg) (if_wire msg) (if_qos msg) pid True) s of
        (Some err, s) \<Rightarrow> s
      | (None, s) \<Rightarrow>
          (case s_inflight s pid of
             None \<Rightarrow> s
           | Some m \<Rightarrow> s\<lparr>s_inflight := (s_inflight s)(pid \<mapsto> m\<lparr>if_sentAt := now\<rparr>)\<rparr>))"

text \<open>
  One tick of \<open>retransmitLoop\<close> at time \<open>now\<close>. \<open>order\<close> is the order in which Go's map iteration
  visits the packet ids in flight; \<open>now2\<close> is the clock reading after a write.
\<close>

definition retransmit_tick :: "u16 list \<Rightarrow> gotime \<Rightarrow> gotime \<Rightarrow> session \<Rightarrow> session" where
  "retransmit_tick order now now2 s =
     fold (resend now2) (map (\<lambda>pid. (pid, the (s_inflight s pid))) (filter (due now s) order)) s"

fun unsubscribe_loop :: "string list \<Rightarrow> session \<Rightarrow> 'd Server \<Rightarrow> session \<times> 'd Server" where
  "unsubscribe_loop [] s srv = (s, srv)"
| "unsubscribe_loop (n # ns) s srv =
     (case s_subs s n of
        None \<Rightarrow> unsubscribe_loop ns s srv
      | Some a \<Rightarrow>
          unsubscribe_loop ns
            (s\<lparr>s_subs := (s_subs s)(n := None), s_subQoS := (s_subQoS s)(n := None)\<rparr>) (unsub_topic n a srv))"

definition handleUnsubscribe :: "UnsubscribePacket \<Rightarrow> session \<Rightarrow> 'd Server \<Rightarrow> go_error option \<times> session \<times> 'd Server" where
  "handleUnsubscribe up s srv =
     (case unsubscribe_loop (up_Topics up) s srv of
        (s, srv) \<Rightarrow>
          let srv = syncSessionTopics s srv in
          (case session_write ''write UNSUBACK'' (WriteUnsubAck (up_PacketID up)) s of (err, s) \<Rightarrow> (err, s, srv)))"

text \<open>The unsubscribe functions act on different topics, so the order of Go's map does not matter.\<close>

definition cleanupSubs :: "session \<Rightarrow> 'd Server \<Rightarrow> session \<times> 'd Server" where
  "cleanupSubs s srv =
     (let reg = srv_registry srv;
          srv = srv\<lparr>srv_registry := reg\<lparr>reg_topics := (\<lambda>n. case s_subs s n of
                  None \<Rightarrow> reg_topics reg n
                | Some a \<Rightarrow> map_option (unsub a) (reg_topics reg n))\<rparr>\<rparr>;
          s = s\<lparr>s_subs := Map.empty, s_subQoS := Map.empty\<rparr>;
          srv = syncSessionTopics s srv in
      (s\<lparr>s_inflight := Map.empty\<rparr>, srv))"

subsection \<open>The packet loop\<close>

definition nil_deref :: go_error where
  "nil_deref = Panic ''nil pointer dereference''"

definition dispatch :: "'d engine \<Rightarrow> 'd inputs \<Rightarrow> Packet \<Rightarrow> session \<Rightarrow> 'd Server
    \<Rightarrow> (go_error option \<times> session \<times> 'd Server) option" where
  "dispatch E inp pkt s srv =
     (if pkt_Type pkt = TypePublish
      then (case pkt_Publish pkt of None \<Rightarrow> Some (Some nil_deref, s, srv) | Some pp \<Rightarrow> Some (handlePublish E inp pp s srv))
      else if pkt_Type pkt = TypeSubscribe
      then (case pkt_Subscribe pkt of None \<Rightarrow> Some (Some nil_deref, s, srv) | Some sp \<Rightarrow> handleSubscribe E inp sp s srv)
      else if pkt_Type pkt = TypeUnsubscribe
      then (case pkt_Unsubscribe pkt of None \<Rightarrow> Some (Some nil_deref, s, srv) | Some up \<Rightarrow> Some (handleUnsubscribe up s srv))
      else if pkt_Type pkt = TypePubAck
      then (case pkt_PubAck pkt of None \<Rightarrow> Some (Some nil_deref, s, srv) | Some pa \<Rightarrow> Some (handlePubAck E pa s srv))
      else if pkt_Type pkt = TypePingReq
      then (case session_write ''write PINGRESP'' WritePingResp s of (err, s) \<Rightarrow> Some (err, s, srv))
      else if pkt_Type pkt = TypeDisconnect
      then Some (Some (Errorf ''client sent DISCONNECT'' []), s, srv)
      else Some (None, s, srv))"

text \<open>
  The loop of \<open>Handle\<close> on the bytes that arrive, until a read or a handler fails; \<open>inps\<close> are the
  inputs of its rounds. It stops without an error at the end of \<open>inps\<close> (the context is done).
\<close>

fun packet_loop :: "'d engine \<Rightarrow> 'd inputs list \<Rightarrow> bytes \<Rightarrow> session \<Rightarrow> 'd Server
    \<Rightarrow> (go_error option \<times> session \<times> 'd Server) option" where
  "packet_loop E [] r s srv = Some (None, s, srv)"
| "packet_loop E (inp # inps) r s srv =
     (case ReadPacket r of
        Inl err \<Rightarrow> Some (Some err, s, srv)
      | Inr (pkt, r') \<Rightarrow>
          (case dispatch E inp pkt s srv of
             None \<Rightarrow> None
           | Some (Some err, s, srv) \<Rightarrow> Some (Some err, s, srv)
           | Some (None, s, srv) \<Rightarrow> packet_loop E inps r' s srv))"

definition Handle :: "'d engine \<Rightarrow> (bytes \<Rightarrow> bytes \<Rightarrow> bool) \<Rightarrow> 'd inputs list \<Rightarrow> bytes \<Rightarrow> session \<Rightarrow> 'd Server
    \<Rightarrow> (session \<times> 'd Server) option" where
  "Handle E bcrypt inps r s srv =
     (let finish = (\<lambda>s srv. case cleanupSubs s srv of (s, srv) \<Rightarrow> Some (session_Close s, srv)) in
      case ReadPacket r of
        Inl err \<Rightarrow> finish s srv
      | Inr (pkt, r') \<Rightarrow>
          (case (if pkt_Type pkt = TypeConnect then pkt_Connect pkt else None) of
             None \<Rightarrow> finish s srv
           | Some cp \<Rightarrow>
               (case handleConnect bcrypt cp s srv of
                  (Some err, s, srv) \<Rightarrow> finish s srv
                | (None, s, srv) \<Rightarrow>
                    (case packet_loop E inps r' s srv of
                       None \<Rightarrow> None
                     | Some (_, s, srv) \<Rightarrow> finish s srv))))"

section \<open>Packet identifiers\<close>

definition succ_pid :: "u16 \<Rightarrow> u16" where
  "succ_pid p = (if p + 1 = 0 then 1 else p + 1)"

lemma alloc_loop_unfold:
  "alloc_loop infl p = (if infl p = None then Some (p, succ_pid p) else alloc_loop infl (succ_pid p))"
  by (subst alloc_loop.simps) (simp add: succ_pid_def Let_def split: option.splits)

lemma succ_pid_nonzero [simp]: "succ_pid p \<noteq> 0"
  by (simp add: succ_pid_def)

lemma unat_succ_pid: "unat (succ_pid p) = unat p mod 65535 + 1"
proof (cases "p + 1 = 0")
  case True
  then have "p = 65535" by (simp add: eq_neg_iff_add_eq_0 [symmetric])
  then show ?thesis by (simp add: succ_pid_def)
next
  case False
  then have "unat (p + 1) = unat p + 1" by (metis Suc_eq_plus1 add.commute unatSuc)
  moreover have "unat (p + 1) < 65536" using unsigned_less [of "p + 1", where 'a = nat] by simp
  ultimately show ?thesis using False by (simp add: succ_pid_def)
qed

text \<open>Stepping on from any id reaches every non-zero id within 65535 steps.\<close>

lemma unat_succ_pid_pow: "p \<noteq> 0 \<Longrightarrow> unat ((succ_pid ^^ k) p) = (unat p - 1 + k) mod 65535 + 1"
proof (induction k)
  case 0
  have "0 < unat p" "unat p < 65536"
    using 0 unsigned_less [of p, where 'a = nat] by (simp_all add: unat_gt_0)
  then show ?case by simp
next
  case (Suc k)
  then show ?case by (simp add: unat_succ_pid mod_Suc_eq)
qed

lemma reach_pid:
  assumes "p \<noteq> 0" "q \<noteq> 0"
  obtains k where "(succ_pid ^^ k) p = q"
proof -
  let ?k = "unat q + 65535 - unat p"
  have b: "0 < unat p" "0 < unat q" "unat p < 65536" "unat q < 65536"
    using assms unsigned_less [of p, where 'a = nat] unsigned_less [of q, where 'a = nat] by (simp_all add: unat_gt_0)
  then have "unat p - 1 + ?k = unat q - 1 + 65535" by linarith
  then have "unat ((succ_pid ^^ ?k) p) = (unat q - 1 + 65535) mod 65535 + 1"
    using unat_succ_pid_pow [OF assms(1), of ?k] by simp
  also have "\<dots> = unat q" using b by (subst mod_add_self2) simp
  finally show ?thesis using that word_eq_iff_unsigned by blast
qed

lemma alloc_loop_Some: "alloc_loop infl p = Some (q, nx) \<Longrightarrow> infl q = None \<and> nx = succ_pid q \<and> (p \<noteq> 0 \<longrightarrow> q \<noteq> 0)"
proof (induction p "(q, nx)" rule: alloc_loop.raw_induct [rotated, consumes 1])
  case (1 f p)
  then show ?case
    by (auto simp: Let_def succ_pid_def split: option.splits if_splits)
qed

lemma alloc_loop_finds:
  "infl ((succ_pid ^^ k) p) = None \<Longrightarrow> \<exists>r. alloc_loop infl p = Some r"
proof (induction k arbitrary: p)
  case 0
  then show ?case by (subst alloc_loop_unfold) simp
next
  case (Suc k)
  then show ?case by (subst alloc_loop_unfold) (auto simp: funpow_Suc_right simp del: funpow.simps)
qed

lemma alloc_loop_returns_iff:
  assumes "p \<noteq> 0"
  shows "(\<exists>r. alloc_loop infl p = Some r) \<longleftrightarrow> (\<exists>q. q \<noteq> 0 \<and> infl q = None)"
proof
  assume "\<exists>r. alloc_loop infl p = Some r"
  then obtain q nx where "alloc_loop infl p = Some (q, nx)" by auto
  from alloc_loop_Some [OF this] assms show "\<exists>q. q \<noteq> 0 \<and> infl q = None" by blast
next
  assume "\<exists>q. q \<noteq> 0 \<and> infl q = None"
  then obtain q where q: "q \<noteq> 0" "infl q = None" by blast
  obtain k where "(succ_pid ^^ k) p = q" using reach_pid [OF assms q(1)] .
  then show "\<exists>r. alloc_loop infl p = Some r"
    using alloc_loop_finds [of infl k p] q(2) by simp
qed

section \<open>What the handlers keep\<close>

definition server_inv :: "'d Server \<Rightarrow> bool" where
  "server_inv srv \<longleftrightarrow> registry_inv (srv_registry srv)"

lemma server_inv_topic: "server_inv srv \<Longrightarrow> topic_at srv n = Some t \<Longrightarrow> t_name t = n \<and> subs_inv t"
  by (simp add: server_inv_def registry_inv_def topics_inv_def)

lemma server_inv_put: "server_inv srv \<Longrightarrow> t_name t = n \<Longrightarrow> subs_inv t \<Longrightarrow> server_inv (put_topic n t srv)"
  by (simp add: server_inv_def registry_inv_def put_topic_def topics_inv_upd)

lemma server_inv_registry: "registry_inv reg \<Longrightarrow> server_inv (srv\<lparr>srv_registry := reg\<rparr>)"
  by (simp add: server_inv_def)

lemma server_inv_simps [simp]:
  "server_inv (srv\<lparr>srv_dedup := d\<rparr>) = server_inv srv"
  "server_inv (updateSessionTopics a ts srv) = server_inv srv"
  "server_inv (updateSessionIdentity a c u srv) = server_inv srv"
  "server_inv (syncSessionTopics s srv) = server_inv srv"
  by (simp_all add: server_inv_def syncSessionTopics_def)

lemma t_name_ops [simp]:
  "t_name (snd (Publish E v env t)) = t_name t" "t_name (unsub a t) = t_name t"
  "t_name (snd (Subscribe t)) = t_name t" "t_name (topic_setOffset E g v' t) = t_name t"
  "t_name (snd (chan_recv a t)) = t_name t"
  by (simp_all add: Publish_def unsub_def Subscribe_def topic_setOffset_def chan_recv_def Let_def
      split: prod.splits option.splits sum.splits list.splits)

lemma session_write_fields [simp]:
  "s_user (snd (session_write m f s)) = s_user s" "s_subs (snd (session_write m f s)) = s_subs s"
  "s_inflight (snd (session_write m f s)) = s_inflight s" "s_nextPktID (snd (session_write m f s)) = s_nextPktID s"
  "s_clientID (snd (session_write m f s)) = s_clientID s" "s_addr (snd (session_write m f s)) = s_addr s"
  "s_live (snd (session_write m f s)) = s_live s" "s_subQoS (snd (session_write m f s)) = s_subQoS s"
  by (simp_all add: session_write_def split: prod.splits)

lemma puback_if_error: "fst (puback_if pp s) = Some e \<Longrightarrow> \<exists>x. e = Wrap ''write PUBACK'' x"
  by (auto simp: puback_if_def session_write_def split: if_splits prod.splits)

text \<open>A handler that returns keeps the server's invariant and its error is never a panic.\<close>

definition well_behaved :: "go_error option \<times> session \<times> 'd Server \<Rightarrow> bool" where
  "well_behaved r \<longleftrightarrow> (case r of (err, s, srv) \<Rightarrow> server_inv srv \<and> (\<forall>p. err \<noteq> Some (Panic p)))"

lemma GetOrCreate_error_no_panic: "GetOrCreate E o' n r = (Inl e, r') \<Longrightarrow> \<exists>x. e = Wrapf ''registry: create topic %q'' [FStr n] x"
  by (auto simp: GetOrCreate_def Let_def split: option.splits prod.splits sum.splits)

lemma Publish_error_no_panic: "subs_inv t \<Longrightarrow> fst (Publish E v env t) = Inl e \<Longrightarrow> \<exists>x. e = Wrap ''publish: persist message'' x"
  by (auto simp: Publish_eq split: prod.splits option.splits)

lemma well_behaved_handlePublish:
  assumes "server_inv srv"
  shows "well_behaved (handlePublish E inp pp s srv)"
proof -
  let ?n = "pp_TopicName pp"
  obtain res reg where g: "GetOrCreate E (in_opened inp) ?n (srv_registry srv) = (res, reg)" by fastforce
  have reg: "registry_inv reg"
    using registry_inv_GetOrCreate(1) [of "srv_registry srv" E "in_opened inp" ?n] assms g by (simp add: server_inv_def)
  show ?thesis
  proof (cases res)
    case (Inl e)
    with g reg GetOrCreate_error_no_panic [of E "in_opened inp" ?n "srv_registry srv" e reg] assms show ?thesis
      by (auto simp: handlePublish_def well_behaved_def Let_def server_inv_registry split: option.splits)
  next
    case (Inr t)
    have t: "t_name t = ?n" "subs_inv t"
      using registry_inv_GetOrCreate(2) [of "srv_registry srv" E "in_opened inp" ?n t reg] assms g Inr
      by (auto simp: server_inv_def)
    obtain r t' where p: "Publish E (in_serverV7 inp) (publish_env inp pp) t = (r, t')" by fastforce
    have t': "t_name t' = ?n" "subs_inv t'"
      using t_name_ops(1) [of E "in_serverV7 inp" "publish_env inp pp" t] subs_inv_Publish [OF t(2), of E "in_serverV7 inp" "publish_env inp pp"] t p
      by simp_all
    have err: "\<And>e. r = Inl e \<Longrightarrow> \<exists>x. e = Wrap ''publish: persist message'' x"
      using Publish_error_no_panic [OF t(2), of E "in_serverV7 inp" "publish_env inp pp"] p by simp
    have ack: "\<forall>q. fst (puback_if pp s) \<noteq> Some (Panic q)"
      using puback_if_error by fastforce
    show ?thesis
      using g Inr p t' err ack reg assms
      by (auto simp: handlePublish_def well_behaved_def Let_def server_inv_put server_inv_registry split: prod.splits sum.splits)
  qed
qed

lemma session_write_no_panic: "session_write m f s = (err, s') \<Longrightarrow> err \<noteq> Some (Panic q)"
  by (auto simp: session_write_def split: prod.splits)

lemma server_inv_setOffset:
  "server_inv srv \<Longrightarrow> topic_at srv n = Some t \<Longrightarrow> server_inv (put_topic n (topic_setOffset E g v t) srv)"
  using server_inv_topic [of srv n t] by (intro server_inv_put) (simp_all add: subs_inv_setOffset)

lemma server_inv_unsub_topic: "server_inv srv \<Longrightarrow> server_inv (unsub_topic n a srv)"
  using server_inv_topic [of srv n]
  by (auto simp: unsub_topic_def subs_inv_unsub intro!: server_inv_put split: option.splits)

lemma well_behaved_deliverMessage:
  "server_inv srv \<Longrightarrow> deliverMessage E inp n m qos s srv = Some r \<Longrightarrow> well_behaved r"
  by (auto simp: deliverMessage_def well_behaved_def Let_def server_inv_setOffset
      dest: session_write_no_panic split: if_splits option.splits prod.splits)

lemma well_behaved_deliver_all:
  "server_inv srv \<Longrightarrow> deliver_all E inp n qos ms s srv = Some r \<Longrightarrow> well_behaved r"
proof (induction ms arbitrary: s srv)
  case Nil
  then show ?case by (auto simp: well_behaved_def)
next
  case (Cons m ms)
  then obtain err s1 srv1 where d: "deliverMessage E inp n m qos s srv = Some (err, s1, srv1)"
    by (cases "deliverMessage E inp n m qos s srv") auto
  from well_behaved_deliverMessage [OF Cons.prems(1) d] have wb: "well_behaved (err, s1, srv1)" .
  show ?case
  proof (cases err)
    case None
    with Cons.IH [of srv1 s1] Cons.prems(2) d wb show ?thesis by (simp add: well_behaved_def)
  qed (use Cons.prems(2) d wb in simp)
qed

lemma well_behaved_deliver_pendings:
  "server_inv srv \<Longrightarrow> deliver_pendings E inp ps s srv = Some r \<Longrightarrow> well_behaved r"
proof (induction ps arbitrary: s srv)
  case Nil
  then show ?case by (auto simp: well_behaved_def)
next
  case (Cons p ps)
  then obtain err s1 srv1 where d: "deliver_all E inp (pd_topic p) (pd_qos p) (pd_catchUp p) s srv = Some (err, s1, srv1)"
    by (cases "deliver_all E inp (pd_topic p) (pd_qos p) (pd_catchUp p) s srv") auto
  from well_behaved_deliver_all [OF Cons.prems(1) d] have wb: "well_behaved (err, s1, srv1)" .
  show ?case
  proof (cases err)
    case None
    with Cons.IH [of srv1 s1] Cons.prems(2) d wb show ?thesis by (simp add: well_behaved_def)
  qed (use Cons.prems(2) d wb in simp)
qed

lemma server_inv_subscribe_topic:
  assumes "server_inv srv" "t_name t = tf_Filter tf" "subs_inv t" "subscribe_topic E tf t s srv = (p, s', srv')"
  shows "server_inv srv'"
proof -
  have "server_inv (put_topic (tf_Filter tf) (snd (Subscribe t)) srv)"
    using assms(1-3) by (intro server_inv_put) (simp_all add: subs_inv_Subscribe)
  with assms(4) show ?thesis
    by (auto simp: subscribe_topic_def Let_def server_inv_unsub_topic split: prod.splits option.splits)
qed

lemma subscribe_loop_inv:
  "server_inv srv \<Longrightarrow> subscribe_loop E inp tfs codes ps s srv = (r, s', srv') \<Longrightarrow>
    server_inv srv' \<and> (\<forall>p. r \<noteq> Inl (Panic p))"
proof (induction tfs arbitrary: codes ps s srv)
  case (Cons tf tfs)
  obtain res reg where g: "GetOrCreate E (in_opened inp) (tf_Filter tf) (srv_registry srv) = (res, reg)" by fastforce
  have reg: "server_inv (srv\<lparr>srv_registry := reg\<rparr>)"
    using registry_inv_GetOrCreate(1) [of "srv_registry srv" E "in_opened inp" "tf_Filter tf"] Cons.prems(1) g
    by (simp add: server_inv_def)
  show ?case
  proof (cases "case s_user s of None \<Rightarrow> False | Some u \<Rightarrow> \<not> CanSubscribe u (tf_Filter tf)")
    case True
    then show ?thesis using Cons.IH [OF Cons.prems(1)] Cons.prems(2) by simp
  next
    case False
    show ?thesis
    proof (cases res)
      case (Inl e)
      then show ?thesis
        using GetOrCreate_error_no_panic [of E "in_opened inp" "tf_Filter tf" "srv_registry srv" e reg] False g reg Cons.prems(2)
        by auto
    next
      case (Inr t)
      have t: "t_name t = tf_Filter tf" "subs_inv t"
        using registry_inv_GetOrCreate(2) [of "srv_registry srv" E "in_opened inp" "tf_Filter tf" t reg] Cons.prems(1) g Inr
        by (auto simp: server_inv_def)
      obtain p s1 srv1 where st: "subscribe_topic E tf t s (srv\<lparr>srv_registry := reg\<rparr>) = (p, s1, srv1)"
        by (metis prod_cases3)
      show ?thesis
        using Cons.IH [OF server_inv_subscribe_topic [OF reg t st]] Cons.prems(2) False g Inr st by simp
    qed
  qed
qed auto

lemma well_behaved_handleSubscribe:
  assumes "server_inv srv" "handleSubscribe E inp sp s srv = Some r"
  shows "well_behaved r"
proof -
  obtain r1 s1 srv1 where l: "subscribe_loop E inp (sp_Topics sp) [] [] s srv = (r1, s1, srv1)" by (metis prod_cases3)
  note inv = subscribe_loop_inv [OF assms(1) l]
  show ?thesis
  proof (cases r1)
    case (Inl e)
    then show ?thesis using l inv assms(2) by (auto simp: handleSubscribe_def well_behaved_def)
  next
    case (Inr cp)
    obtain codes ps where cp: "cp = (codes, ps)" by fastforce
    obtain err s2 where w: "session_write ''write SUBACK'' (WriteSubAck (sp_PacketID sp) codes) s1 = (err, s2)" by fastforce
    show ?thesis
    proof (cases "deliver_pendings E inp ps s2 (syncSessionTopics s2 srv1)")
      case None
      then show ?thesis
        using l Inr cp w inv assms(2) session_write_no_panic [OF w]
        by (auto simp: handleSubscribe_def well_behaved_def split: option.splits)
    next
      case (Some r2)
      from well_behaved_deliver_pendings [OF _ Some] inv have "well_behaved r2" by simp
      then show ?thesis
        using Some l Inr cp w inv assms(2) session_write_no_panic [OF w]
        by (auto simp: handleSubscribe_def well_behaved_def split: option.splits prod.splits)
    qed
  qed
qed

lemma well_behaved_handlePubAck: "server_inv srv \<Longrightarrow> well_behaved (handlePubAck E pa s srv)"
  by (auto simp: handlePubAck_def well_behaved_def server_inv_setOffset split: option.splits)

lemma server_inv_unsubscribe_loop: "server_inv srv \<Longrightarrow> server_inv (snd (unsubscribe_loop ns s srv))"
  by (induction ns s srv rule: unsubscribe_loop.induct) (simp_all add: server_inv_unsub_topic split: option.splits)

lemma well_behaved_handleUnsubscribe:
  assumes "server_inv srv"
  shows "well_behaved (handleUnsubscribe up s srv)"
  using server_inv_unsubscribe_loop [OF assms, of "up_Topics up" s]
  by (auto simp: handleUnsubscribe_def well_behaved_def Let_def dest: session_write_no_panic split: prod.splits)

text \<open>What the reader returns carries the part its type promises.\<close>

definition packet_complete :: "Packet \<Rightarrow> bool" where
  "packet_complete pkt \<longleftrightarrow>
     (pkt_Type pkt = TypePublish \<longrightarrow> pkt_Publish pkt \<noteq> None)
   \<and> (pkt_Type pkt = TypeSubscribe \<longrightarrow> pkt_Subscribe pkt \<noteq> None)
   \<and> (pkt_Type pkt = TypeUnsubscribe \<longrightarrow> pkt_Unsubscribe pkt \<noteq> None)
   \<and> (pkt_Type pkt = TypePubAck \<longrightarrow> pkt_PubAck pkt \<noteq> None)"

lemma parsePacket_complete: "parsePacket ty flags body = Inr pkt \<Longrightarrow> packet_complete pkt"
  unfolding parsePacket_def packet_complete_def Let_def
  by (auto simp: new_packet_def rbind_Inr_iff TypeConnect_def TypePublish_def TypePubAck_def TypeSubscribe_def
      TypeUnsubscribe_def TypePingReq_def TypeDisconnect_def split: if_splits)

lemma ReadPacket_complete: "ReadPacket r = Inr (pkt, r') \<Longrightarrow> packet_complete pkt"
  by (auto simp: ReadPacket_def rbind_Inr_iff Let_def dest: parsePacket_complete split: if_splits prod.splits)

lemma well_behaved_dispatch:
  assumes "server_inv srv" "packet_complete pkt" "dispatch E inp pkt s srv = Some r"
  shows "well_behaved r"
proof -
  have ping: "well_behaved (fst (session_write m f s), snd (session_write m f s), srv)" for m f
    using assms(1) session_write_no_panic [OF surjective_pairing] by (simp add: well_behaved_def)
  show ?thesis
    using assms ping [of "''write PINGRESP''" WritePingResp]
      well_behaved_handlePublish [OF assms(1)] well_behaved_handlePubAck [OF assms(1)]
      well_behaved_handleUnsubscribe [OF assms(1)] well_behaved_handleSubscribe [OF assms(1)]
    unfolding dispatch_def packet_complete_def
    by (auto simp: well_behaved_def [of "(_, s, srv)"] split: if_splits option.splits prod.splits)
qed

lemma well_behaved_packet_loop:
  "server_inv srv \<Longrightarrow> packet_loop E inps r s srv = Some q \<Longrightarrow> server_inv (snd (snd q)) \<and> (\<forall>p. fst q \<noteq> Some (Panic p))"
proof (induction inps arbitrary: r s srv)
  case (Cons inp inps)
  show ?case
  proof (cases "ReadPacket r")
    case (Inl e)
    then show ?thesis
      using Cons.prems panic_free_ReadPacket [of r] by (auto simp: panic_free_def)
  next
    case (Inr x)
    obtain pkt r' where x: "x = (pkt, r')" by fastforce
    obtain err s1 srv1 where d: "dispatch E inp pkt s srv = Some (err, s1, srv1)"
      using Cons.prems(2) Inr x by (cases "dispatch E inp pkt s srv") auto
    have wb: "well_behaved (err, s1, srv1)"
      using well_behaved_dispatch [OF Cons.prems(1) _ d] ReadPacket_complete Inr x by blast
    show ?thesis
    proof (cases err)
      case None
      then show ?thesis
        using Cons.IH [of srv1 r' s1] Cons.prems(2) Inr x d wb by (simp add: well_behaved_def)
    next
      case (Some e)
      then show ?thesis using Cons.prems(2) Inr x d wb by (auto simp: well_behaved_def)
    qed
  qed
qed auto

section \<open>Delivery\<close>

text \<open>The network takes every write.\<close>

definition conn_up :: "session \<Rightarrow> bool" where
  "conn_up s \<longleftrightarrow> \<not> cn_closed (s_conn s) \<and> cn_net (s_conn s) = (\<lambda>_. None)"

abbreviation sent :: "session \<Rightarrow> bytes list" where
  "sent s \<equiv> cn_out (s_conn s)"

lemma session_write_up:
  assumes "conn_up s"
  obtains s' where "session_write m f s = (None, s')" "sent s' = sent s @ [f]" "conn_up s'"
    "s' = s\<lparr>s_conn := s_conn s'\<rparr>"
  using assms that by (simp add: session_write_def conn_Write_def conn_up_def Let_def)

interpretation toffs: offset_table "\<lambda>t. offsets_Get (t_offsets t)" "\<lambda>t g v. topic_setOffset E g v t" for E
  by unfold_locales (simp add: topic_setOffset_def split_beta offs.read_move)

definition push_frame :: "'d inputs \<Rightarrow> byte \<Rightarrow> u16 \<Rightarrow> Message \<Rightarrow> bytes" where
  "push_frame inp qos pid m = WritePublish (m_Topic m) (delivery_wire inp m) qos pid False"

definition inflight_for :: "'d inputs \<Rightarrow> string \<Rightarrow> Message \<Rightarrow> inflightMsg" where
  "inflight_for inp n m = \<lparr>if_topicName = m_Topic m, if_seq = m_Seq m, if_wire = delivery_wire inp m, if_qos = 1,
     if_sentAt = in_now inp, if_topicRef = n\<rparr>"

text \<open>QoS 0: the frames go out in order and the offset follows the last of them.\<close>

lemma deliver_all_qos0:
  "conn_up s \<Longrightarrow> qos \<noteq> 1 \<Longrightarrow> topic_at srv n = Some t \<Longrightarrow>
    \<exists>s' srv'. deliver_all E inp n qos ms s srv = Some (None, s', srv')
      \<and> sent s' = sent s @ map (push_frame inp 0 0) ms \<and> conn_up s' \<and> s' = s\<lparr>s_conn := s_conn s'\<rparr>
      \<and> topic_at srv' n = Some (foldl (\<lambda>t v. topic_setOffset E (s_clientID s) v t) t (map m_Seq ms))
      \<and> (\<forall>k. k \<noteq> n \<longrightarrow> topic_at srv' k = topic_at srv k)"
proof (induction ms arbitrary: s srv t)
  case Nil
  then show ?case by auto
next
  case (Cons m ms)
  obtain s1 where s1: "session_write ''write PUBLISH'' (push_frame inp 0 0 m) s = (None, s1)"
    "sent s1 = sent s @ [push_frame inp 0 0 m]" "conn_up s1" "s1 = s\<lparr>s_conn := s_conn s1\<rparr>"
    using session_write_up [OF Cons.prems(1)] by blast
  have cid: "s_clientID s1 = s_clientID s" using s1(4) by (metis session.select_convs(4) session.surjective session.update_convs(2))
  let ?t1 = "topic_setOffset E (s_clientID s) (m_Seq m) t" and ?srv1 = "put_topic n (topic_setOffset E (s_clientID s) (m_Seq m) t) srv"
  have "deliverMessage E inp n m qos s srv = Some (None, s1, ?srv1)"
    using s1(1) Cons.prems(2,3) cid by (simp add: deliverMessage_def push_frame_def Let_def)
  moreover obtain s' srv' where "deliver_all E inp n qos ms s1 ?srv1 = Some (None, s', srv')"
      "sent s' = sent s1 @ map (push_frame inp 0 0) ms" "conn_up s'" "s' = s1\<lparr>s_conn := s_conn s'\<rparr>"
      "topic_at srv' n = Some (foldl (\<lambda>t v. topic_setOffset E (s_clientID s1) v t) ?t1 (map m_Seq ms))"
      "\<forall>k. k \<noteq> n \<longrightarrow> topic_at srv' k = topic_at ?srv1 k"
    using Cons.IH [OF s1(3) Cons.prems(2), of ?srv1 ?t1] by auto
  moreover have "s' = s\<lparr>s_conn := s_conn s'\<rparr>"
    using calculation(5) s1(4) by (metis session.select_convs(2) session.surjective session.update_convs(2))
  ultimately show ?case
    using s1(2) cid by auto
qed

lemma card_u16: "card (UNIV :: u16 set) = 65536"
  by (simp add: card_word)

lemma free_pid:
  assumes "card (dom (infl :: u16 \<rightharpoonup> inflightMsg)) < 65535"
  shows "\<exists>q. q \<noteq> 0 \<and> infl q = None"
proof (rule ccontr)
  assume "\<not> ?thesis"
  then have "UNIV - {0} \<subseteq> dom infl" by auto
  then have "card (UNIV - {0 :: u16}) \<le> card (dom infl)" by (intro card_mono) simp_all
  then show False using assms by (simp add: card_u16 card_Diff_singleton)
qed

text \<open>QoS 1: every message gets a packet id of its own and stays in flight.\<close>

lemma deliver_all_qos1:
  "conn_up s \<Longrightarrow> s_nextPktID s \<noteq> 0 \<Longrightarrow> card (dom (s_inflight s)) + length ms \<le> 65535 \<Longrightarrow>
    \<exists>s' pids. deliver_all E inp n 1 ms s srv = Some (None, s', srv)
      \<and> length pids = length ms \<and> distinct pids \<and> 0 \<notin> set pids \<and> set pids \<inter> dom (s_inflight s) = {}
      \<and> sent s' = sent s @ map2 (push_frame inp 1) pids ms \<and> conn_up s' \<and> s_nextPktID s' \<noteq> 0
      \<and> s' = s\<lparr>s_conn := s_conn s', s_nextPktID := s_nextPktID s',
             s_inflight := s_inflight s ++ map_of (zip pids (map (inflight_for inp n) ms))\<rparr>"
proof (induction ms arbitrary: s)
  case Nil
  then show ?case by (intro exI [of _ s] exI [of _ "[]"]) simp
next
  case (Cons m ms)
  obtain pid nx where a: "alloc_loop (s_inflight s) (s_nextPktID s) = Some (pid, nx)"
    using alloc_loop_returns_iff [OF Cons.prems(2), of "s_inflight s"] free_pid [of "s_inflight s"] Cons.prems(3)
    by auto
  from alloc_loop_Some [OF a] Cons.prems(2) have pid: "s_inflight s pid = None" "nx \<noteq> 0" "pid \<noteq> 0" by auto
  let ?s0 = "s\<lparr>s_nextPktID := nx, s_inflight := (s_inflight s)(pid \<mapsto> inflight_for inp n m)\<rparr>"
  have up0: "conn_up ?s0" using Cons.prems(1) by (simp add: conn_up_def)
  obtain s1 where s1: "session_write ''write PUBLISH'' (push_frame inp 1 pid m) ?s0 = (None, s1)"
    "sent s1 = sent ?s0 @ [push_frame inp 1 pid m]" "conn_up s1" "s1 = ?s0\<lparr>s_conn := s_conn s1\<rparr>"
    using session_write_up [OF up0] by blast
  have d: "deliverMessage E inp n m 1 s srv = Some (None, s1, srv)"
    using a s1(1) by (simp add: deliverMessage_def allocPacketID_def push_frame_def inflight_for_def Let_def)
  have i1: "s_inflight s1 = (s_inflight s)(pid \<mapsto> inflight_for inp n m)" "s_nextPktID s1 = nx"
    by (subst s1(4), simp)+
  have "card (dom (s_inflight s1)) + length ms \<le> 65535"
    using Cons.prems(3) pid(1) by (simp add: i1 card_insert_if domIff)
  then obtain s' pids where IH: "deliver_all E inp n 1 ms s1 srv = Some (None, s', srv)"
      "length pids = length ms" "distinct pids" "0 \<notin> set pids" "set pids \<inter> dom (s_inflight s1) = {}"
      "sent s' = sent s1 @ map2 (push_frame inp 1) pids ms" "conn_up s'" "s_nextPktID s' \<noteq> 0"
      "s' = s1\<lparr>s_conn := s_conn s', s_nextPktID := s_nextPktID s',
             s_inflight := s_inflight s1 ++ map_of (zip pids (map (inflight_for inp n) ms))\<rparr>"
    using Cons.IH [OF s1(3)] i1(2) pid(2) by auto
  have fresh: "pid \<notin> set pids" using IH(5) by (auto simp: i1(1))
  then have "dom (map_of (zip pids (map (inflight_for inp n) ms))) \<inter> {pid} = {}"
    using IH(2) by (auto simp: dom_map_of_zip)
  then have infl: "(s_inflight s)(pid \<mapsto> inflight_for inp n m) ++ map_of (zip pids (map (inflight_for inp n) ms))
      = s_inflight s ++ map_of (zip (pid # pids) (map (inflight_for inp n) (m # ms)))"
    by (auto simp: map_add_def fun_eq_iff domIff split: option.splits)
  have eq: "s' = s\<lparr>s_conn := s_conn s', s_nextPktID := s_nextPktID s',
             s_inflight := s_inflight s ++ map_of (zip (pid # pids) (map (inflight_for inp n) (m # ms)))\<rparr>"
    unfolding infl [symmetric] by (subst IH(9), subst s1(4)) (simp add: i1(1))
  have del: "deliver_all E inp n 1 (m # ms) s srv = Some (None, s', srv)" using IH(1) d by simp
  have ids: "length (pid # pids) = length (m # ms)" "distinct (pid # pids)" "0 \<notin> set (pid # pids)"
    "set (pid # pids) \<inter> dom (s_inflight s) = {}"
    using IH(2-5) pid(1,3) fresh by (auto simp: i1(1))
  have out: "sent s' = sent s @ map2 (push_frame inp 1) (pid # pids) (m # ms)" using IH(6) s1(2) by simp
  show ?case
    using del ids out IH(7,8) eq by blast
qed

section \<open>Catching up after a subscribe\<close>

lemma catch_up_messages_log:
  assumes "badger_laws E cont" "topic_log cont t ms"
  shows "catch_up_messages E c t = take 500 (drop (unat (offsets_Get (t_offsets t) c)) ms)"
proof (cases "offsets_Get (t_offsets t) c < t_seq t")
  case True
  with tlog.catch_up [OF conjI [OF assms] True, of catchUpLimit] show ?thesis
    by (simp add: catch_up_messages_def catchUpLimit_def maxSlice_def max_alloc_def Let_def)
next
  case False
  then have "length ms \<le> unat (offsets_Get (t_offsets t) c)"
    using tlog.unat_last_seq [OF conjI [OF assms]] by (simp add: word_le_nat_alt not_less)
  with False show ?thesis by (simp add: catch_up_messages_def)
qed

definition may_subscribe :: "session \<Rightarrow> string \<Rightarrow> bool" where
  "may_subscribe s n \<longleftrightarrow> (case s_user s of None \<Rightarrow> True | Some u \<Rightarrow> CanSubscribe u n)"

text \<open>A SUBSCRIBE for one existing topic, up to the deliveries.\<close>

lemma subscribe_topic_effect:
  assumes "subscribe_topic E tf t s srv = (p, s1, srv1)"
  shows "p = \<lparr>pd_topic = tf_Filter tf, pd_ch = t_next t, pd_catchUp = catch_up_messages E (s_clientID s) t,
      pd_qos = (if 1 < tf_QoS tf then 1 else tf_QoS tf)\<rparr>"
    and "s1 = s\<lparr>s_subs := (s_subs s)(tf_Filter tf \<mapsto> t_next t),
      s_subQoS := (s_subQoS s)(tf_Filter tf \<mapsto> (if 1 < tf_QoS tf then 1 else tf_QoS tf))\<rparr>"
    and "\<exists>t1. topic_at srv1 (tf_Filter tf) = Some t1 \<and> t_offsets t1 = t_offsets t \<and> t_db t1 = t_db t"
proof -
  have "GetMessages E (snd (Subscribe t)) = GetMessages E t" "t_seq (snd (Subscribe t)) = t_seq t"
    "t_offsets (snd (Subscribe t)) = t_offsets t"
    by (simp_all add: fun_eq_iff GetMessages_def Subscribe_def)
  then have "catch_up_messages E c (snd (Subscribe t)) = catch_up_messages E c t" for c
    by (simp add: catch_up_messages_def Let_def)
  then show "p = \<lparr>pd_topic = tf_Filter tf, pd_ch = t_next t, pd_catchUp = catch_up_messages E (s_clientID s) t,
      pd_qos = (if 1 < tf_QoS tf then 1 else tf_QoS tf)\<rparr>"
    using assms by (auto simp: subscribe_topic_def Let_def split_beta) (simp_all add: Subscribe_def)
  show "s1 = s\<lparr>s_subs := (s_subs s)(tf_Filter tf \<mapsto> t_next t),
      s_subQoS := (s_subQoS s)(tf_Filter tf \<mapsto> (if 1 < tf_QoS tf then 1 else tf_QoS tf))\<rparr>"
    using assms by (auto simp: subscribe_topic_def Let_def Subscribe_def split_beta)
  show "\<exists>t1. topic_at srv1 (tf_Filter tf) = Some t1 \<and> t_offsets t1 = t_offsets t \<and> t_db t1 = t_db t"
    using assms
    by (auto simp: subscribe_topic_def Let_def Subscribe_def unsub_topic_def unsub_def split_beta split: option.splits if_splits)
qed

lemma handleSubscribe_one:
  assumes "topic_at srv (tf_Filter tf) = Some t" "may_subscribe s (tf_Filter tf)" "conn_up s"
    and qos: "qos = (if 1 < tf_QoS tf then 1 else tf_QoS tf)"
  shows "\<exists>s2 srv2 t2. sent s2 = sent s @ [WriteSubAck p [qos]] \<and> conn_up s2
    \<and> s_inflight s2 = s_inflight s \<and> s_nextPktID s2 = s_nextPktID s \<and> s_clientID s2 = s_clientID s
    \<and> topic_at srv2 (tf_Filter tf) = Some t2 \<and> t_offsets t2 = t_offsets t \<and> t_db t2 = t_db t
    \<and> handleSubscribe E inp \<lparr>sp_PacketID = p, sp_Topics = [tf]\<rparr> s srv =
      (case deliver_all E inp (tf_Filter tf) qos (catch_up_messages E (s_clientID s) t) s2 srv2 of
         None \<Rightarrow> None
       | Some (Some err, s, srv) \<Rightarrow> Some (Some err, s, srv)
       | Some (None, s, srv) \<Rightarrow> Some (None, s\<lparr>s_live := s_live s @ [(tf_Filter tf, t_next t, qos)]\<rparr>, srv))"
proof -
  obtain p1 s1 srv1 where st: "subscribe_topic E tf t s srv = (p1, s1, srv1)" by (metis prod_cases3)
  note eff = subscribe_topic_effect [OF st]
  obtain t1 where t1: "topic_at srv1 (tf_Filter tf) = Some t1" "t_offsets t1 = t_offsets t" "t_db t1 = t_db t"
    using eff(3) by blast
  have up1: "conn_up s1" using assms(3) by (simp add: eff(2) conn_up_def)
  obtain s2 where s2: "session_write ''write SUBACK'' (WriteSubAck p [qos]) s1 = (None, s2)"
    "sent s2 = sent s1 @ [WriteSubAck p [qos]]" "conn_up s2" "s2 = s1\<lparr>s_conn := s_conn s2\<rparr>"
    using session_write_up [OF up1] by blast
  have f2: "s_inflight s2 = s_inflight s" "s_nextPktID s2 = s_nextPktID s" "s_clientID s2 = s_clientID s"
    by (subst s2(4), simp add: eff(2))+
  have "GetOrCreate E (in_opened inp) (tf_Filter tf) (srv_registry srv) = (Inr t, srv_registry srv)"
    using assms(1) by (simp add: GetOrCreate_def)
  moreover have "\<not> (case s_user s of None \<Rightarrow> False | Some u \<Rightarrow> \<not> CanSubscribe u (tf_Filter tf))"
    using assms(2) by (simp add: may_subscribe_def split: option.splits)
  ultimately have "subscribe_loop E inp [tf] [] [] s srv = (Inr ([qos], [p1]), s1, srv1)"
    using st by (simp add: eff(1) qos)
  then have h: "handleSubscribe E inp \<lparr>sp_PacketID = p, sp_Topics = [tf]\<rparr> s srv =
      (case deliver_all E inp (tf_Filter tf) qos (catch_up_messages E (s_clientID s) t) s2 (syncSessionTopics s2 srv1) of
         None \<Rightarrow> None
       | Some (Some err, s, srv) \<Rightarrow> Some (Some err, s, srv)
       | Some (None, s, srv) \<Rightarrow> Some (None, s\<lparr>s_live := s_live s @ [(tf_Filter tf, t_next t, qos)]\<rparr>, srv))"
    using s2(1) by (simp add: handleSubscribe_def eff(1) qos split: option.splits prod.splits)
  have "topic_at (syncSessionTopics s2 srv1) (tf_Filter tf) = Some t1"
    using t1(1) by (simp add: syncSessionTopics_def)
  moreover have "sent s2 = sent s @ [WriteSubAck p [qos]]" using s2(2) by (simp add: eff(2))
  ultimately show ?thesis using h f2 s2(3) t1(2,3) by blast
qed

section \<open>A sample session\<close>

text \<open>A client with an open connection and a server with one logged message, for applying the properties.\<close>

definition up_conn :: conn where
  "up_conn = \<lparr>cn_out = [], cn_tries = 0, cn_net = (\<lambda>_. None), cn_closed = False\<rparr>"

definition sample_session :: session where
  "sample_session = (newSession 0 up_conn ''peer'')\<lparr>s_clientID := ''c''\<rparr>"

definition sample_server :: "mem_db Server" where
  "sample_server = NewServer \<lparr>reg_topics = [''t'' \<mapsto> logged_topic], reg_baseDir = \<lparr>p_abs = True, p_comps = [''data'']\<rparr>\<rparr>
     (Some (dedup_New None 0 0)) None False"

definition sample_inputs :: "mem_db inputs" where
  "sample_inputs = \<lparr>in_now = 5, in_check = 5, in_load = 5, in_remember = 5, in_newV7 = 77, in_serverV7 = 78,
     in_opened = (\<lambda>_. Inr [])\<rparr>"

lemma sample_session_fields [simp]:
  "conn_up sample_session" "s_nextPktID sample_session = 1" "s_inflight sample_session = Map.empty"
  "s_clientID sample_session = ''c''" "s_user sample_session = None" "sent sample_session = []"
  by (simp_all add: sample_session_def newSession_def up_conn_def conn_up_def)

lemma sample_server_fields [simp]:
  "topic_at sample_server ''t'' = Some logged_topic" "server_inv sample_server"
  using logged_topic_ok(2)
  by (auto simp: sample_server_def NewServer_def server_inv_def registry_inv_def topics_inv_def logged_topic_def)

lemma logged_topic_offsets [simp]: "offsets_Get (t_offsets logged_topic) c = 0"
  by (simp add: logged_topic_def offsets_Get_def NewOffsets_def)

text \<open>
  The broker's loop on the acknowledgements of messages in flight from one topic: the ids are
  free again, and the offset is the number of the message acknowledged last.
\<close>

lemma packet_loop_acks:
  assumes "distinct pids" "length inps = length pids" "topic_at srv n = Some t"
    and "\<forall>p \<in> set pids. \<exists>msg. s_inflight s p = Some msg \<and> if_topicRef msg = n"
  shows "\<exists>s' srv' t'. packet_loop E inps (concat (map WritePubAck pids) @ rest) s srv = Some (None, s', srv')
    \<and> s_inflight s' = (\<lambda>p. if p \<in> set pids then None else s_inflight s p) \<and> sent s' = sent s
    \<and> topic_at srv' n = Some t' \<and> offsets_Get (t_offsets t') = (if pids = [] then offsets_Get (t_offsets t)
        else (offsets_Get (t_offsets t))(s_clientID s := if_seq (the (s_inflight s (last pids)))))"
  using assms
proof (induction pids arbitrary: inps s srv t)
  case Nil
  then show ?case by simp
next
  case (Cons p pids)
  then obtain inp inps' where inps: "inps = inp # inps'" "length inps' = length pids" by (cases inps) auto
  obtain msg where msg: "s_inflight s p = Some msg" "if_topicRef msg = n" using Cons.prems(4) by auto
  let ?s = "s\<lparr>s_inflight := (s_inflight s)(p := None)\<rparr>"
  let ?t = "topic_setOffset E (s_clientID s) (if_seq msg) t"
  let ?srv = "put_topic n ?t srv"
  have "handlePubAck E \<lparr>pa_PacketID = p\<rparr> s srv = (None, ?s, ?srv)"
    using msg Cons.prems(3) by (simp add: handlePubAck_def)
  then have step: "packet_loop E inps (concat (map WritePubAck (p # pids)) @ rest) s srv
      = packet_loop E inps' (concat (map WritePubAck pids) @ rest) ?s ?srv"
    by (simp add: inps(1) ReadPacket_pubAck_frame dispatch_def new_packet_def)
  have at: "topic_at ?srv n = Some ?t" by simp
  have fl: "\<forall>q \<in> set pids. \<exists>msg. s_inflight ?s q = Some msg \<and> if_topicRef msg = n"
    using Cons.prems(1,4) by auto
  have "distinct pids" using Cons.prems(1) by simp
  from Cons.IH [OF this inps(2) at fl] obtain s' srv' t' where IH: "packet_loop E inps' (concat (map WritePubAck pids) @ rest) ?s ?srv = Some (None, s', srv')"
    "s_inflight s' = (\<lambda>q. if q \<in> set pids then None else s_inflight ?s q)" "sent s' = sent ?s" "topic_at srv' n = Some t'"
    "offsets_Get (t_offsets t') = (if pids = [] then offsets_Get (t_offsets ?t)
       else (offsets_Get (t_offsets ?t))(s_clientID ?s := if_seq (the (s_inflight ?s (last pids)))))"
    by blast
  have "pids \<noteq> [] \<Longrightarrow> last pids \<noteq> p" using Cons.prems(1) by auto
  then have "offsets_Get (t_offsets t') = (offsets_Get (t_offsets t))(s_clientID s := if_seq (the (s_inflight s (last (p # pids)))))"
    using IH(5) msg(1) by (auto simp: toffs.read_move)
  moreover have "s_inflight s' = (\<lambda>q. if q \<in> set (p # pids) then None else s_inflight s q)"
    by (auto simp: IH(2))
  ultimately show ?case unfolding step using IH(1,3,4) by (simp add: fun_upd_def)
qed

lemma handleSubscribe_qos1:
  assumes "badger_laws E cont" "topic_at srv (tf_Filter tf) = Some t" "topic_log cont t ms"
    and "may_subscribe s (tf_Filter tf)" "conn_up s" "1 \<le> tf_QoS tf"
    and "s_nextPktID s \<noteq> 0" "card (dom (s_inflight s)) + 500 \<le> 65535"
    and todo: "todo = take 500 (drop (unat (offsets_Get (t_offsets t) (s_clientID s))) ms)"
  shows "\<exists>s' srv' t' pids. handleSubscribe E inp \<lparr>sp_PacketID = p, sp_Topics = [tf]\<rparr> s srv = Some (None, s', srv')
    \<and> length pids = length todo \<and> distinct pids \<and> 0 \<notin> set pids \<and> set pids \<inter> dom (s_inflight s) = {}
    \<and> sent s' = sent s @ [WriteSubAck p [1]] @ map2 (push_frame inp 1) pids todo
    \<and> s_inflight s' = s_inflight s ++ map_of (zip pids (map (inflight_for inp (tf_Filter tf)) todo))
    \<and> topic_at srv' (tf_Filter tf) = Some t' \<and> t_offsets t' = t_offsets t
    \<and> s_clientID s' = s_clientID s"
proof -
  have qos: "1 = (if 1 < tf_QoS tf then 1 else tf_QoS tf)" using assms(6) by auto
  obtain s2 srv2 t2 where h: "sent s2 = sent s @ [WriteSubAck p [1]]" "conn_up s2" "s_inflight s2 = s_inflight s"
    "s_nextPktID s2 = s_nextPktID s" "s_clientID s2 = s_clientID s" "topic_at srv2 (tf_Filter tf) = Some t2" "t_offsets t2 = t_offsets t"
    "handleSubscribe E inp \<lparr>sp_PacketID = p, sp_Topics = [tf]\<rparr> s srv =
      (case deliver_all E inp (tf_Filter tf) 1 (catch_up_messages E (s_clientID s) t) s2 srv2 of
         None \<Rightarrow> None
       | Some (Some err, s, srv) \<Rightarrow> Some (Some err, s, srv)
       | Some (None, s, srv) \<Rightarrow> Some (None, s\<lparr>s_live := s_live s @ [(tf_Filter tf, t_next t, 1)]\<rparr>, srv))"
    using handleSubscribe_one [OF assms(2,4,5) qos, of p E inp] by blast
  have cu: "catch_up_messages E (s_clientID s) t = todo"
    unfolding todo by (rule catch_up_messages_log [OF assms(1,3)])
  have "card (dom (s_inflight s2)) + length todo \<le> 65535"
    using assms(8) by (simp add: h(3) todo)
  then obtain s3 pids where d: "deliver_all E inp (tf_Filter tf) 1 todo s2 srv2 = Some (None, s3, srv2)"
    "length pids = length todo" "distinct pids" "0 \<notin> set pids" "set pids \<inter> dom (s_inflight s2) = {}"
    "sent s3 = sent s2 @ map2 (push_frame inp 1) pids todo"
    "s3 = s2\<lparr>s_conn := s_conn s3, s_nextPktID := s_nextPktID s3,
        s_inflight := s_inflight s2 ++ map_of (zip pids (map (inflight_for inp (tf_Filter tf)) todo))\<rparr>"
    using deliver_all_qos1 [OF h(2), of todo E inp "tf_Filter tf" srv2] assms(7) h(4) by auto
  have "s_inflight s3 = s_inflight s ++ map_of (zip pids (map (inflight_for inp (tf_Filter tf)) todo))"
    by (subst d(7)) (simp add: h(3))
  moreover have "s_clientID s3 = s_clientID s" by (subst d(7)) (simp add: h(5))
  ultimately show ?thesis using h d cu
    by (intro exI [of _ "s3\<lparr>s_live := s_live s3 @ [(tf_Filter tf, t_next t, 1)]\<rparr>"] exI [of _ srv2] exI [of _ t2]
        exI [of _ pids]) simp
qed

section \<open>Properties\<close>



text \<open>
  QoS 0 catch-up. With QoS 0 the messages after the client's offset, at most 500, follow the
  SUBACK in order, and the client's offset is then the number of the last of them; the
  offsets of other clients do not move.
\<close>

theorem subscribe_catches_up_qos0:
  assumes "badger_laws E cont" "topic_at srv (tf_Filter tf) = Some t" "topic_log cont t ms"
    and "may_subscribe s (tf_Filter tf)" "conn_up s" "tf_QoS tf = 0"
    and todo: "todo = take 500 (drop (unat (offsets_Get (t_offsets t) (s_clientID s))) ms)"
  shows "\<exists>s' srv' t'. handleSubscribe E inp \<lparr>sp_PacketID = p, sp_Topics = [tf]\<rparr> s srv = Some (None, s', srv')
    \<and> sent s' = sent s @ [WriteSubAck p [0]] @ map (push_frame inp 0 0) todo
    \<and> s_inflight s' = s_inflight s \<and> topic_at srv' (tf_Filter tf) = Some t'
    \<and> offsets_Get (t_offsets t') = (if todo = [] then offsets_Get (t_offsets t)
        else (offsets_Get (t_offsets t))(s_clientID s := m_Seq (last todo)))"
proof -
  have qos: "0 = (if 1 < tf_QoS tf then 1 else tf_QoS tf)" using assms(6) by simp
  obtain s2 srv2 t2 where h: "sent s2 = sent s @ [WriteSubAck p [0]]" "conn_up s2" "s_inflight s2 = s_inflight s"
    "s_clientID s2 = s_clientID s" "topic_at srv2 (tf_Filter tf) = Some t2" "t_offsets t2 = t_offsets t"
    "handleSubscribe E inp \<lparr>sp_PacketID = p, sp_Topics = [tf]\<rparr> s srv =
      (case deliver_all E inp (tf_Filter tf) 0 (catch_up_messages E (s_clientID s) t) s2 srv2 of
         None \<Rightarrow> None
       | Some (Some err, s, srv) \<Rightarrow> Some (Some err, s, srv)
       | Some (None, s, srv) \<Rightarrow> Some (None, s\<lparr>s_live := s_live s @ [(tf_Filter tf, t_next t, 0)]\<rparr>, srv))"
    using handleSubscribe_one [OF assms(2,4,5) qos, of p E inp] by blast
  have cu: "catch_up_messages E (s_clientID s) t = todo"
    unfolding todo by (rule catch_up_messages_log [OF assms(1,3)])
  have "(0 :: byte) \<noteq> 1" by simp
  from deliver_all_qos0 [OF h(2) this h(5), of E inp todo]
  obtain s3 srv3 where d: "deliver_all E inp (tf_Filter tf) 0 todo s2 srv2 = Some (None, s3, srv3)"
    "sent s3 = sent s2 @ map (push_frame inp 0 0) todo" "s3 = s2\<lparr>s_conn := s_conn s3\<rparr>"
    "topic_at srv3 (tf_Filter tf) = Some (foldl (\<lambda>t v. topic_setOffset E (s_clientID s2) v t) t2 (map m_Seq todo))"
    by blast
  have i3: "s_inflight s3 = s_inflight s" by (subst d(3)) (simp add: h(3))
  have "offsets_Get (t_offsets (foldl (\<lambda>t v. topic_setOffset E (s_clientID s2) v t) t2 (map m_Seq todo)))
      = (if todo = [] then offsets_Get (t_offsets t) else (offsets_Get (t_offsets t))(s_clientID s := m_Seq (last todo)))"
    unfolding toffs.read_foldl_move by (simp add: h(4,6) last_map)
  with h d cu i3 show ?thesis
    by (intro exI [of _ "s3\<lparr>s_live := s_live s3 @ [(tf_Filter tf, t_next t, 0)]\<rparr>"] exI [of _ srv3]
        exI [of _ "foldl (\<lambda>t v. topic_setOffset E (s_clientID s2) v t) t2 (map m_Seq todo)"]) simp
qed

theorem subscribe_catches_up_qos0_witness:
  "\<exists>s' srv' t'. handleSubscribe mem_engine sample_inputs \<lparr>sp_PacketID = 3, sp_Topics = [\<lparr>tf_Filter = ''t'', tf_QoS = 0\<rparr>]\<rparr>
       sample_session sample_server = Some (None, s', srv')
    \<and> sent s' = [WriteSubAck 3 [0], push_frame sample_inputs 0 0 sample_msg]
    \<and> topic_at srv' ''t'' = Some t' \<and> offsets_Get (t_offsets t') ''c'' = m_Seq sample_msg"
  using subscribe_catches_up_qos0 [OF badger_laws_mem _ logged_topic_ok(1),
      of sample_server "\<lparr>tf_Filter = ''t'', tf_QoS = 0\<rparr>" sample_session "[sample_msg]" sample_inputs 3]
  by (auto simp: may_subscribe_def)

text \<open>
  C24 (packet ids). \<open>allocPacketID\<close> returns exactly if some id other than 0 is free; then it returns
  a free id that is not 0, and the next search starts after it. If all 65535 ids are in flight
  it never returns.
\<close>

theorem packet_id_allocation:
  assumes "s_nextPktID s \<noteq> 0"
  shows "(allocPacketID s \<noteq> None \<longleftrightarrow> (\<exists>q. q \<noteq> 0 \<and> s_inflight s q = None))
    \<and> (\<forall>pid s'. allocPacketID s = Some (pid, s') \<longrightarrow>
        pid \<noteq> 0 \<and> s_inflight s pid = None \<and> s' = s\<lparr>s_nextPktID := succ_pid pid\<rparr> \<and> s_nextPktID s' \<noteq> 0)"
  using alloc_loop_returns_iff [OF assms, of "s_inflight s"] alloc_loop_Some [of "s_inflight s" "s_nextPktID s"] assms
  by (auto simp: allocPacketID_def split: option.splits prod.splits)

theorem packet_id_allocation_witness:
  "\<exists>pid s'. allocPacketID sample_session = Some (pid, s') \<and> pid \<noteq> 0"
proof -
  have "\<exists>q :: u16. q \<noteq> 0" by (rule exI [of _ 1]) simp
  then show ?thesis using packet_id_allocation [of sample_session] by auto
qed

text \<open>
  No input stops the broker. Whatever bytes a client sends after its CONNECT, and however
  the database, the file system and the network behave: the packet loop never panics, and it
  leaves the topics of the server well-formed.
\<close>

theorem packet_loop_never_panics:
  assumes "server_inv srv" "packet_loop E inps r s srv = Some (err, s', srv')"
  shows "server_inv srv' \<and> (\<forall>p. err \<noteq> Some (Panic p))"
  using well_behaved_packet_loop [OF assms] by simp

theorem packet_loop_never_panics_witness:
  "\<exists>err s' srv'. packet_loop mem_engine [sample_inputs] [0xE0, 0x00] sample_session sample_server = Some (err, s', srv')
    \<and> server_inv srv'"
proof -
  have "ReadPacket [0xE0, 0x00] = Inr (new_packet TypeDisconnect, [])"
    by (simp add: ReadPacket_def io_ReadFull_def go_index_def readRemainingLength_def parsePacket_def Let_def
        TypeConnect_def TypePublish_def TypePubAck_def TypeSubscribe_def TypeUnsubscribe_def TypeDisconnect_def)
  then have "packet_loop mem_engine [sample_inputs] [0xE0, 0x00] sample_session sample_server
      = Some (Some (Errorf ''client sent DISCONNECT'' []), sample_session, sample_server)"
    by (simp add: dispatch_def new_packet_def TypeConnect_def TypePublish_def TypePubAck_def TypeSubscribe_def
        TypeUnsubscribe_def TypePingReq_def TypeDisconnect_def)
  with packet_loop_never_panics [OF _ this] show ?thesis by auto
qed

text \<open>
  C26 (acknowledgement). A PUBACK for a message in flight frees its packet id and moves the
  client's offset in the message's topic to the message's number; nothing else of the session
  changes, no other topic and no other client's offset. For an unknown id nothing happens.
\<close>

theorem puback_moves_offset:
  "(s_inflight s pid = None \<longrightarrow> handlePubAck E \<lparr>pa_PacketID = pid\<rparr> s srv = (None, s, srv))
   \<and> (\<forall>msg t. s_inflight s pid = Some msg \<and> topic_at srv (if_topicRef msg) = Some t \<longrightarrow>
       (\<exists>srv' t'. handlePubAck E \<lparr>pa_PacketID = pid\<rparr> s srv
           = (None, s\<lparr>s_inflight := (s_inflight s)(pid := None)\<rparr>, srv')
         \<and> topic_at srv' (if_topicRef msg) = Some t' \<and> t_seq t' = t_seq t
         \<and> offsets_Get (t_offsets t') = (offsets_Get (t_offsets t))(s_clientID s := if_seq msg)
         \<and> (\<forall>n. n \<noteq> if_topicRef msg \<longrightarrow> topic_at srv' n = topic_at srv n)))"
proof -
  have "t_seq (topic_setOffset E g v t) = t_seq t" for g v t
    by (simp add: topic_setOffset_def split_beta)
  then show ?thesis
    by (auto simp: handlePubAck_def toffs.read_move)
qed

theorem puback_moves_offset_witness:
  "\<exists>srv' t'. handlePubAck mem_engine \<lparr>pa_PacketID = 1\<rparr>
       (sample_session\<lparr>s_inflight := [1 \<mapsto> inflight_for sample_inputs ''t'' sample_msg]\<rparr>) sample_server
       = (None, sample_session, srv')
    \<and> topic_at srv' ''t'' = Some t' \<and> offsets_Get (t_offsets t') ''c'' = m_Seq sample_msg"
proof -
  let ?s = "sample_session\<lparr>s_inflight := [1 \<mapsto> inflight_for sample_inputs ''t'' sample_msg]\<rparr>"
  have "?s\<lparr>s_inflight := Map.empty\<rparr> = sample_session"
    by (simp add: sample_session_def newSession_def)
  then show ?thesis
    using puback_moves_offset [of ?s 1 mem_engine sample_server] by (auto simp: inflight_for_def)
qed



lemma run_publishes_offsets:
  "\<forall>op \<in> set ops. \<exists>v env. op = TPublish v env \<Longrightarrow> t_offsets (fold (run_top E) ops t) = t_offsets t"
proof (induction ops arbitrary: t)
  case (Cons op ops)
  have "t_offsets (snd (Publish E v env t)) = t_offsets t" for v env
    by (simp add: Publish_def Let_def split: prod.splits option.splits sum.splits)
  with Cons show ?case by auto
qed simp

lemma spec_publishes_length:
  "\<forall>op \<in> set ops. \<exists>v env. op = TPublish v env \<Longrightarrow> length (fold (spec_top name) ops ms) = length ms + length ops"
  by (induction ops arbitrary: ms) auto

text \<open>
  C28 (a purge hides new messages). \<open>Purge\<close> sets the sequence number back to 0 but keeps the
  offsets. For a client whose offset was \<open>k\<close>, the next messages published, up to \<open>k\<close> of them,
  are stored, but catching up returns none of them.
\<close>

theorem purge_hides_new_messages:
  assumes "badger_laws E cont" "writes_commit E" "topic_inv cont name ms t"
    and pubs: "\<forall>op \<in> set ops. \<exists>v env. op = TPublish v env \<and> wf_env env"
    and few: "length ops \<le> unat (offsets_Get (t_offsets t) c)" "int (length ops) \<le> maxSlice"
    and t': "t' = fold (run_top E) (TPurge # ops) t"
  shows "GetMessages E t' 1 (int (length ops)) = Inr (fold (spec_top name) ops [])
    \<and> length (fold (spec_top name) ops []) = length ops \<and> catch_up_messages E c t' = []"
proof -
  let ?t1 = "snd (Purge E t)" and ?ms = "fold (spec_top name) ops []"
  have p: "\<forall>op \<in> set ops. \<exists>v env. op = TPublish v env" using pubs by blast
  have len: "length ?ms = length ops" using spec_publishes_length [OF p] by simp
  have ops: "length ops < 2 ^ 64" using few(2) by (simp add: maxSlice_def max_alloc_def)
  have "only_msg_keys (cont (t_db t))"
    using assms(3) by (auto simp: topic_inv_def topic_log_def db_log_def db_msgs_def)
  have "topic_inv cont name [] ?t1"
    using topic_inv_Purge [OF assms(1-3)] by simp
  then have inv: "topic_inv cont name ?ms t'"
    unfolding t' using topic_inv_run [OF assms(1,2), of name "[]" ?t1 ops] pubs ops by fastforce
  then have log: "topic_log cont t' ?ms" by (simp add: topic_inv_def)
  have "t_offsets t' = t_offsets t"
    unfolding t' using run_publishes_offsets [OF p, of E ?t1] Purge_log(3) [OF assms(1,2), of t] \<open>only_msg_keys (cont (t_db t))\<close>
    by simp
  then have "catch_up_messages E c t' = []"
    using catch_up_messages_log [OF assms(1) log, of c] few(1) len by simp
  moreover have "GetMessages E t' 1 (int (length ops)) = Inr ?ms"
    using GetMessages_log [OF assms(1) log, of "int (length ops)" 1] few(2) len by simp
  ultimately show ?thesis using len by simp
qed

theorem purge_hides_new_messages_witness:
  "let t = topic_setOffset mem_engine ''c'' 1 logged_topic;
       t' = fold (run_top mem_engine) [TPurge, TPublish 9 sample_env] t in
   GetMessages mem_engine t' 1 1 = Inr [sample_msg] \<and> catch_up_messages mem_engine ''c'' t' = []"
proof -
  let ?t = "topic_setOffset mem_engine ''c'' 1 logged_topic"
  have "topic_inv map_of ''t'' [sample_msg] ?t"
    using topic_log_setOffset [OF badger_laws_mem logged_topic_ok(1)] subs_inv_setOffset [OF logged_topic_ok(2)]
    by (simp add: topic_inv_def) (simp add: logged_topic_def)
  from purge_hides_new_messages [OF badger_laws_mem writes_commit_mem this, of "[TPublish 9 sample_env]" "''c''"]
  show ?thesis
    by (simp add: wf_sample_env toffs.read_move sample_msg_def maxSlice_def max_alloc_def)
qed

definition resend_frame :: "u16 \<times> inflightMsg \<Rightarrow> bytes" where
  "resend_frame item = WritePublish (if_topicName (snd item)) (if_wire (snd item)) (if_qos (snd item)) (fst item) True"

lemma resend_fold:
  "conn_up s \<Longrightarrow> distinct (map fst items) \<Longrightarrow>
    sent (fold (resend now) items s) = sent s @ map resend_frame items
    \<and> (\<forall>p. s_inflight (fold (resend now) items s) p =
        (if p \<in> fst ` set items then map_option (\<lambda>m. m\<lparr>if_sentAt := now\<rparr>) (s_inflight s p) else s_inflight s p))"
proof (induction items arbitrary: s)
  case (Cons item items)
  obtain pid msg where item: "item = (pid, msg)" by fastforce
  obtain s1 where s1: "session_write ''write PUBLISH'' (resend_frame item) s = (None, s1)"
    "sent s1 = sent s @ [resend_frame item]" "conn_up s1" "s1 = s\<lparr>s_conn := s_conn s1\<rparr>"
    using session_write_up [OF Cons.prems(1)] by blast
  have i1: "s_inflight s1 = s_inflight s" by (subst s1(4)) simp
  let ?s2 = "resend now item s"
  have "sent ?s2 = sent s @ [resend_frame item] \<and> conn_up ?s2
    \<and> s_inflight ?s2 = (s_inflight s)(pid := map_option (\<lambda>m. m\<lparr>if_sentAt := now\<rparr>) (s_inflight s pid))"
    using s1 i1 by (auto simp: resend_def item resend_frame_def conn_up_def fun_eq_iff split: option.splits)
  with Cons.IH [of ?s2] Cons.prems(2) show ?case
    by (auto simp: item)
qed simp

text \<open>
  Retransmission. On an open connection a tick of the timer sends again exactly the messages
  in flight whose last transmission is at least ten seconds old, with the same topic, payload
  and packet id and the DUP flag set; they stay in flight with the new time of transmission,
  and the others are untouched. The order is that of the map iteration.
\<close>

theorem retransmit_resends_due:
  assumes "conn_up s" "distinct order" "set order = dom (s_inflight s)"
  shows "sent (retransmit_tick order now now2 s) = sent s @
      map (\<lambda>p. let m = the (s_inflight s p) in WritePublish (if_topicName m) (if_wire m) (if_qos m) p True)
        (filter (due now s) order)
    \<and> (\<forall>p. s_inflight (retransmit_tick order now now2 s) p =
        (if due now s p then map_option (\<lambda>m. m\<lparr>if_sentAt := now2\<rparr>) (s_inflight s p) else s_inflight s p))"
proof -
  let ?items = "map (\<lambda>pid. (pid, the (s_inflight s pid))) (filter (due now s) order)"
  have dist: "distinct (map fst ?items)" using assms(2) by (simp add: o_def)
  have dom: "p \<in> fst ` set ?items \<longleftrightarrow> due now s p" for p
    using assms(3) by (auto simp: due_def image_iff split: option.splits)
  show ?thesis
    using resend_fold [OF assms(1) dist, of now2] unfolding dom retransmit_tick_def
    by (simp add: resend_frame_def o_def Let_def)
qed

theorem retransmit_resends_due_witness:
  "sent (retransmit_tick [1, 2] 10000000005 10000000006
     (sample_session\<lparr>s_inflight := [1 \<mapsto> inflight_for sample_inputs ''t'' sample_msg,
        2 \<mapsto> (inflight_for sample_inputs ''t'' sample_msg)\<lparr>if_sentAt := 900\<rparr>]\<rparr>))
   = [WritePublish (m_Topic sample_msg) (delivery_wire sample_inputs sample_msg) 1 1 True]"
proof -
  let ?s = "sample_session\<lparr>s_inflight := [1 \<mapsto> inflight_for sample_inputs ''t'' sample_msg,
        2 \<mapsto> (inflight_for sample_inputs ''t'' sample_msg)\<lparr>if_sentAt := 900\<rparr>]\<rparr>"
  have "conn_up ?s" by (simp add: conn_up_def sample_session_def newSession_def up_conn_def)
  moreover have "set [1, 2] = dom (s_inflight ?s)" by auto
  moreover have "filter (due 10000000005 ?s) [1, 2] = [1]"
    by (simp add: due_def inflight_for_def retransmitTimeout_def sample_inputs_def)
  ultimately show ?thesis
    using retransmit_resends_due [of ?s "[1, 2]" 10000000005 10000000006]
    by (simp add: inflight_for_def sample_session_def newSession_def up_conn_def del: filter.simps)
qed

text \<open>
  C25 (no access without credentials). If the server requires authentication and has a user store,
  and the client's first packet is not a CONNECT with the credentials of a declared user, then
  the session ends, whatever follows in the stream: no topic and no deduplication entry is
  created or changed, the connection is closed, and nothing but a refusal was written to it.
\<close>

theorem unauthenticated_changes_nothing:
  assumes "srv_authReq srv" "srv_auth srv = Some st" "cn_out c = []"
    and bad: "\<forall>pkt r' cp. ReadPacket r = Inr (pkt, r') \<and> pkt_Type pkt = TypeConnect \<and> pkt_Connect pkt = Some cp
      \<longrightarrow> \<not> snd (Authenticate bcrypt (Some st) (cp_Username cp) (cp_Password cp))"
  shows "\<exists>s' srv'. Handle E bcrypt inps r (newSession a c remote) srv = Some (s', srv')
    \<and> srv_registry srv' = srv_registry srv \<and> srv_dedup srv' = srv_dedup srv
    \<and> set (sent s') \<subseteq> {WriteConnAck False ConnRefusedBadCredentials} \<and> cn_closed (s_conn s')"
proof -
  have fin: "\<exists>s' srv'. (case cleanupSubs s srv of (s, srv) \<Rightarrow> Some (session_Close s, srv)) = Some (s', srv')
      \<and> srv_registry srv' = srv_registry srv \<and> srv_dedup srv' = srv_dedup srv
      \<and> sent s' = sent s \<and> cn_closed (s_conn s')" if "s_subs s = Map.empty" for s
    using that by (simp add: cleanupSubs_def session_Close_def syncSessionTopics_def Let_def)
  let ?s0 = "newSession a c remote"
  show ?thesis
  proof (cases "\<exists>pkt r' cp. ReadPacket r = Inr (pkt, r') \<and> pkt_Type pkt = TypeConnect \<and> pkt_Connect pkt = Some cp")
    case False
    then have "Handle E bcrypt inps r ?s0 srv = (case cleanupSubs ?s0 srv of (s, srv) \<Rightarrow> Some (session_Close s, srv))"
      by (auto simp: Handle_def Let_def split: sum.splits option.splits if_splits)
    with fin [of ?s0] assms(3) show ?thesis by (auto simp: newSession_def)
  next
    case True
    then obtain pkt r' cp where p: "ReadPacket r = Inr (pkt, r')" "pkt_Type pkt = TypeConnect" "pkt_Connect pkt = Some cp"
      by blast
    let ?s1 = "?s0\<lparr>s_clientID := (if cp_ClientID cp = '''' then ''auto-'' @ s_remote ?s0 else cp_ClientID cp)\<rparr>"
    let ?s2 = "snd (session_write ''write CONNACK'' (WriteConnAck False ConnRefusedBadCredentials) ?s1)"
    obtain u where auth: "Authenticate bcrypt (Some st) (cp_Username cp) (cp_Password cp) = (u, False)"
      using bad p by (metis prod.collapse)
    have "handleConnect bcrypt cp ?s0 srv = (Some (Errorf ''auth failed for user %q'' [FStr (cp_Username cp)]), ?s2, srv)"
      using assms(1,2) auth by (simp add: handleConnect_def Let_def newSession_def)
    then have "Handle E bcrypt inps r ?s0 srv = (case cleanupSubs ?s2 srv of (s, srv) \<Rightarrow> Some (session_Close s, srv))"
      using p by (simp add: Handle_def Let_def)
    moreover have "set (sent ?s2) \<subseteq> {WriteConnAck False ConnRefusedBadCredentials}"
      using assms(3) by (auto simp: session_write_def conn_Write_def newSession_def Let_def split: option.splits)
    moreover have "s_subs ?s2 = Map.empty" by (simp add: newSession_def)
    ultimately show ?thesis using fin [of ?s2] by auto
  qed
qed

theorem unauthenticated_changes_nothing_witness:
  "\<exists>s' srv'. Handle mem_engine (\<lambda>_ _. True) [sample_inputs] [0xE0, 0x00] (newSession 0 up_conn ''peer'')
      (sample_server\<lparr>srv_authReq := True, srv_auth := Some \<lparr>st_users = Map.empty\<rparr>\<rparr>) = Some (s', srv')
    \<and> srv_registry srv' = srv_registry sample_server"
proof -
  have "\<not> snd (Authenticate (\<lambda>_ _. True) (Some \<lparr>st_users = Map.empty\<rparr>) u p)" for u p
    by (simp add: Authenticate_def)
  then show ?thesis
    using unauthenticated_changes_nothing [of "sample_server\<lparr>srv_authReq := True, srv_auth := Some \<lparr>st_users = Map.empty\<rparr>\<rparr>"
        "\<lparr>st_users = Map.empty\<rparr>" up_conn "[0xE0, 0x00]" "\<lambda>_ _. True" mem_engine "[sample_inputs]" 0 "''peer''"]
    by (auto simp: up_conn_def)
qed

end
