(* ===== verification/Listener.thy ===== *)
theory Listener
  imports Session
begin

text \<open>
  The parts of the MQTT server around its sessions (\<^verbatim>\<open>core/transport/mqtt/server.go\<close>): the lists it gives to
  the administrator, the closing of sessions, and the life of one accepted connection. Go
  visits a map in no particular order: \<open>order\<close> lists the keys in the order of one visit.
\<close>

section \<open>Model\<close>

definition ListTopics :: "string list \<Rightarrow> 'd Registry \<Rightarrow> string list" where
  "ListTopics order r = filter (\<lambda>n. reg_topics r n \<noteq> None) order"

definition ListSessions :: "nat list \<Rightarrow> 'd Server \<Rightarrow> SessionInfo list" where
  "ListSessions order srv = List.map_filter (srv_sessions srv) order"

text \<open>The sessions, as far as closing them is concerned, by their addresses.\<close>

definition close_session :: "nat \<Rightarrow> (nat \<Rightarrow> session) \<Rightarrow> (nat \<Rightarrow> session)" where
  "close_session a ss = ss(a := session_Close (ss a))"

definition KickClient :: "nat list \<Rightarrow> string \<Rightarrow> 'd Server \<Rightarrow> (nat \<Rightarrow> session) \<Rightarrow> nat \<times> (nat \<Rightarrow> session)" where
  "KickClient order clientID srv ss =
     (let victims = filter (kicked clientID srv) order in (length victims, fold close_session victims ss))"

definition Shutdown :: "nat list \<Rightarrow> 'd Server \<Rightarrow> (nat \<Rightarrow> session) \<Rightarrow> (nat \<Rightarrow> session)" where
  "Shutdown order srv ss = fold close_session (filter (\<lambda>a. srv_sessions srv a \<noteq> None) order) ss"

text \<open>
  The goroutine of one accepted connection: a session is registered, served and unregistered. \<open>None\<close>
  means that it never ends.
\<close>

definition serve_conn :: "'d engine \<Rightarrow> (bytes \<Rightarrow> bytes \<Rightarrow> bool) \<Rightarrow> 'd inputs list \<Rightarrow> bytes \<Rightarrow> nat \<Rightarrow> conn \<Rightarrow> string \<Rightarrow> gotime
    \<Rightarrow> 'd Server \<Rightarrow> (session \<times> 'd Server) option" where
  "serve_conn E bcrypt inps r a c remote now srv =
     (let srv = registerSession a \<lparr>si_ClientID = '''', si_RemoteAddr = remote, si_Username = '''', si_Connected = now,
            si_Topics = {}\<rparr> srv in
      case Handle E bcrypt inps r (newSession a c remote) srv of
        None \<Rightarrow> None
      | Some (s, srv) \<Rightarrow> Some (s, unregisterSession a srv))"

section \<open>Lemmas\<close>

text \<open>An order that visits every key of a map once.\<close>

definition visits :: "'k list \<Rightarrow> ('k \<rightharpoonup> 'v) \<Rightarrow> bool" where
  "visits order m \<longleftrightarrow> distinct order \<and> dom m \<subseteq> set order"

lemma ListTopics_all:
  "visits order (reg_topics r) \<Longrightarrow> set (ListTopics order r) = dom (reg_topics r) \<and> distinct (ListTopics order r)"
  by (auto simp: ListTopics_def visits_def)

lemma fold_close_session:
  "distinct as \<Longrightarrow> fold close_session as ss = (\<lambda>a. if a \<in> set as then session_Close (ss a) else ss a)"
  by (induction as arbitrary: ss) (auto simp: close_session_def fun_eq_iff)

lemma KickClient_effect:
  assumes "visits order (srv_sessions srv)"
  shows "KickClient order c srv ss = (card {a. kicked c srv a}, \<lambda>a. if kicked c srv a then session_Close (ss a) else ss a)"
proof -
  have set: "set (filter (kicked c srv) order) = {a. kicked c srv a}"
    using assms by (auto simp: visits_def kicked_def split: option.splits)
  have d: "distinct (filter (kicked c srv) order)" using assms by (simp add: visits_def)
  have "length (filter (kicked c srv) order) = card {a. kicked c srv a}"
    using distinct_card [OF d] by (simp only: set)
  moreover have "fold close_session (filter (kicked c srv) order) ss = (\<lambda>a. if kicked c srv a then session_Close (ss a) else ss a)"
    using fold_close_session [OF d, of ss] unfolding set by simp
  ultimately show ?thesis by (simp add: KickClient_def Let_def)
qed

lemma Shutdown_effect:
  assumes "visits order (srv_sessions srv)"
  shows "Shutdown order srv ss = (\<lambda>a. if srv_sessions srv a \<noteq> None then session_Close (ss a) else ss a)"
proof -
  have "set (filter (\<lambda>a. srv_sessions srv a \<noteq> None) order) = dom (srv_sessions srv)"
    using assms by (auto simp: visits_def)
  then show ?thesis
    using fold_close_session [of "filter (\<lambda>a. srv_sessions srv a \<noteq> None) order" ss] assms
    by (auto simp: Shutdown_def visits_def fun_eq_iff)
qed

text \<open>A closed session writes nothing any more.\<close>

lemma closed_session_silent:
  "sent (snd (session_write m f (session_Close s))) = sent s \<and> fst (session_write m f (session_Close s)) \<noteq> None"
  by (simp add: session_write_def conn_Write_def session_Close_def Let_def)

end
