(* ===== verification/Sdk_Client.thy ===== *)
theory Sdk_Client
  imports Session Bounded_Memory
begin

text \<open>
  The Go client library (\<^verbatim>\<open>sdk/go/brokermq\<close>): options, the cache of delivered message ids
  (\<^verbatim>\<open>dedup.go\<close>), the frames the client writes and the loop that reads the broker's frames and
  calls the subscriber's handler (\<^verbatim>\<open>client.go\<close>). The lemmas compare the client's frames with
  the broker's reader and the client's reader with the broker's frames, and show what the
  handler gets to see.
\<close>

section \<open>Options\<close>

record Options =
  o_ClientID :: string
  o_Username :: string
  o_Password :: string
  o_QoS :: byte
  o_KeepAlive :: int
  o_SeenCacheSize :: int
  o_IdempotencyID :: uuid

definition WithClientID :: "string \<Rightarrow> Options \<Rightarrow> Options" where
  "WithClientID i o' = o'\<lparr>o_ClientID := i\<rparr>"

definition WithCredentials :: "string \<Rightarrow> string \<Rightarrow> Options \<Rightarrow> Options" where
  "WithCredentials user pass o' = o'\<lparr>o_Username := user, o_Password := pass\<rparr>"

definition WithQoS :: "byte \<Rightarrow> Options \<Rightarrow> Options" where
  "WithQoS qos o' = o'\<lparr>o_QoS := qos\<rparr>"

definition WithIdempotencyKey :: "uuid \<Rightarrow> Options \<Rightarrow> Options" where
  "WithIdempotencyKey i o' = o'\<lparr>o_IdempotencyID := i\<rparr>"

definition WithSeenCacheSize :: "int \<Rightarrow> Options \<Rightarrow> Options" where
  "WithSeenCacheSize n o' = o'\<lparr>o_SeenCacheSize := n\<rparr>"

definition defaultOptions :: Options where
  "defaultOptions = \<lparr>o_ClientID = ''brokermq-client'', o_Username = '''', o_Password = '''', o_QoS = 1,
     o_KeepAlive = 60 * 1000000000, o_SeenCacheSize = 10000, o_IdempotencyID = uuid_Nil\<rparr>"

text \<open>\<^verbatim>\<open>for _, fn := range opts { fn(&o) }\<close>\<close>

definition apply_options :: "(Options \<Rightarrow> Options) list \<Rightarrow> Options \<Rightarrow> Options" where
  "apply_options fns o' = fold (\<lambda>fn. fn) fns o'"

section \<open>The cache of delivered ids\<close>

record SeenCache =
  sc_cap :: int
  sc_keys :: "uuid list"
  sc_set :: "uuid set"

definition NewSeenCache :: "int \<Rightarrow> SeenCache" where
  "NewSeenCache capacity =
     \<lparr>sc_cap = (if capacity < 1024 then 1024 else capacity), sc_keys = [], sc_set = {}\<rparr>"

definition Seen :: "uuid \<Rightarrow> SeenCache \<Rightarrow> bool \<times> SeenCache" where
  "Seen i c =
     (if i = uuid_Nil then (False, c)
      else if i \<in> sc_set c then (True, c)
      else let c = c\<lparr>sc_set := insert i (sc_set c), sc_keys := sc_keys c @ [i]\<rparr> in
        (False,
         if sc_cap c < int (length (sc_keys c))
         then c\<lparr>sc_set := sc_set c - {hd (sc_keys c)}, sc_keys := tl (sc_keys c)\<rparr>
         else c))"

section \<open>The frames the client writes\<close>

function encodeRemaining :: "nat \<Rightarrow> bytes" where
  "encodeRemaining len =
     (let b = (word_of_nat (len AND 0x7F) :: byte);
          len = drop_bit 7 len;
          b = (if 0 < len then b OR 0x80 else b) in
      if len = 0 then [b] else b # encodeRemaining len)"
  by pat_completeness auto
termination
  by (relation "measure id") (auto simp: drop_bit_eq_div div_greater_zero_iff)

declare encodeRemaining.simps [simp del]

text \<open>A string with its length in front: \<^verbatim>\<open>byte(len(b)>>8), byte(len(b))\<close> and the bytes.\<close>

definition length_prefixed :: "string \<Rightarrow> bytes" where
  "length_prefixed s = (let b = bytes_of s in [word_of_nat (drop_bit 8 (length b)), word_of_nat (length b)] @ b)"

definition connect_frame :: "Options \<Rightarrow> bytes" where
  "connect_frame opts =
     (let flags = (0x02 :: byte) OR
            (if o_Username opts \<noteq> '''' then 0x80 OR (if o_Password opts \<noteq> '''' then 0x40 else 0) else 0);
          vh = [0, 4] @ bytes_of ''MQTT'' @ [4] @ [flags] @ [0, 60] @ length_prefixed (o_ClientID opts)
            @ (if o_Username opts \<noteq> '''' then length_prefixed (o_Username opts) else [])
            @ (if o_Password opts \<noteq> '''' then length_prefixed (o_Password opts) else []) in
      [0x10] @ encodeRemaining (length vh) @ vh)"

definition writePublish_frame :: "string \<Rightarrow> bytes \<Rightarrow> byte \<Rightarrow> u16 \<Rightarrow> bool \<Rightarrow> bytes" where
  "writePublish_frame topic payload qos pid dup =
     (let vh = length_prefixed topic @ (if 0 < qos then [ucast (drop_bit 8 pid), ucast pid] else []);
          flags = push_bit 1 (qos AND 0x03) OR (if dup then 0x08 else 0) in
      [push_bit 4 0x03 OR flags] @ encodeRemaining (length vh + length payload) @ vh @ payload)"

definition subscribe_frame :: "string \<Rightarrow> byte \<Rightarrow> bytes" where
  "subscribe_frame topic qos =
     (let body = [0, 1] @ length_prefixed topic @ [qos AND 0x03] in
      [0x82] @ encodeRemaining (length body) @ body)"

definition puback_frame :: "u16 \<Rightarrow> bytes" where
  "puback_frame pid = [0x40, 0x02, ucast (drop_bit 8 pid), ucast pid]"

section \<open>The client\<close>

text \<open>
  \<open>cl_conn\<close> records what the client writes, \<open>cl_in\<close> is what the broker will send before the
  connection ends: the connection and the buffered reader on it, which is first used after
  the CONNACK was read.
\<close>

record Client =
  cl_addr :: string
  cl_opts :: Options
  cl_conn :: conn
  cl_in :: bytes
  cl_seen :: SeenCache
  cl_nextPID :: u16

definition client_write :: "bytes \<Rightarrow> Client \<Rightarrow> go_error option \<times> Client" where
  "client_write b c = (case conn_Write b (cl_conn c) of (err, cn) \<Rightarrow> (err, c\<lparr>cl_conn := cn\<rparr>))"

definition writePublish :: "string \<Rightarrow> bytes \<Rightarrow> byte \<Rightarrow> u16 \<Rightarrow> bool \<Rightarrow> Client \<Rightarrow> go_error option \<times> Client" where
  "writePublish topic payload qos pid dup c = client_write (writePublish_frame topic payload qos pid dup) c"

definition sendSubscribe :: "string \<Rightarrow> byte \<Rightarrow> Client \<Rightarrow> go_error option \<times> Client" where
  "sendSubscribe topic qos c = client_write (subscribe_frame topic qos) c"

definition sendPubAck :: "u16 \<Rightarrow> Client \<Rightarrow> go_error option \<times> Client" where
  "sendPubAck pid c = client_write (puback_frame pid) c"

text \<open>A failed read has used up what was left of the connection.\<close>

definition connectMQTT :: "Client \<Rightarrow> go_error option \<times> Client" where
  "connectMQTT c =
     (case client_write (connect_frame (cl_opts c)) c of
        (Some err, c) \<Rightarrow> (Some err, c)
      | (None, c) \<Rightarrow>
          (case io_ReadFull (cl_in c) 4 of
             Inl err \<Rightarrow> (Some err, c\<lparr>cl_in := []\<rparr>)
           | Inr (buf, rest) \<Rightarrow>
               (if buf ! 3 \<noteq> 0 then Some (Errorf ''connack refused: %d'' [FNat (unat (buf ! 3))]) else None,
                c\<lparr>cl_in := rest\<rparr>)))"

text \<open>
  \<open>tcp\<close> is the outcome of dialling, a connection and what arrives on it; \<open>handshake\<close> the outcome
  of the TLS handshake on it, which a failed handshake closes.
\<close>

definition uses_tls :: "string \<Rightarrow> bool" where
  "uses_tls addr \<longleftrightarrow> 4 \<le> length addr \<and> drop (length addr - 4) addr = ''8883''"

definition dial :: "(string \<Rightarrow> (conn \<times> bytes) res) \<Rightarrow> (conn \<times> bytes \<Rightarrow> (conn \<times> bytes) res) \<Rightarrow> Client
    \<Rightarrow> go_error option \<times> Client" where
  "dial tcp handshake c =
     (case tcp (cl_addr c) of
        Inl err \<Rightarrow> (Some err, c)
      | Inr plain \<Rightarrow>
          (case (if uses_tls (cl_addr c) then handshake plain else Inr plain) of
             Inl err \<Rightarrow> (Some err, c)
           | Inr (cn, bs) \<Rightarrow> connectMQTT (c\<lparr>cl_conn := cn, cl_in := bs\<rparr>)))"

definition no_conn :: conn where
  "no_conn = \<lparr>cn_out = [], cn_tries = 0, cn_net = (\<lambda>_. None), cn_closed = True\<rparr>"

definition client_Connect :: "(string \<Rightarrow> (conn \<times> bytes) res) \<Rightarrow> (conn \<times> bytes \<Rightarrow> (conn \<times> bytes) res)
    \<Rightarrow> string \<Rightarrow> (Options \<Rightarrow> Options) list \<Rightarrow> Client res" where
  "client_Connect tcp handshake addr opts =
     (let o' = apply_options opts defaultOptions;
          c = \<lparr>cl_addr = addr, cl_opts = o', cl_conn = no_conn, cl_in = [],
               cl_seen = NewSeenCache (o_SeenCacheSize o'), cl_nextPID = 0\<rparr> in
      case dial tcp handshake c of (Some err, _) \<Rightarrow> Inl err | (None, c) \<Rightarrow> Inr c)"

text \<open>\<open>newV7\<close> is the fresh UUID and \<open>now\<close> the time of the call.\<close>

definition client_Publish :: "uuid \<Rightarrow> gotime \<Rightarrow> string \<Rightarrow> bytes \<Rightarrow> (Options \<Rightarrow> Options) list \<Rightarrow> Client
    \<Rightarrow> go_error option \<times> Client" where
  "client_Publish newV7 now topic payload opts c =
     (let o' = apply_options opts (cl_opts c);
          idem = (if o_IdempotencyID o' = uuid_Nil then newV7 else o_IdempotencyID o');
          wire = Encode (NewPublish newV7 now idem payload);
          qos = o_QoS o';
          pid = (if 0 < qos then cl_nextPID c else 0);
          c = (if 0 < qos
               then c\<lparr>cl_nextPID := (if cl_nextPID c + 1 = 0 then 1 else cl_nextPID c + 1)\<rparr> else c) in
      writePublish topic wire qos pid False c)"

definition client_Close :: "Client \<Rightarrow> Client" where
  "client_Close c = c\<lparr>cl_conn := (cl_conn c)\<lparr>cn_closed := True\<rparr>\<rparr>"

section \<open>The frames the client reads\<close>

text \<open>
  The length is a Go \<^verbatim>\<open>int\<close>, 64 bits wide: bits shifted past its end are lost. There is no bound
  on the number of bytes.
\<close>

fun client_readRemainingLength_loop :: "bytes \<Rightarrow> u64 \<Rightarrow> nat \<Rightarrow> (u64 \<times> bytes) res" where
  "client_readRemainingLength_loop [] len shift = Inl io_EOF"
| "client_readRemainingLength_loop (b # r) len shift =
     (let len = len OR push_bit shift (ucast (b AND 0x7F)) in
      if b AND 0x80 = 0 then Inr (len, r) else client_readRemainingLength_loop r len (shift + 7))"

definition client_readRemainingLength :: "bytes \<Rightarrow> (u64 \<times> bytes) res" where
  "client_readRemainingLength r = client_readRemainingLength_loop r 0 0"

text \<open>\<^verbatim>\<open>make([]byte, n)\<close> panics for a negative length or one beyond the address space.\<close>

definition readPacketFlags :: "bytes \<Rightarrow> ((byte \<times> byte \<times> bytes) \<times> bytes) res" where
  "readPacketFlags r =
     rbind (io_ReadFull r 1) (\<lambda>(h, r).
     let pktType = drop_bit 4 (h ! 0); flags = (h ! 0) AND 0x0F in
     rbind (client_readRemainingLength r) (\<lambda>(rem, r).
     if sint rem < 0 \<or> max_alloc < sint rem then Inl (Panic ''makeslice: len out of range'')
     else rbind (if 0 < sint rem then io_ReadFull r (unat rem) else Inr ([], r)) (\<lambda>(body, r).
     Inr ((pktType, flags, body), r))))"

definition parsePublishBody :: "bytes \<Rightarrow> byte \<Rightarrow> string \<times> bytes \<times> u16" where
  "parsePublishBody body qos =
     (if length body < 2 then ('''', [], 0)
      else let tl = unat (get_be (take 2 body) :: u16) in
      if length body < 2 + tl then ('''', [], 0)
      else let pos = 2 + tl; topic = string_of (take tl (drop 2 body)) in
      if 0 < qos \<and> pos + 2 \<le> length body
      then (topic, drop (pos + 2) body, get_be (take 2 (drop pos body)))
      else (topic, drop pos body, 0))"

text \<open>What the handler is called with. The code sets no sequence number.\<close>

record sdk_Message =
  sm_Topic :: string
  sm_Payload :: bytes
  sm_Seq :: u64
  sm_IdempotencyID :: uuid
  sm_ServerMsgID :: uuid
  sm_PublishTS :: gotime

definition received_env :: "bytes \<Rightarrow> Envelope" where
  "received_env wire =
     (case Decode wire of
        Inr env \<Rightarrow> env
      | Inl _ \<Rightarrow> \<lparr>env_IdempotencyID = uuid_Nil, env_ServerMsgID = uuid_Nil, env_PublishTS = zero_time,
                  env_UserProps = [], env_Payload = wire\<rparr>)"

definition handler_message :: "string \<Rightarrow> Envelope \<Rightarrow> sdk_Message" where
  "handler_message topic env = \<lparr>sm_Topic = topic, sm_Payload = env_Payload env, sm_Seq = 0,
     sm_IdempotencyID = env_IdempotencyID env, sm_ServerMsgID = env_ServerMsgID env,
     sm_PublishTS = env_PublishTS env\<rparr>"

text \<open>What one pass of the loop does with a packet it has read: the calls of the handler.\<close>

definition receive_packet :: "byte \<times> byte \<times> bytes \<Rightarrow> Client \<Rightarrow> sdk_Message list \<times> Client" where
  "receive_packet p c =
     (case p of (pktType, flags, body) \<Rightarrow>
      if pktType \<noteq> 3 then ([], c)
      else case parsePublishBody body (drop_bit 1 flags AND 0x03) of (topic, wire, pid) \<Rightarrow>
      let env = received_env wire;
          (seen, cache) = Seen (env_ServerMsgID env) (cl_seen c);
          c = c\<lparr>cl_seen := cache\<rparr>;
          acked = (if 0 < pid then snd (sendPubAck pid c) else c) in
      (if seen then [] else [handler_message topic env], acked))"

text \<open>
  The loop, in which the context is done after \<open>n\<close> passes: the calls of the handler in order,
  the error that ended it, if any, and the client.
\<close>

fun receive_loop :: "nat \<Rightarrow> Client \<Rightarrow> sdk_Message list \<times> go_error option \<times> Client" where
  "receive_loop 0 c = ([], None, c)"
| "receive_loop (Suc n) c =
     (case readPacketFlags (cl_in c) of
        Inl err \<Rightarrow> ([], Some err, c\<lparr>cl_in := []\<rparr>)
      | Inr (p, rest) \<Rightarrow>
          (case receive_packet p (c\<lparr>cl_in := rest\<rparr>) of (ms, c) \<Rightarrow>
           case receive_loop n c of (ms', err, c) \<Rightarrow> (ms @ ms', err, c)))"

text \<open>
  Subscribing: the packet that answers is read and not looked at. Then the loop runs.
\<close>

definition client_Subscribe :: "string \<Rightarrow> Client \<Rightarrow> go_error option \<times> Client" where
  "client_Subscribe topicFilter c =
     (case sendSubscribe topicFilter (o_QoS (cl_opts c)) c of
        (Some err, c) \<Rightarrow> (Some err, c)
      | (None, c) \<Rightarrow>
          (case readPacketFlags (cl_in c) of
             Inl err \<Rightarrow> (Some err, c\<lparr>cl_in := []\<rparr>)
           | Inr (_, rest) \<Rightarrow> (None, c\<lparr>cl_in := rest\<rparr>)))"

section \<open>The client's frames and the broker's reader\<close>

lemma encodeRemaining_eq: "encodeRemaining n = encodeRemainingLength n"
proof (induction n rule: encodeRemaining.induct)
  case (1 len)
  then show ?case
    by (subst encodeRemaining.simps, subst encodeRemainingLength.simps) (auto simp: Let_def)
qed

lemma length_prefixed_eq: "length_prefixed s = encodeString s"
  by (simp add: length_prefixed_def encodeString_def)

lemmas sdk_frame_simps = encodeRemaining_eq length_prefixed_eq Let_def

lemma writePublish_frame_eq:
  "qos < 4 \<Longrightarrow> writePublish_frame topic payload qos pid dup = WritePublish topic payload qos pid dup"
  by (drule qos_cases) (auto simp: writePublish_frame_def WritePublish_def sdk_frame_simps packet_id_bytes_def)

lemma puback_frame_eq: "puback_frame pid = WritePubAck pid"
  by (simp add: puback_frame_def WritePubAck_def packet_id_bytes_def)

lemma ReadPacket_subscribe_frame:
  assumes "length topic < 65536"
  shows "ReadPacket (subscribe_frame topic qos @ rest) =
    Inr ((new_packet TypeSubscribe)\<lparr>pkt_Subscribe := Some \<lparr>sp_PacketID = 1,
      sp_Topics = [\<lparr>tf_Filter = topic, tf_QoS = qos AND 0x03\<rparr>]\<rparr>\<rparr>, rest)"
proof -
  let ?tf = "\<lparr>tf_Filter = topic, tf_QoS = qos AND 0x03\<rparr>"
  let ?body = "packet_id_bytes 1 @ concat (map filter_field [?tf])"
  have wf: "list_all wf_filter [?tf]"
    using assms by (simp add: wf_filter_def)
  have "subscribe_frame topic qos @ rest = 0x82 # encodeRemainingLength (length ?body) @ ?body @ rest"
    by (simp add: subscribe_frame_def sdk_frame_simps filter_field_def packet_id_bytes_def)
  moreover have "length ?body < 268435456" using assms by (simp add: filter_field_def)
  ultimately show ?thesis
    using parseSubscribe_body [OF wf, of 1] by (simp only: ReadPacket_frame) (simp add: parsePacket_def Let_def go_simps)
qed

text \<open>
  The CONNECT frame: the broker reads back the client id and the credentials, except that a
  password without a user name is lost, since no flag announces it.
\<close>

definition wf_options :: "Options \<Rightarrow> bool" where
  "wf_options opts \<longleftrightarrow> length (o_ClientID opts) < 65536 \<and> length (o_Username opts) < 65536
     \<and> length (o_Password opts) < 65536"

definition connect_packet :: "Options \<Rightarrow> ConnectPacket" where
  "connect_packet opts = \<lparr>cp_ClientID = o_ClientID opts, cp_Username = o_Username opts,
     cp_Password = (if o_Username opts = '''' then '''' else o_Password opts), cp_CleanSession = True, cp_KeepAlive = 60\<rparr>"

lemma readStringIf_at:
  "length s < 65536 \<Longrightarrow> n = length pre \<Longrightarrow> (\<not> flag \<Longrightarrow> s = '''') \<Longrightarrow>
   readStringIf flag what (pre @ (if flag then encodeString s else []) @ post) n
     = Inr (s, n + (if flag then 2 + length s else 0))"
  using str.rd_at [of s pre post] by (auto simp: readStringIf_def)

lemma connect_flags:
  fixes u p :: bool
  defines "f \<equiv> (0x02 :: byte) OR (if u then 0x80 OR (if p then 0x40 else 0) else 0)"
  shows "f AND 0x02 \<noteq> 0" "(f AND 0x80 \<noteq> 0) = u" "(f AND 0x40 \<noteq> 0) = (u \<and> p)" "f AND 0x04 = 0"
  unfolding f_def by auto

lemma parseConnect_frame:
  assumes "wf_options opts"
  defines "f \<equiv> (0x02 :: byte) OR (if o_Username opts \<noteq> '''' then 0x80 OR (if o_Password opts \<noteq> '''' then 0x40 else 0) else 0)"
    and "us \<equiv> (if o_Username opts \<noteq> '''' then encodeString (o_Username opts) else [])"
    and "ps \<equiv> (if o_Password opts \<noteq> '''' then encodeString (o_Password opts) else [])"
  shows "parseConnect (encodeString ''MQTT'' @ [4, f, 0, 60] @ encodeString (o_ClientID opts) @ us @ ps)
    = Inr (connect_packet opts)"
proof -
  define b where "b = encodeString ''MQTT'' @ [4, f, 0, 60] @ encodeString (o_ClientID opts) @ us @ ps"
  let ?p = "10 + (2 + length (o_ClientID opts))"
  note wf = assms(1) [unfolded wf_options_def]
  have name: "readString b 0 = Inr (''MQTT'', 6)"
    using str.rd_front [of "''MQTT''"] by (simp add: b_def)
  have flags: "b ! 7 = f" "take 2 (drop 8 b) = [0, 60]" "12 \<le> length b"
    by (simp_all add: b_def encodeString_def Let_def bytes_of_def)
  have cid: "readString b 10 = Inr (o_ClientID opts, ?p)"
    using str.rd_pos [of "o_ClientID opts" 10 "encodeString ''MQTT'' @ [4, f, 0, 60]"] wf by (simp add: b_def)
  let ?pre = "encodeString ''MQTT'' @ [4, f, 0, 60] @ encodeString (o_ClientID opts)"
  have user: "readStringIf (o_Username opts \<noteq> '''') w b ?p
      = Inr (o_Username opts, ?p + length us)" for w
    using readStringIf_at [of "o_Username opts" ?p ?pre "o_Username opts \<noteq> ''''" w ps] wf
    by (simp add: us_def b_def)
  have pass: "readStringIf (o_Username opts \<noteq> '''' \<and> o_Password opts \<noteq> '''') w b (?p + length us)
      = Inr (if o_Username opts = '''' then '''' else o_Password opts, ?p + length us
          + (if o_Username opts \<noteq> '''' then length ps else 0))" for w
  proof (cases "o_Username opts = ''''")
    case True
    then show ?thesis by (simp add: readStringIf_def)
  next
    case False
    then show ?thesis
      using readStringIf_at [of "o_Password opts" "?p + length us" "?pre @ us" "o_Password opts \<noteq> ''''" w "[]"] wf
      by (simp add: ps_def b_def)
  qed
  note cf = connect_flags [of "o_Username opts \<noteq> ''''" "o_Password opts \<noteq> ''''", folded f_def]
  have nowill: "readStringIf False w b n = Inr ('''', n)" for w n by (simp add: readStringIf_def)
  have "parseConnect b = Inr (connect_packet opts)"
    unfolding parseConnect_def using flags(3) user pass
    by (cases "o_Username opts = ''''")
      (simp_all add: name go_simps flags(1,2) cf cid nowill Let_def connect_packet_def)
  then show ?thesis by (simp only: b_def)
qed

lemma ReadPacket_connect_frame:
  assumes "wf_options opts"
  shows "ReadPacket (connect_frame opts @ rest)
    = Inr ((new_packet TypeConnect)\<lparr>pkt_Connect := Some (connect_packet opts)\<rparr>, rest)"
proof -
  let ?f = "(0x02 :: byte) OR (if o_Username opts \<noteq> '''' then 0x80 OR (if o_Password opts \<noteq> '''' then 0x40 else 0) else 0)"
  let ?vh = "encodeString ''MQTT'' @ [4, ?f, 0, 60] @ encodeString (o_ClientID opts)
    @ (if o_Username opts \<noteq> '''' then encodeString (o_Username opts) else [])
    @ (if o_Password opts \<noteq> '''' then encodeString (o_Password opts) else [])"
  have "[0, 4] @ bytes_of ''MQTT'' = encodeString ''MQTT''"
    by (simp add: encodeString_def Let_def drop_bit_eq_div)
  then have frame: "connect_frame opts @ rest = 0x10 # encodeRemainingLength (length ?vh) @ ?vh @ rest"
    by (simp add: connect_frame_def sdk_frame_simps eval_nat_numeral)
  have len: "length ?vh < 268435456" using assms by (simp add: wf_options_def)
  show ?thesis
    unfolding frame ReadPacket_frame [OF len] parsePacket_def parseConnect_frame [OF assms]
    by (simp add: Let_def go_simps)
qed

section \<open>The broker's frames and the client's reader\<close>

lemma word_or_shift:
  "(word_of_nat (len OR push_bit shift (unat b)) :: u64) = word_of_nat len OR push_bit shift (ucast (b :: byte))"
  by (rule bit_word_eqI) (auto simp: bit_simps)

lemma client_loop_reads:
  "readRemainingLength_loop r len shift = Inr (n, r')
    \<Longrightarrow> client_readRemainingLength_loop r (word_of_nat len) shift = Inr (word_of_nat n, r')"
proof (induction r len shift rule: readRemainingLength_loop.induct)
  case (2 b r len shift)
  then show ?case
    by (auto simp: Let_def word_or_shift [symmetric] split: if_splits)
qed simp

lemma client_readRemainingLength_reads:
  "readRemainingLength r = Inr (n, r') \<Longrightarrow> client_readRemainingLength r = Inr (word_of_nat n, r')"
  using client_loop_reads [of r 0 0] by (simp add: readRemainingLength_def client_readRemainingLength_def)

lemma readPacketFlags_frame:
  assumes "length body < 268435456"
  shows "readPacketFlags (h # encodeRemainingLength (length body) @ body @ rest)
    = Inr ((drop_bit 4 h, h AND 0x0F, body), rest)"
proof -
  have u: "unat (word_of_nat (length body) :: u64) = length body" using assms by (simp add: unat_of_nat)
  have s: "sint (word_of_nat (length body) :: u64) = int (length body)"
    using assms by (simp add: signed_of_nat signed_take_bit_int_eq_self)
  have "client_readRemainingLength (encodeRemainingLength (length body) @ body @ rest)
      = Inr (word_of_nat (length body), body @ rest)"
    by (rule client_readRemainingLength_reads) (rule readRemainingLength_encode [OF assms])
  then show ?thesis
    using assms by (auto simp: readPacketFlags_def io_ReadFull_def s u max_alloc_def)
qed

text \<open>The first byte and the body of a PUBLISH frame, as the client takes them apart.\<close>

definition publish_parts :: "PublishPacket \<Rightarrow> byte \<times> byte \<times> bytes" where
  "publish_parts pp =
     (let h = push_bit 4 3 OR (push_bit 1 (pp_QoS pp) OR (if pp_Dup pp then 0x08 else 0)) :: byte in
      (drop_bit 4 h, h AND 0x0F,
       encodeString (pp_TopicName pp) @ (if 0 < pp_QoS pp then packet_id_bytes (pp_PacketID pp) else []) @ pp_Payload pp))"

lemma readPacketFlags_publish_frame:
  assumes "wf_publish pp"
  shows "readPacketFlags (publish_frame pp @ rest) = Inr (publish_parts pp, rest)"
proof -
  let ?body = "encodeString (pp_TopicName pp)
      @ (if 0 < pp_QoS pp then packet_id_bytes (pp_PacketID pp) else []) @ pp_Payload pp"
  let ?h = "push_bit 4 3 OR (push_bit 1 (pp_QoS pp) OR (if pp_Dup pp then 0x08 else 0)) :: byte"
  have "length ?body < 268435456" using assms by (auto simp: wf_publish_def)
  note frame = readPacketFlags_frame [OF this, of ?h rest]
  have "publish_frame pp @ rest = ?h # encodeRemainingLength (length ?body) @ ?body @ rest"
    by (simp add: publish_frame_def WritePublish_def Let_def)
  then show ?thesis unfolding publish_parts_def Let_def by (simp only: frame)
qed

lemma parsePublishBody_parts:
  assumes "wf_publish pp" "publish_parts pp = (t, f, body)"
  shows "t = 3" "parsePublishBody body (drop_bit 1 f AND 0x03) = (pp_TopicName pp, pp_Payload pp, pp_PacketID pp)"
proof -
  have q: "pp_QoS pp < 4" and n: "length (pp_TopicName pp) < 65536"
    using assms(1) by (auto simp: wf_publish_def)
  note fl = publish_flags [OF q, of "pp_Dup pp"]
  show "t = 3" using assms(2) fl(1) by (simp add: publish_parts_def Let_def)
  have f: "drop_bit 1 f AND 0x03 = pp_QoS pp"
    using assms(2) fl(3) by (auto simp: publish_parts_def Let_def)
  have body: "body = put_be 2 (word_of_nat (length (pp_TopicName pp)) :: u16) @ bytes_of (pp_TopicName pp)
      @ (if 0 < pp_QoS pp then packet_id_bytes (pp_PacketID pp) else []) @ pp_Payload pp"
    using assms(2) n by (auto simp: publish_parts_def Let_def encodeString_put_be)
  have "(get_be (take 2 body) :: u16) = word_of_nat (length (pp_TopicName pp))"
    by (simp add: body get_be_put_be)
  then have tl: "unat (get_be (take 2 body) :: u16) = length (pp_TopicName pp)" using n by simp
  show "parsePublishBody body (drop_bit 1 f AND 0x03) = (pp_TopicName pp, pp_Payload pp, pp_PacketID pp)"
    unfolding f parsePublishBody_def Let_def tl
    using assms(1) by (auto simp: body wf_publish_def word_gt_0)
qed

text \<open>What the loop makes of a packet.\<close>

definition packet_env :: "PublishPacket \<Rightarrow> Envelope" where
  "packet_env pp = received_env (pp_Payload pp)"

definition ack_packet :: "PublishPacket \<Rightarrow> Client \<Rightarrow> Client" where
  "ack_packet pp c = (if 0 < pp_PacketID pp then snd (sendPubAck (pp_PacketID pp) c) else c)"

lemma receive_packet_publish:
  assumes "wf_publish pp"
  shows "receive_packet (publish_parts pp) c =
    (if fst (Seen (env_ServerMsgID (packet_env pp)) (cl_seen c)) then []
     else [handler_message (pp_TopicName pp) (packet_env pp)],
     ack_packet pp (c\<lparr>cl_seen := snd (Seen (env_ServerMsgID (packet_env pp)) (cl_seen c))\<rparr>))"
proof -
  obtain t f body where parts: "publish_parts pp = (t, f, body)" by (cases "publish_parts pp") auto
  note p = parsePublishBody_parts [OF assms parts]
  obtain seen cache where "Seen (env_ServerMsgID (packet_env pp)) (cl_seen c) = (seen, cache)" by fastforce
  then show ?thesis
    unfolding receive_packet_def parts prod.case p packet_env_def
    by (simp add: ack_packet_def Let_def)
qed

section \<open>The cache remembers\<close>

definition seen_inv :: "SeenCache \<Rightarrow> bool" where
  "seen_inv c \<longleftrightarrow> sc_set c = set (sc_keys c) \<and> distinct (sc_keys c) \<and> uuid_Nil \<notin> set (sc_keys c)
     \<and> int (length (sc_keys c)) \<le> sc_cap c \<and> 1024 \<le> sc_cap c"

lemma seen_inv_New [simp]: "seen_inv (NewSeenCache n)"
  by (simp add: seen_inv_def NewSeenCache_def)

lemma NewSeenCache_fields [simp]:
  "sc_keys (NewSeenCache n) = []" "sc_set (NewSeenCache n) = {}" "sc_cap (NewSeenCache n) = max 1024 n"
  by (simp_all add: NewSeenCache_def)

lemma Seen_cap [simp]: "sc_cap (snd (Seen i c)) = sc_cap c"
  by (simp add: Seen_def Let_def)

text \<open>A new id is appended, and the oldest one dropped if there are too many.\<close>

lemma Seen_keys:
  assumes "seen_inv c" "i \<noteq> uuid_Nil" "i \<notin> sc_set c"
  shows "sc_keys (snd (Seen i c)) = drop (length (sc_keys c @ [i]) - nat (sc_cap c)) (sc_keys c @ [i])"
    "sc_set (snd (Seen i c)) = set (sc_keys (snd (Seen i c)))"
proof -
  have le: "int (length (sc_keys c)) \<le> sc_cap c" "0 < sc_cap c" and d: "distinct (sc_keys c @ [i])"
    using assms by (auto simp: seen_inv_def)
  obtain k ks where ks: "sc_keys c @ [i] = k # ks" by (cases "sc_keys c @ [i]") auto
  have set: "insert i (sc_set c) = set (k # ks)" using assms(1) ks by (simp add: seen_inv_def flip: ks)
  show "sc_keys (snd (Seen i c)) = drop (length (sc_keys c @ [i]) - nat (sc_cap c)) (sc_keys c @ [i])"
  proof (cases "sc_cap c < int (length (sc_keys c @ [i]))")
    case True
    then have "length (sc_keys c @ [i]) - nat (sc_cap c) = 1" using le by simp
    with True show ?thesis using assms(2,3) ks by (simp add: Seen_def Let_def)
  next
    case False
    then show ?thesis using assms(2,3) by (simp add: Seen_def Let_def)
  qed
  show "sc_set (snd (Seen i c)) = set (sc_keys (snd (Seen i c)))"
    using assms(2,3) d by (auto simp: Seen_def Let_def set ks)
qed

lemma Seen_known:
  "i = uuid_Nil \<or> i \<in> sc_set c \<Longrightarrow> Seen i c = (i \<noteq> uuid_Nil, c)"
  by (auto simp: Seen_def)

lemma Seen_fst: "fst (Seen i c) \<longleftrightarrow> i \<noteq> uuid_Nil \<and> i \<in> sc_set c"
  by (simp add: Seen_def Let_def)

lemma seen_inv_Seen:
  assumes "seen_inv c"
  shows "seen_inv (snd (Seen i c))"
proof (cases "i = uuid_Nil \<or> i \<in> sc_set c")
  case True
  then show ?thesis using assms by (simp add: Seen_known)
next
  case False
  then have "distinct (sc_keys c @ [i])" "uuid_Nil \<notin> set (sc_keys c @ [i])"
    using assms by (auto simp: seen_inv_def)
  then show ?thesis
    using Seen_keys [OF assms] False assms
    by (auto simp: seen_inv_def simp del: drop_append distinct_append set_append dest: in_set_dropD)
qed

interpretation seen: bounded_memory
  "\<lambda>c k (_ :: unit) n. age_in (sc_keys c) k = Some n" "\<lambda>_ _. True" "\<lambda>i c. snd (Seen i c)"
  "\<lambda>c. nat (sc_cap c)" seen_inv
proof unfold_locales
  fix c k and v :: unit and n i
  assume inv: "seen_inv c" and k: "age_in (sc_keys c) k = Some n" and n: "Suc n < nat (sc_cap c)"
  show "\<exists>m \<le> Suc n. age_in (sc_keys (snd (Seen i c))) k = Some m"
  proof (cases "i = uuid_Nil \<or> i \<in> sc_set c")
    case True
    then show ?thesis using k by (auto simp: Seen_known)
  next
    case False
    then have "i \<noteq> k" using k inv by (auto simp: seen_inv_def age_in_def split: if_splits)
    then have "age_in (sc_keys c @ [i]) k = Some (Suc n)" using k by (simp add: age_in_snoc)
    from age_in_drop [OF this n] show ?thesis using Seen_keys(1) [OF inv] False by auto
  qed
qed (simp_all add: seen_inv_Seen)

section \<open>What the handler gets to see\<close>

abbreviation server_id :: "PublishPacket \<Rightarrow> uuid" where
  "server_id pp \<equiv> env_ServerMsgID (packet_env pp)"

abbreviation handed_over :: "PublishPacket \<Rightarrow> sdk_Message" where
  "handed_over pp \<equiv> handler_message (pp_TopicName pp) (packet_env pp)"

text \<open>The first packet for each server id that is not known already.\<close>

fun firsts :: "uuid set \<Rightarrow> PublishPacket list \<Rightarrow> PublishPacket list" where
  "firsts S [] = []"
| "firsts S (pp # pps) =
     (if server_id pp \<in> S then firsts S pps else pp # firsts (insert (server_id pp) S) pps)"

definition client_up :: "Client \<Rightarrow> bool" where
  "client_up c \<longleftrightarrow> \<not> cn_closed (cl_conn c) \<and> cn_net (cl_conn c) = (\<lambda>_. None)"

lemma client_up_update [simp]:
  "client_up (c\<lparr>cl_in := b\<rparr>) = client_up c" "client_up (c\<lparr>cl_seen := s\<rparr>) = client_up c"
  by (simp_all add: client_up_def)

definition acks :: "PublishPacket list \<Rightarrow> bytes list" where
  "acks pps = map (\<lambda>pp. WritePubAck (pp_PacketID pp)) (filter (\<lambda>pp. 0 < pp_PacketID pp) pps)"

lemma client_write_up:
  "client_up c \<Longrightarrow> client_write b c = (None, c\<lparr>cl_conn := (cl_conn c)\<lparr>cn_tries := Suc (cn_tries (cl_conn c)),
     cn_out := cn_out (cl_conn c) @ [b]\<rparr>\<rparr>)"
  by (simp add: client_up_def client_write_def conn_Write_def Let_def)

lemma ack_packet_fields [simp]:
  "cl_in (ack_packet pp c) = cl_in c" "cl_seen (ack_packet pp c) = cl_seen c" "cl_opts (ack_packet pp c) = cl_opts c"
  "client_up (ack_packet pp c) = client_up c"
  by (simp_all add: ack_packet_def sendPubAck_def client_write_def conn_Write_def client_up_def Let_def split: prod.splits option.splits)

lemma ack_packet_out: "client_up c \<Longrightarrow> cn_out (cl_conn (ack_packet pp c)) = cn_out (cl_conn c) @ acks [pp]"
  by (simp add: ack_packet_def sendPubAck_def client_write_up acks_def puback_frame_eq)

lemma receive_loop_publish:
  assumes "wf_publish pp" "cl_in c = publish_frame pp @ rest"
    and "c' = ack_packet pp (c\<lparr>cl_in := rest, cl_seen := snd (Seen (server_id pp) (cl_seen c))\<rparr>)"
    and "receive_loop n c' = (ms, err, c'')"
  shows "receive_loop (Suc n) c = ((if fst (Seen (server_id pp) (cl_seen c)) then [] else [handed_over pp]) @ ms, err, c'')"
  using assms by (simp add: readPacketFlags_publish_frame receive_packet_publish)

lemma receive_loop_stream:
  assumes "list_all wf_publish pps" "\<forall>pp \<in> set pps. server_id pp \<noteq> uuid_Nil"
    and "seen_inv (cl_seen c)" "length (sc_keys (cl_seen c)) + length pps \<le> nat (sc_cap (cl_seen c))"
    and "client_up c" "cl_in c = concat (map publish_frame pps) @ rest"
  shows "\<exists>c'. receive_loop (length pps) c = (map handed_over (firsts (sc_set (cl_seen c)) pps), None, c')
    \<and> cl_in c' = rest \<and> cn_out (cl_conn c') = cn_out (cl_conn c) @ acks pps"
  using assms
proof (induction pps arbitrary: c)
  case Nil
  then show ?case by (simp add: acks_def)
next
  case (Cons pp pps)
  let ?i = "server_id pp" and ?S = "sc_set (cl_seen c)"
  let ?rest = "concat (map publish_frame pps) @ rest"
  let ?c = "ack_packet pp (c\<lparr>cl_in := ?rest, cl_seen := snd (Seen ?i (cl_seen c))\<rparr>)"
  have i: "?i \<noteq> uuid_Nil" and wf: "wf_publish pp" using Cons.prems by auto
  have room: "length (sc_keys (cl_seen c)) < nat (sc_cap (cl_seen c))" using Cons.prems(4) by simp
  have step: "sc_set (cl_seen ?c) = insert ?i ?S"
    "length (sc_keys (cl_seen ?c)) \<le> Suc (length (sc_keys (cl_seen c)))"
    using Seen_keys [OF Cons.prems(3) i] room Seen_known [of ?i "cl_seen c"] Cons.prems(3)
    by (cases "?i \<in> ?S"; force simp: seen_inv_def)+
  have up: "client_up ?c" using Cons.prems(5) by simp
  obtain c' where c': "receive_loop (length pps) ?c = (map handed_over (firsts (insert ?i ?S) pps), None, c')"
    "cl_in c' = rest" "cn_out (cl_conn c') = cn_out (cl_conn ?c) @ acks pps"
    using Cons.IH [of ?c] Cons.prems step up by (auto simp: seen_inv_Seen)
  have out: "cn_out (cl_conn ?c) = cn_out (cl_conn c) @ acks [pp]"
    using Cons.prems(5) by (subst ack_packet_out) simp_all
  have "receive_loop (Suc (length pps)) c =
      ((if fst (Seen ?i (cl_seen c)) then [] else [handed_over pp]) @ map handed_over (firsts (insert ?i ?S) pps), None, c')"
    by (rule receive_loop_publish [OF wf _ refl c'(1)]) (simp add: Cons.prems(6))
  then show ?case
    using c'(2,3) i out by (auto simp: Seen_fst acks_def insert_absorb)
qed

text \<open>The loop in two parts, and the cache after a stream of packets.\<close>

lemma receive_loop_add:
  "receive_loop m c = (ms, None, c') \<Longrightarrow> receive_loop n c' = (ms', err, c'')
    \<Longrightarrow> receive_loop (m + n) c = (ms @ ms', err, c'')"
proof (induction m arbitrary: c ms)
  case (Suc m)
  from Suc.prems(1) obtain p rest where p: "readPacketFlags (cl_in c) = Inr (p, rest)"
    by (auto split: sum.splits)
  obtain ms1 c1 where r: "receive_packet p (c\<lparr>cl_in := rest\<rparr>) = (ms1, c1)" by fastforce
  obtain ms2 err2 c2 where l: "receive_loop m c1 = (ms2, err2, c2)" by (cases "receive_loop m c1") auto
  with Suc.prems(1) p r have eq: "ms = ms1 @ ms2" "err2 = None" "c2 = c'" by auto
  with Suc.IH [of c1 ms2] l Suc.prems(2) have "receive_loop (m + n) c1 = (ms2 @ ms', err, c'')" by simp
  then show ?case using p r eq by simp
qed simp

lemma receive_loop_seen:
  assumes "list_all wf_publish pps" "cl_in c = concat (map publish_frame pps) @ rest"
  shows "\<exists>ms c'. receive_loop (length pps) c = (ms, None, c') \<and> cl_in c' = rest
    \<and> cl_seen c' = fold (\<lambda>i c. snd (Seen i c)) (map server_id pps) (cl_seen c)
    \<and> (client_up c \<longrightarrow> client_up c' \<and> cn_out (cl_conn c') = cn_out (cl_conn c) @ acks pps)"
  using assms
proof (induction pps arbitrary: c)
  case Nil
  then show ?case by (simp add: acks_def)
next
  case (Cons pp pps)
  let ?rest = "concat (map publish_frame pps) @ rest"
  let ?d = "c\<lparr>cl_in := ?rest, cl_seen := snd (Seen (server_id pp) (cl_seen c))\<rparr>"
  let ?c = "ack_packet pp ?d"
  obtain ms c' where c': "receive_loop (length pps) ?c = (ms, None, c')" "cl_in c' = rest"
    "cl_seen c' = fold (\<lambda>i c. snd (Seen i c)) (map server_id pps) (cl_seen ?c)"
    "client_up ?c \<longrightarrow> client_up c' \<and> cn_out (cl_conn c') = cn_out (cl_conn ?c) @ acks pps"
    using Cons.IH [of ?c] Cons.prems by auto
  have out: "client_up c \<Longrightarrow> cn_out (cl_conn ?c) = cn_out (cl_conn c) @ acks [pp]"
    by (subst ack_packet_out) simp_all
  have "receive_loop (Suc (length pps)) c =
      ((if fst (Seen (server_id pp) (cl_seen c)) then [] else [handed_over pp]) @ ms, None, c')"
    by (rule receive_loop_publish [OF _ _ refl c'(1)]) (use Cons.prems in auto)
  then show ?case using c'(2-4) out by (auto simp: acks_def)
qed

section \<open>Properties\<close>

text \<open>
  The broker reads what the client library writes. The frames the library writes
  are read by the broker as the packets they stand for, whatever follows them on the
  connection: CONNECT with the client id, the credentials and a clean session (but a
  password without a user name is lost), PUBLISH as the packet the broker's own writer would
  write, SUBSCRIBE with packet id 1 and one filter, PUBACK.
\<close>

theorem sdk_frames_read_by_broker:
  assumes "wf_options opts" "wf_publish pp" "length topic < 65536"
  shows "ReadPacket (connect_frame opts @ rest) = Inr ((new_packet TypeConnect)\<lparr>pkt_Connect := Some
      \<lparr>cp_ClientID = o_ClientID opts, cp_Username = o_Username opts,
       cp_Password = (if o_Username opts = '''' then '''' else o_Password opts), cp_CleanSession = True, cp_KeepAlive = 60\<rparr>\<rparr>, rest)
    \<and> ReadPacket (writePublish_frame (pp_TopicName pp) (pp_Payload pp) (pp_QoS pp) (pp_PacketID pp) (pp_Dup pp) @ rest)
        = Inr ((new_packet TypePublish)\<lparr>pkt_Publish := Some pp\<rparr>, rest)
    \<and> ReadPacket (subscribe_frame topic qos @ rest) = Inr ((new_packet TypeSubscribe)\<lparr>pkt_Subscribe := Some
        \<lparr>sp_PacketID = 1, sp_Topics = [\<lparr>tf_Filter = topic, tf_QoS = qos AND 0x03\<rparr>]\<rparr>\<rparr>, rest)
    \<and> ReadPacket (puback_frame pid @ rest) = Inr ((new_packet TypePubAck)\<lparr>pkt_PubAck := Some \<lparr>pa_PacketID = pid\<rparr>\<rparr>, rest)"
proof -
  have "writePublish_frame (pp_TopicName pp) (pp_Payload pp) (pp_QoS pp) (pp_PacketID pp) (pp_Dup pp) = publish_frame pp"
    using assms(2) by (simp add: writePublish_frame_eq wf_publish_def publish_frame_def)
  then show ?thesis
    using ReadPacket_connect_frame [OF assms(1)] ReadPacket_publish_frame [OF assms(2)]
      ReadPacket_subscribe_frame [OF assms(3)] ReadPacket_pubAck_frame
    by (simp add: puback_frame_eq connect_packet_def)
qed

definition sample_pub :: "uuid \<Rightarrow> u16 \<Rightarrow> PublishPacket" where
  "sample_pub i pid = \<lparr>pp_TopicName = ''t'', pp_PacketID = pid, pp_QoS = 1, pp_Retain = False, pp_Dup = False,
     pp_Payload = Encode (WithServerMsgID sample_env i)\<rparr>"

lemma sample_pub_PacketID [simp]: "pp_PacketID (sample_pub i pid) = pid"
  by (simp add: sample_pub_def)

lemma sample_pub_ok [simp]: "wf_publish (sample_pub i pid)" "server_id (sample_pub i pid) = i"
proof -
  have "length (Encode (WithServerMsgID sample_env i)) < 100"
    by (simp add: length_Encode WithServerMsgID_def sample_env_def)
  then show "wf_publish (sample_pub i pid)" by (simp add: wf_publish_def sample_pub_def)
  have "Decode (Encode (WithServerMsgID sample_env i)) = Inr (WithServerMsgID sample_env i)"
    using wf_sample_env by (intro Decode_Encode) simp
  then show "server_id (sample_pub i pid) = i"
    by (simp add: packet_env_def received_env_def sample_pub_def WithServerMsgID_def)
qed

theorem sdk_frames_read_by_broker_witness:
  "ReadPacket (connect_frame (WithCredentials ''u'' ''p'' defaultOptions)) = Inr ((new_packet TypeConnect)\<lparr>pkt_Connect := Some
      \<lparr>cp_ClientID = ''brokermq-client'', cp_Username = ''u'', cp_Password = ''p'', cp_CleanSession = True, cp_KeepAlive = 60\<rparr>\<rparr>, [])"
  using sdk_frames_read_by_broker [of "WithCredentials ''u'' ''p'' defaultOptions" "sample_pub 1 1" "''t''" "[]" 0 0]
  by (simp add: wf_options_def WithCredentials_def defaultOptions_def)

text \<open>
  The consumer hands every message over once. Let the broker send any PUBLISH packets
  that carry server ids, with repetitions in any order, no more of them than the free
  places of the cache. The loop calls the handler for the first packet of each server id not
  seen before, in the order of arrival, never a second time; it acknowledges every packet that has
  a packet id, the repeated ones too, in the order of arrival, and reads exactly these packets.
\<close>

theorem sdk_consumes_stream:
  assumes "list_all wf_publish pps" "\<forall>pp \<in> set pps. server_id pp \<noteq> uuid_Nil"
    and "seen_inv (cl_seen c)" "length (sc_keys (cl_seen c)) + length pps \<le> nat (sc_cap (cl_seen c))"
    and "client_up c" "cl_in c = concat (map publish_frame pps) @ rest"
  shows "\<exists>c'. receive_loop (length pps) c = (map handed_over (firsts (sc_set (cl_seen c)) pps), None, c')
    \<and> cl_in c' = rest \<and> cn_out (cl_conn c') = cn_out (cl_conn c) @ acks pps"
  using assms by (rule receive_loop_stream)

definition sample_client :: "bytes \<Rightarrow> Client" where
  "sample_client bs = \<lparr>cl_addr = ''localhost:1883'', cl_opts = defaultOptions, cl_conn = up_conn, cl_in = bs,
     cl_seen = NewSeenCache 0, cl_nextPID = 0\<rparr>"

lemma sample_client_ok [simp]:
  "cn_out (cl_conn (sample_client bs)) = []" "client_up (sample_client bs)" "cl_in (sample_client bs) = bs" "cl_seen (sample_client bs) = NewSeenCache 0"
  by (simp_all add: sample_client_def client_up_def up_conn_def)

theorem sdk_consumes_stream_witness:
  "\<exists>c'. receive_loop 3 (sample_client (concat (map publish_frame [sample_pub 5 1, sample_pub 6 2, sample_pub 5 1])))
     = ([handed_over (sample_pub 5 1), handed_over (sample_pub 6 2)], None, c')
   \<and> cn_out (cl_conn c') = [WritePubAck 1, WritePubAck 2, WritePubAck 1]"
  using sdk_consumes_stream [of "[sample_pub 5 1, sample_pub 6 2, sample_pub 5 1]"
      "sample_client (concat (map publish_frame [sample_pub 5 1, sample_pub 6 2, sample_pub 5 1]))" "[]"]
  by (auto simp: acks_def numeral_3_eq_3 simp del: receive_loop.simps)

text \<open>
  C36 (the window of the consumer's deduplication). However long the stream: after the handler
  was called for a message, a repetition of it that arrives before as many other packets as
  the cache has places is acknowledged without a call of the handler.
\<close>

theorem sdk_redelivery_suppressed:
  assumes "list_all wf_publish (pp # between @ [pp'])" "server_id pp' = server_id pp" "server_id pp \<noteq> uuid_Nil"
    and "seen_inv (cl_seen c)" "server_id pp \<notin> sc_set (cl_seen c)" "length between < nat (sc_cap (cl_seen c))"
    and "client_up c" "cl_in c = concat (map publish_frame (pp # between @ [pp'])) @ rest"
  shows "\<exists>ms c'. fst (receive_loop (Suc (length between)) c) = handed_over pp # ms
    \<and> receive_loop (Suc (Suc (length between))) c = (handed_over pp # ms, None, c')
    \<and> cn_out (cl_conn c') = cn_out (cl_conn c) @ acks (pp # between @ [pp'])"
proof -
  let ?i = "server_id pp"
  define c1 where "c1 = ack_packet pp (c\<lparr>cl_in := concat (map publish_frame (between @ [pp'])) @ rest,
    cl_seen := snd (Seen ?i (cl_seen c))\<rparr>)"
  have c1: "cl_in c1 = concat (map publish_frame between) @ publish_frame pp' @ rest" "client_up c1"
    "cl_seen c1 = snd (Seen ?i (cl_seen c))" "cn_out (cl_conn c1) = cn_out (cl_conn c) @ acks [pp]"
    unfolding c1_def using assms(7) by (simp_all, subst ack_packet_out) simp_all
  have "list_all wf_publish between" using assms(1) by simp
  from receive_loop_seen [OF this c1(1)] c1(2,4)
  obtain ms c2 where c2: "receive_loop (length between) c1 = (ms, None, c2)" "cl_in c2 = publish_frame pp' @ rest"
    "cl_seen c2 = fold (\<lambda>i c. snd (Seen i c)) (map server_id between) (cl_seen c1)" "client_up c2"
    "cn_out (cl_conn c2) = cn_out (cl_conn c) @ acks [pp] @ acks between"
    by auto
  have "age_in (sc_keys (cl_seen c) @ [?i]) ?i = Some 0" by (simp add: age_in_snoc)
  moreover have "0 < nat (sc_cap (cl_seen c))" using assms(6) by simp
  ultimately have "age_in (sc_keys (cl_seen c1)) ?i = Some 0"
    using age_in_drop Seen_keys(1) [OF assms(4,3,5)] c1(3) by metis
  then obtain m where m: "age_in (sc_keys (cl_seen c2)) ?i = Some m"
    using seen.remembered [of "cl_seen c1" ?i 0 "map server_id between"] assms(4,6) c1(3) c2(3)
    by (auto simp: seen_inv_Seen)
  have "seen_inv (cl_seen c2)" using assms(4) c1(3) c2(3) by (simp add: seen.inv_fold seen_inv_Seen)
  then have "?i \<in> sc_set (cl_seen c2)"
    using m by (auto simp: seen_inv_def age_in_def split: if_splits)
  then have known: "Seen (server_id pp') (cl_seen c2) = (True, cl_seen c2)" using assms(2,3) by (simp add: Seen_known)
  let ?c3 = "ack_packet pp' (c2\<lparr>cl_in := rest, cl_seen := cl_seen c2\<rparr>)"
  have last: "receive_loop (Suc 0) c2 = ([], None, ?c3)"
    by (subst receive_loop_publish [OF _ c2(2) refl]) (use assms(1) known in auto)
  have out: "cn_out (cl_conn ?c3) = cn_out (cl_conn c) @ acks (pp # between @ [pp'])"
    using c2(4,5) by (subst ack_packet_out) (simp_all add: acks_def)
  have "receive_loop (length between + Suc 0) c1 = (ms @ [], None, ?c3)"
    by (rule receive_loop_add [OF c2(1) last])
  moreover have first: "\<not> fst (Seen ?i (cl_seen c))" using assms(5) by (simp add: Seen_fst)
  have step: "receive_loop n c1 = (ms', err, c') \<Longrightarrow> receive_loop (Suc n) c = (handed_over pp # ms', err, c')" for n ms' err c'
    using receive_loop_publish [of pp c "concat (map publish_frame (between @ [pp'])) @ rest", OF _ _ c1_def] assms(1,8) first
    by simp
  ultimately show ?thesis using step [OF c2(1)] step [of "Suc (length between)"] out by auto
qed

theorem sdk_redelivery_suppressed_witness:
  "\<exists>ms c'. receive_loop 3 (sample_client (concat (map publish_frame [sample_pub 5 1, sample_pub 6 2, sample_pub 5 3])))
     = (handed_over (sample_pub 5 1) # ms, None, c')"
  using sdk_redelivery_suppressed [of "sample_pub 5 1" "[sample_pub 6 2]" "sample_pub 5 3"
      "sample_client (concat (map publish_frame [sample_pub 5 1, sample_pub 6 2, sample_pub 5 3]))" "[]"]
  by (auto simp: numeral_3_eq_3 simp del: receive_loop.simps)

lemma client_loop_continues:
  "client_readRemainingLength_loop (replicate k 0x80 @ r) len shift = client_readRemainingLength_loop r len (shift + 7 * k)"
  by (induction k arbitrary: shift) (simp_all add: Let_def add.assoc)

text \<open>
  C37 (an unbounded length crashes the client). A frame of any type whose length field consists
  of nine continuation bytes and the byte 1 makes the length negative: allocating the body panics
  in the goroutine that reads, which ends the subscriber's process.
\<close>

theorem sdk_length_overflow_panics:
  "\<exists>c'. receive_loop (Suc n) (c\<lparr>cl_in := h # replicate 9 0x80 @ 1 # rest\<rparr>)
    = ([], Some (Panic ''makeslice: len out of range''), c')"
proof -
  have "client_readRemainingLength (replicate 9 0x80 @ 1 # rest) = Inr (push_bit 63 1, rest)"
    by (simp add: client_readRemainingLength_def client_loop_continues)
  moreover have "sint (push_bit 63 1 :: u64) < 0" by simp
  ultimately have "readPacketFlags (h # replicate 9 0x80 @ 1 # rest) = Inl (Panic ''makeslice: len out of range'')"
    by (simp add: readPacketFlags_def io_ReadFull_def)
  then show ?thesis by simp
qed

end
