(* ===== verification/Broker.thy ===== *)
theory Broker
  imports Sdk_Client
begin

text \<open>
  The broker as its clients see it: the publish handler over the registry, the deduplication
  store and the topic logs together. \<open>server_logs\<close> relates a server to the logs of its topics,
  of those that are open and of those whose directories still have to be opened.
\<close>

section \<open>The logs of a server\<close>

definition log_of :: "('d \<Rightarrow> bytes \<rightharpoonup> bytes) \<Rightarrow> (path \<Rightarrow> 'd res) \<Rightarrow> 'd Registry \<Rightarrow> string \<Rightarrow> Message list \<Rightarrow> bool" where
  "log_of cont opened reg n ms \<longleftrightarrow>
     (case reg_topics reg n of
        Some t \<Rightarrow> topic_inv cont n ms t
      | None \<Rightarrow> (\<exists>d. opened (TopicDataDir reg n) = Inr d \<and> db_log (cont d) n ms))"

definition server_logs :: "('d \<Rightarrow> bytes \<rightharpoonup> bytes) \<Rightarrow> (path \<Rightarrow> 'd res) \<Rightarrow> 'd Server \<Rightarrow> (string \<Rightarrow> Message list) \<Rightarrow> bool" where
  "server_logs cont opened srv L \<longleftrightarrow> (\<forall>n. log_of cont opened (srv_registry srv) n (L n))"

lemma server_logs_at: "server_logs cont opened srv L \<Longrightarrow> log_of cont opened (srv_registry srv) n (L n)"
  by (simp add: server_logs_def)

lemma log_of_put:
  "log_of cont opened (srv_registry (put_topic n t srv)) k ms \<longleftrightarrow>
    (if k = n then topic_inv cont n ms t else log_of cont opened (srv_registry srv) k ms)"
  by (simp add: log_of_def TopicDataDir_def split: option.split)

lemma server_logs_put:
  assumes "server_logs cont opened srv L" "topic_inv cont n ms t"
  shows "server_logs cont opened (put_topic n t srv) (L(n := ms))"
  using assms by (simp add: server_logs_def log_of_put)

lemma server_logs_dedup [simp]:
  "server_logs cont opened (srv\<lparr>srv_dedup := d\<rparr>) L = server_logs cont opened srv L"
  by (simp add: server_logs_def)

lemma GetOrCreate_logs:
  assumes "badger_laws E cont" "writes_commit E" "server_logs cont opened srv L"
  shows "\<exists>t reg. GetOrCreate E opened n (srv_registry srv) = (Inr t, reg) \<and> topic_inv cont n (L n) t
    \<and> srv\<lparr>srv_registry := reg\<rparr> = put_topic n t srv"
proof (cases "topic_at srv n")
  case None
  then obtain d where d: "opened (TopicDataDir (srv_registry srv) n) = Inr d" "db_log (cont d) n (L n)"
    using server_logs_at [OF assms(3), of n] by (auto simp: log_of_def)
  obtain t d' where t: "newFromDB E n d True = (Inr t, d')" "topic_log cont t (L n)" "t_name t = n" "subs_inv t"
    using newFromDB_log [OF assms(1,2) d(2), of True] by blast
  then have "GetOrCreate E opened n (srv_registry srv)
      = (Inr t, (srv_registry srv)\<lparr>reg_topics := (reg_topics (srv_registry srv))(n \<mapsto> t)\<rparr>)"
    using None d(1) by (simp add: GetOrCreate_def topic_New_def TopicDataDir_def Let_def)
  then show ?thesis
    using t by (simp add: topic_inv_def put_topic_def)
next
  case (Some t)
  then have "GetOrCreate E opened n (srv_registry srv) = (Inr t, srv_registry srv)"
    by (simp add: GetOrCreate_def)
  moreover have "srv\<lparr>srv_registry := srv_registry srv\<rparr> = put_topic n t srv"
    using Some by (simp add: put_topic_def fun_upd_idem)
  moreover have "topic_inv cont n (L n) t"
    using server_logs_at [OF assms(3), of n] Some by (simp add: log_of_def)
  ultimately show ?thesis by blast
qed

section \<open>One publish\<close>

definition may_publish :: "session \<Rightarrow> string \<Rightarrow> bool" where
  "may_publish s n \<longleftrightarrow> (case s_user s of None \<Rightarrow> True | Some u \<Rightarrow> CanPublish u n)"

text \<open>The clock does not advance during the handling of one publish.\<close>

definition instant :: "'d inputs \<Rightarrow> bool" where
  "instant inp \<longleftrightarrow> in_load inp = in_check inp \<and> in_remember inp = in_check inp"

text \<open>The message a publish adds to the log \<open>ms\<close> of its topic, and what the deduplication store learns.\<close>

definition new_message :: "'d inputs \<Rightarrow> PublishPacket \<Rightarrow> Message list \<Rightarrow> Message" where
  "new_message inp pp ms =
     message_of (pp_TopicName pp) (word_of_nat (length ms) + 1) (in_serverV7 inp) (publish_env inp pp)"

definition request_of :: "'d inputs \<Rightarrow> PublishPacket \<Rightarrow> Message list \<Rightarrow> request" where
  "request_of inp pp ms =
     \<lparr>rq_at = in_check inp, rq_id = env_IdempotencyID (publish_env inp pp),
      rq_msg = m_ServerMsgID (new_message inp pp ms), rq_seq = m_Seq (new_message inp pp ms)\<rparr>"

record 'd publication =
  pb_in :: "'d inputs"
  pb_pkt :: PublishPacket
  pb_sess :: session

definition pb_ok :: "(path \<Rightarrow> 'd res) \<Rightarrow> 'd publication \<Rightarrow> bool" where
  "pb_ok opened p \<longleftrightarrow> may_publish (pb_sess p) (pp_TopicName (pb_pkt p)) \<and> instant (pb_in p)
     \<and> wf_env (publish_env (pb_in p) (pb_pkt p)) \<and> in_opened (pb_in p) = opened"

text \<open>
  The publish handler: its answer, the deduplication store and the logs. The message is
  appended exactly if its key is new to the store.
\<close>

lemma handlePublish_effect:
  assumes "badger_laws E cont" "writes_commit E" "server_logs cont opened srv L"
    and "pb_ok opened p" "srv_dedup srv = Some dd"
    and "Suc (length (L (pp_TopicName (pb_pkt p)))) < 2 ^ 64"
    and n: "n = pp_TopicName (pb_pkt p)" and r: "r = request_of (pb_in p) (pb_pkt p) (L n)"
  shows "\<exists>srv'. handlePublish E (pb_in p) (pb_pkt p) (pb_sess p) srv
      = (fst (puback_if (pb_pkt p) (pb_sess p)), snd (puback_if (pb_pkt p) (pb_sess p)), srv')
    \<and> srv_dedup srv' = Some (snd (admit E r dd))
    \<and> server_logs cont opened srv'
        (if fst (admit E r dd) = None then L(n := L n @ [new_message (pb_in p) (pb_pkt p) (L n)]) else L)"
proof -
  let ?inp = "pb_in p" and ?pp = "pb_pkt p" and ?s = "pb_sess p"
  let ?env = "publish_env ?inp ?pp" and ?m = "new_message ?inp ?pp (L n)"
  have ok: "may_publish ?s n" "instant ?inp" "wf_env ?env" "in_opened ?inp = opened"
    using assms(4) by (auto simp: pb_ok_def n)
  obtain t reg where g: "GetOrCreate E opened n (srv_registry srv) = (Inr t, reg)" "topic_inv cont n (L n) t"
    "srv\<lparr>srv_registry := reg\<rparr> = put_topic n t srv"
    using GetOrCreate_logs [OF assms(1-3)] by blast
  have t: "topic_log cont t (L n)" "subs_inv t" "t_name t = n" "t_seq t = word_of_nat (length (L n))"
    using g(2) by (auto simp: topic_inv_def topic_log_def)
  have msg: "published (in_serverV7 ?inp) ?env t = ?m" by (simp add: new_message_def t n)
  obtain t' where t': "Publish E (in_serverV7 ?inp) ?env t = (Inr \<lparr>pr_Msg = ?m, pr_Duplicate = False\<rparr>, t')"
    "topic_log cont t' (L n @ [?m])" "t_name t' = n"
    using topic_log_Publish [OF assms(1,2) t(1,2) ok(3), of "in_serverV7 ?inp"] assms(6)
    unfolding msg n [symmetric] by (auto simp: t(3))
  have inv': "topic_inv cont n (L n @ [?m]) t'"
    using t'(2,3) subs_inv_Publish [OF t(2), of E "in_serverV7 ?inp" ?env] t'(1) by (simp add: topic_inv_def)
  have user: "\<not> (case s_user ?s of None \<Rightarrow> False | Some u \<Rightarrow> \<not> CanPublish u n)"
    using ok(1) by (simp add: may_publish_def split: option.splits)
  have put_put: "put_topic n t' ((put_topic n t srv)\<lparr>srv_dedup := x\<rparr>) = (put_topic n t' srv)\<lparr>srv_dedup := x\<rparr>" for x
    by (simp add: put_topic_def)
  obtain found dd' where c: "Check E (in_check ?inp) (in_check ?inp) (env_IdempotencyID ?env) dd = (found, dd')" by fastforce
  show ?thesis
  proof (cases found)
    case (Some e)
    then have "admit E r dd = (Some e, dd')"
      using c by (simp add: admit_def r request_of_def)
    moreover have "handlePublish E ?inp ?pp ?s srv = (fst (puback_if ?pp ?s), snd (puback_if ?pp ?s),
        (put_topic n t srv)\<lparr>srv_dedup := Some dd'\<rparr>)"
      unfolding handlePublish_def n [symmetric] using user g(1,3) c Some assms(5) ok(2,4)
      by (simp add: Let_def instant_def split_beta)
    moreover have "server_logs cont opened (put_topic n t srv) L"
      using server_logs_put [OF assms(3) g(2)] by simp
    ultimately show ?thesis by simp
  next
    case None
    then have adm: "admit E r dd = (None, Remember E (in_check ?inp) (env_IdempotencyID ?env) (m_ServerMsgID ?m) (m_Seq ?m) dd')"
      using c by (simp add: admit_def r request_of_def)
    have "handlePublish E ?inp ?pp ?s srv = (fst (puback_if ?pp ?s), snd (puback_if ?pp ?s),
        (put_topic n t' srv)\<lparr>srv_dedup := Some (snd (admit E r dd))\<rparr>)"
      unfolding handlePublish_def n [symmetric] adm using user g(1,3) c None assms(5) ok(2,4) t'(1)
      by (simp add: Let_def instant_def split_beta put_put)
    moreover have "server_logs cont opened (put_topic n t' srv) (L(n := L n @ [?m]))"
      by (rule server_logs_put [OF assms(3) inv'])
    ultimately show ?thesis using adm by simp
  qed
qed

section \<open>Sequences of publishes\<close>

definition run_pub :: "'d engine \<Rightarrow> 'd publication \<Rightarrow> 'd Server \<Rightarrow> 'd Server" where
  "run_pub E p srv = snd (snd (handlePublish E (pb_in p) (pb_pkt p) (pb_sess p) srv))"

lemma run_pub_effect:
  assumes "badger_laws E cont" "writes_commit E" "server_logs cont opened srv L"
    and "pb_ok opened p" "srv_dedup srv = Some dd" "Suc (length (L n)) < 2 ^ 64"
    and "n = pp_TopicName (pb_pkt p)" "r = request_of (pb_in p) (pb_pkt p) (L n)"
  shows "srv_dedup (run_pub E p srv) = Some (snd (admit E r dd))"
    and "server_logs cont opened (run_pub E p srv)
        (if fst (admit E r dd) = None then L(n := L n @ [new_message (pb_in p) (pb_pkt p) (L n)]) else L)"
    and "fst (handlePublish E (pb_in p) (pb_pkt p) (pb_sess p) srv) = fst (puback_if (pb_pkt p) (pb_sess p))"
proof -
  obtain srv' where "handlePublish E (pb_in p) (pb_pkt p) (pb_sess p) srv
      = (fst (puback_if (pb_pkt p) (pb_sess p)), snd (puback_if (pb_pkt p) (pb_sess p)), srv')"
    "srv_dedup srv' = Some (snd (admit E r dd))"
    "server_logs cont opened srv'
        (if fst (admit E r dd) = None then L(n := L n @ [new_message (pb_in p) (pb_pkt p) (L n)]) else L)"
    using handlePublish_effect [OF assms(1-5) _ assms(7,8)] assms(6,7) by auto
  then show "srv_dedup (run_pub E p srv) = Some (snd (admit E r dd))"
    and "server_logs cont opened (run_pub E p srv)
        (if fst (admit E r dd) = None then L(n := L n @ [new_message (pb_in p) (pb_pkt p) (L n)]) else L)"
    and "fst (handlePublish E (pb_in p) (pb_pkt p) (pb_sess p) srv) = fst (puback_if (pb_pkt p) (pb_sess p))"
    by (simp_all add: run_pub_def)
qed

text \<open>
  While a sequence of publishes runs, a remembered key stays remembered and the logs only grow.
\<close>

lemma run_pubs_remember:
  assumes "badger_laws E cont" "writes_commit E"
  shows "server_logs cont opened srv L \<Longrightarrow> srv_dedup srv = Some dd \<Longrightarrow> dedup_inv dd \<Longrightarrow> dedup_holds dd i e k \<Longrightarrow>
    \<forall>p \<in> set ps. pb_ok opened p \<and> in_check (pb_in p) \<le> de_expiresAt e \<Longrightarrow> k + length ps < ds_capacity dd \<Longrightarrow>
    \<forall>n. length (L n) + length ps < 2 ^ 64 \<Longrightarrow>
    \<exists>L' dd' k'. server_logs cont opened (fold (run_pub E) ps srv) L' \<and> srv_dedup (fold (run_pub E) ps srv) = Some dd'
      \<and> dedup_inv dd' \<and> dedup_holds dd' i e k'
      \<and> (\<forall>n. prefix (L n) (L' n) \<and> length (L' n) \<le> length (L n) + length ps)"
proof (induction ps arbitrary: srv L dd k)
  case Nil
  then show ?case by auto
next
  case (Cons p ps)
  let ?n = "pp_TopicName (pb_pkt p)"
  let ?r = "request_of (pb_in p) (pb_pkt p) (L ?n)"
  let ?L = "if fst (admit E ?r dd) = None then L(?n := L ?n @ [new_message (pb_in p) (pb_pkt p) (L ?n)]) else L"
  let ?dd = "snd (admit E ?r dd)"
  have ok: "pb_ok opened p" "Suc (length (L ?n)) < 2 ^ 64"
  proof -
    show "pb_ok opened p" using Cons.prems(5) by simp
    have "length (L ?n) + length (p # ps) < 2 ^ 64" using Cons.prems(7) by blast
    then show "Suc (length (L ?n)) < 2 ^ 64" by simp
  qed
  note eff = run_pub_effect [OF assms Cons.prems(1) ok(1) Cons.prems(2) ok(2) refl refl]
  have "rq_at ?r \<le> de_expiresAt e" using Cons.prems(5) by (simp add: request_of_def)
  then obtain m where m: "m \<le> Suc k" "dedup_holds ?dd i e m"
    using dedup_mem.ages [OF Cons.prems(3,4), of ?r E] Cons.prems(6) by auto
  have grow: "prefix (L n) (?L n) \<and> length (?L n) \<le> Suc (length (L n))" for n by simp
  have len: "\<forall>n. length (?L n) + length ps < 2 ^ 64"
  proof
    fix n
    have "length (L n) + length (p # ps) < 2 ^ 64" using Cons.prems(7) by blast
    then show "length (?L n) + length ps < 2 ^ 64" using grow [of n] by simp
  qed
  have cap: "m + length ps < ds_capacity ?dd" using Cons.prems(6) m(1) by simp
  have "\<forall>p \<in> set ps. pb_ok opened p \<and> in_check (pb_in p) \<le> de_expiresAt e" using Cons.prems(5) by simp
  from Cons.IH [OF eff(2) eff(1) dedup_inv_admit [OF Cons.prems(3)] m(2) this cap len]
  obtain L' dd' k' where IH: "server_logs cont opened (fold (run_pub E) ps (run_pub E p srv)) L'"
    "srv_dedup (fold (run_pub E) ps (run_pub E p srv)) = Some dd'" "dedup_inv dd'" "dedup_holds dd' i e k'"
    "\<forall>n. prefix (?L n) (L' n) \<and> length (L' n) \<le> length (?L n) + length ps"
    by blast
  have "prefix (L n) (L' n) \<and> length (L' n) \<le> length (L n) + length (p # ps)" for n
    using IH(5) [rule_format, of n] grow [of n] by (auto intro: prefix_order.trans)
  with IH(1-4) show ?case by auto
qed

section \<open>Restart\<close>

text \<open>
  The process ends and starts again with an empty registry over the same base directory: a
  directory that was open now opens to the database its topic had.
\<close>

lemma server_logs_restart:
  assumes "server_logs cont opened srv L"
    and "\<forall>n t. topic_at srv n = Some t \<longrightarrow> opened' (TopicDataDir (srv_registry srv) n) = Inr (t_db t)"
    and "\<forall>n. topic_at srv n = None \<longrightarrow> opened' (TopicDataDir (srv_registry srv) n) = opened (TopicDataDir (srv_registry srv) n)"
  shows "server_logs cont opened' (NewServer (NewRegistry (reg_baseDir (srv_registry srv))) hub auth req) L"
  unfolding server_logs_def
proof
  fix n
  have dir: "TopicDataDir (NewRegistry (reg_baseDir (srv_registry srv))) n = TopicDataDir (srv_registry srv) n"
    by (simp add: TopicDataDir_def NewRegistry_def)
  have none: "reg_topics (NewRegistry (reg_baseDir (srv_registry srv))) n = None"
    by (simp add: NewRegistry_def)
  have "\<exists>d. opened' (TopicDataDir (srv_registry srv) n) = Inr d \<and> db_log (cont d) n (L n)"
    using server_logs_at [OF assms(1), of n] assms(2,3)
    by (cases "topic_at srv n") (auto simp: log_of_def topic_inv_def topic_log_def)
  then show "log_of cont opened' (srv_registry (NewServer (NewRegistry (reg_baseDir (srv_registry srv))) hub auth req)) n (L n)"
    unfolding log_of_def NewServer_def by (simp add: dir none)
qed

section \<open>What the client reads\<close>

lemma logged_stored:
  assumes "topic_log cont t ms" "m \<in> set ms"
  obtains q where "stored_message (t_name t) q (m_RawWire m) = Inr m"
proof -
  obtain i where i: "i < length ms" "m = ms ! i" using assms(2) by (metis in_set_conv_nth)
  let ?q = "word_of_nat (Suc i) :: u64"
  have "unat ?q = Suc i"
    using assms(1) i(1) by (simp add: topic_log_def db_log_def db_msgs_def unat_of_nat del: of_nat_Suc)
  then have "log_at ms ?q = Some m"
    using i by (auto simp: log_at_def simp del: of_nat_Suc)
  then have "stored_message (t_name t) ?q (m_RawWire m) = Inr m"
    using assms(1) by (simp add: topic_log_def db_log_def db_msgs_def)
  then show ?thesis by (rule that)
qed

text \<open>The PUBLISH packet a delivery amounts to.\<close>

definition push_packet :: "byte \<Rightarrow> u16 \<Rightarrow> Message \<Rightarrow> PublishPacket" where
  "push_packet qos pid m = \<lparr>pp_TopicName = m_Topic m, pp_PacketID = (if 0 < qos then pid else 0), pp_QoS = qos,
     pp_Retain = False, pp_Dup = False, pp_Payload = m_RawWire m\<rparr>"

lemma push_frame_packet:
  "m_RawWire m \<noteq> [] \<Longrightarrow> push_frame inp qos pid m = publish_frame (push_packet qos pid m)"
  by (simp add: push_frame_def delivery_wire_def publish_frame_def push_packet_def WritePublish_def Let_def)

section \<open>A subscriber with the client library\<close>

text \<open>What the handler gets for a message of the log.\<close>

definition seen_as :: "Message \<Rightarrow> sdk_Message" where
  "seen_as m = \<lparr>sm_Topic = m_Topic m, sm_Payload = m_Payload m, sm_Seq = 0, sm_IdempotencyID = m_IdempotencyID m,
     sm_ServerMsgID = m_ServerMsgID m, sm_PublishTS = m_Timestamp m\<rparr>"

definition deliverable :: "string \<Rightarrow> Message list \<Rightarrow> bool" where
  "deliverable n ms \<longleftrightarrow> length n < 65536 \<and> distinct (map m_ServerMsgID ms)
     \<and> (\<forall>m \<in> set ms. m_ServerMsgID m \<noteq> uuid_Nil \<and> length (m_RawWire m) < 2 ^ 28 - 65540)"

definition consumer_ready :: "Message list \<Rightarrow> Client \<Rightarrow> bool" where
  "consumer_ready ms c \<longleftrightarrow> client_up c \<and> o_QoS (cl_opts c) = 1 \<and> seen_inv (cl_seen c)
     \<and> length (sc_keys (cl_seen c)) + length ms \<le> nat (sc_cap (cl_seen c))
     \<and> m_ServerMsgID ` set ms \<inter> sc_set (cl_seen c) = {}"

lemma logged_received:
  assumes "topic_log cont t ms" "m \<in> set ms" "m_ServerMsgID m \<noteq> uuid_Nil"
  shows "m_Topic m = t_name t" "env_ServerMsgID (received_env (m_RawWire m)) = m_ServerMsgID m"
    "handler_message (m_Topic m) (received_env (m_RawWire m)) = seen_as m" "m_RawWire m \<noteq> []"
proof -
  obtain q where "stored_message (t_name t) q (m_RawWire m) = Inr m"
    by (rule logged_stored [OF assms(1,2)])
  then obtain m0 where m0: "decodeStoredMessage (t_name t) (m_RawWire m) = Inr m0" "m = m0\<lparr>m_Seq := q\<rparr>"
    by (auto simp: stored_message_def rbind_Inr_iff)
  have "TryDecode (m_RawWire m) = None \<Longrightarrow> m_ServerMsgID m0 = uuid_Nil"
    using m0(1) by (auto simp: decodeStoredMessage_def split: if_splits)
  then obtain env where env: "TryDecode (m_RawWire m) = Some env"
    using assms(3) m0(2) by (cases "TryDecode (m_RawWire m)") auto
  then have dec: "Decode (m_RawWire m) = Inr env" by (simp add: TryDecode_eq split: sum.splits)
  have m: "m_Topic m = t_name t" "m_Payload m = env_Payload env" "m_Timestamp m = env_PublishTS env"
    "m_IdempotencyID m = env_IdempotencyID env" "m_ServerMsgID m = env_ServerMsgID env"
    using m0 env by (cases m0; auto simp: decodeStoredMessage_def)+
  show "m_Topic m = t_name t" by (rule m)
  show "env_ServerMsgID (received_env (m_RawWire m)) = m_ServerMsgID m"
    "handler_message (m_Topic m) (received_env (m_RawWire m)) = seen_as m"
    by (simp_all add: received_env_def dec handler_message_def seen_as_def m)
  show "m_RawWire m \<noteq> []" using dec by (auto simp: Decode_def)
qed

lemma firsts_distinct:
  "distinct (map server_id pps) \<Longrightarrow> server_id ` set pps \<inter> S = {} \<Longrightarrow> firsts S pps = pps"
  by (induction pps arbitrary: S) auto

text \<open>The packets of a catch-up, and what the client makes of them.\<close>

lemma pushed_packets:
  assumes "topic_log cont t ms" "set todo \<subseteq> set ms" "deliverable (t_name t) todo"
    and "length pids = length todo" "0 \<notin> set pids"
  defines "pps \<equiv> map2 (push_packet 1) pids todo"
  shows "list_all wf_publish pps" "map server_id pps = map m_ServerMsgID todo"
    "map handed_over pps = map seen_as todo" "map2 (push_frame inp 1) pids todo = map publish_frame pps"
    "acks pps = map WritePubAck pids"
proof -
  have each: "wf_publish (push_packet 1 p m)" "server_id (push_packet 1 p m) = m_ServerMsgID m"
    "handed_over (push_packet 1 p m) = seen_as m" "push_frame inp 1 p m = publish_frame (push_packet 1 p m)"
    "pp_PacketID (push_packet 1 p m) = p"
    if "m \<in> set todo" for p m
  proof -
    have m: "m \<in> set ms" "m_ServerMsgID m \<noteq> uuid_Nil" "length (m_RawWire m) < 2 ^ 28 - 65540"
      using that assms(2,3) by (auto simp: deliverable_def)
    note r = logged_received [OF assms(1) m(1,2)]
    show "wf_publish (push_packet 1 p m)"
      using m(3) assms(3) r(1) by (simp add: wf_publish_def push_packet_def deliverable_def)
    show "server_id (push_packet 1 p m) = m_ServerMsgID m" "handed_over (push_packet 1 p m) = seen_as m"
      "pp_PacketID (push_packet 1 p m) = p"
      using r by (simp_all add: packet_env_def push_packet_def)
    show "push_frame inp 1 p m = publish_frame (push_packet 1 p m)"
      by (rule push_frame_packet [OF r(4)])
  qed
  have zipped: "\<forall>(p, m) \<in> set (zip pids todo). p \<in> set pids \<and> m \<in> set todo"
    by (auto dest: set_zip_leftD set_zip_rightD)
  show "list_all wf_publish pps"
    using zipped each(1) by (auto simp: pps_def list_all_iff)
  show "map server_id pps = map m_ServerMsgID todo" "map handed_over pps = map seen_as todo"
    "map2 (push_frame inp 1) pids todo = map publish_frame pps" "acks pps = map WritePubAck pids"
    unfolding pps_def acks_def using assms(4,5) each
    by (induction pids todo rule: list_induct2) (auto simp: word_gt_0)
qed

text \<open>The client's side of a subscription that is answered with a SUBACK and a catch-up.\<close>

lemma client_reads_catch_up:
  assumes "topic_log cont t ms" "set todo \<subseteq> set ms" "deliverable (t_name t) todo" "consumer_ready todo c"
    and "length pids = length todo" "0 \<notin> set pids"
    and "cl_in c = concat (WriteSubAck p [1] # map2 (push_frame inp 1) pids todo) @ rest"
  shows "\<exists>c1 c2. client_Subscribe n c = (None, c1) \<and> cn_out (cl_conn c1) = cn_out (cl_conn c) @ [subscribe_frame n 1]
    \<and> receive_loop (length todo) c1 = (map seen_as todo, None, c2) \<and> cl_in c2 = rest
    \<and> cn_out (cl_conn c2) = cn_out (cl_conn c1) @ map WritePubAck pids"
proof -
  let ?pps = "map2 (push_packet 1) pids todo"
  note pushed = pushed_packets [OF assms(1-3,5,6)]
  have ready: "client_up c" "o_QoS (cl_opts c) = 1" "seen_inv (cl_seen c)"
    "length (sc_keys (cl_seen c)) + length ?pps \<le> nat (sc_cap (cl_seen c))"
    "m_ServerMsgID ` set todo \<inter> sc_set (cl_seen c) = {}"
    using assms(4,5) by (auto simp: consumer_ready_def)
  define c1 where "c1 = (snd (client_write (subscribe_frame n 1) c))\<lparr>cl_in := concat (map publish_frame ?pps) @ rest\<rparr>"
  have c1: "cl_seen c1 = cl_seen c" "client_up c1" "cl_in c1 = concat (map publish_frame ?pps) @ rest"
    "cn_out (cl_conn c1) = cn_out (cl_conn c) @ [subscribe_frame n 1]"
    using client_write_up [OF ready(1)] ready(1) by (simp_all add: c1_def client_up_def)
  have frame: "WriteSubAck p [1] @ r = 0x90 # encodeRemainingLength (length (packet_id_bytes p @ [1])) @ (packet_id_bytes p @ [1]) @ r" for r
    by (simp add: WriteSubAck_def Let_def)
  have suback: "\<exists>x. readPacketFlags (WriteSubAck p [1] @ r) = Inr (x, r)" for r
    unfolding frame by (subst readPacketFlags_frame) auto
  have sub: "client_Subscribe n c = (None, c1)"
    using suback [of "concat (map publish_frame ?pps) @ rest"] client_write_up [OF ready(1)]
    by (auto simp: client_Subscribe_def sendSubscribe_def ready(2) assms(7) pushed(4) c1_def)
  have img: "server_id ` set ?pps = m_ServerMsgID ` set todo" using pushed(2) by (metis list.set_map)
  have ids: "\<forall>pp \<in> set ?pps. server_id pp \<noteq> uuid_Nil"
  proof
    fix pp
    assume "pp \<in> set ?pps"
    then have "server_id pp \<in> m_ServerMsgID ` set todo" unfolding img [symmetric] by (rule imageI)
    then show "server_id pp \<noteq> uuid_Nil" using assms(3) by (auto simp: deliverable_def)
  qed
  have fr: "firsts (sc_set (cl_seen c1)) ?pps = ?pps"
  proof (rule firsts_distinct)
    show "distinct (map server_id ?pps)" using pushed(2) assms(3) by (simp add: deliverable_def)
    show "server_id ` set ?pps \<inter> sc_set (cl_seen c1) = {}" unfolding img using ready(5) c1(1) by simp
  qed
  have len: "length ?pps = length todo" using assms(5) by simp
  obtain c2 where "receive_loop (length ?pps) c1 = (map handed_over (firsts (sc_set (cl_seen c1)) ?pps), None, c2)"
    "cl_in c2 = rest" "cn_out (cl_conn c2) = cn_out (cl_conn c1) @ acks ?pps"
    using receive_loop_stream [OF pushed(1) ids _ _ c1(2,3)] ready(3,4) c1(1) by auto
  then show ?thesis using sub c1(4) pushed(3,5) fr len by auto
qed

lemma map_of_zip_last:
  assumes "length ks = length vs" "distinct ks" "ks \<noteq> []"
  shows "map_of (zip ks vs) (last ks) = Some (last vs)"
proof -
  have "vs \<noteq> []" using assms by auto
  then have "last ks = ks ! (length ks - 1)" "last vs = vs ! (length ks - 1)" "length ks - 1 < length vs"
    using assms by (simp_all add: last_conv_nth)
  then show ?thesis using map_of_zip_nth [OF assms(1,2)] by simp
qed

text \<open>The broker's side: it answers a subscription with frames whose acknowledgements it takes back.\<close>

lemma broker_answers_subscribe:
  assumes "badger_laws E cont" "topic_at srv n = Some t" "topic_log cont t ms" "length n < 65536"
    and "may_subscribe s n" "conn_up s" "s_nextPktID s \<noteq> 0" "card (dom (s_inflight s)) + 500 \<le> 65535"
    and todo: "todo = take 500 (drop (unat (offsets_Get (t_offsets t) (s_clientID s))) ms)"
    and "length inps = length todo"
  shows "\<exists>s1 srv1 pids. packet_loop E [inp] (subscribe_frame n 1) s srv = Some (None, s1, srv1)
    \<and> length pids = length todo \<and> 0 \<notin> set pids
    \<and> sent s1 = sent s @ (WriteSubAck 1 [1] # map2 (push_frame inp 1) pids todo)
    \<and> (\<exists>s2 srv2 t2. packet_loop E inps (concat (map WritePubAck pids)) s1 srv1 = Some (None, s2, srv2)
        \<and> s_inflight s2 = s_inflight s \<and> topic_at srv2 n = Some t2
        \<and> (todo \<noteq> [] \<longrightarrow> offsets_Get (t_offsets t2) (s_clientID s) = m_Seq (last todo)))"
proof -
  let ?tf = "\<lparr>tf_Filter = n, tf_QoS = 1\<rparr>"
  obtain s1 srv1 t1 pids where h: "handleSubscribe E inp \<lparr>sp_PacketID = 1, sp_Topics = [?tf]\<rparr> s srv = Some (None, s1, srv1)"
    "length pids = length todo" "distinct pids" "0 \<notin> set pids" "set pids \<inter> dom (s_inflight s) = {}"
    "sent s1 = sent s @ [WriteSubAck 1 [1]] @ map2 (push_frame inp 1) pids todo"
    "s_inflight s1 = s_inflight s ++ map_of (zip pids (map (inflight_for inp n) todo))"
    "topic_at srv1 n = Some t1" "s_clientID s1 = s_clientID s"
    using handleSubscribe_qos1 [OF assms(1) _ assms(3), of srv ?tf s todo inp 1] assms(2,5-9) by auto
  have sub: "packet_loop E [inp] (subscribe_frame n 1) s srv = Some (None, s1, srv1)"
    using ReadPacket_subscribe_frame [OF assms(4), of 1 "[]"] h(1) by (simp add: dispatch_def new_packet_def)
  let ?fl = "map (inflight_for inp n) todo"
  have fl: "\<forall>p \<in> set pids. \<exists>msg. s_inflight s1 p = Some msg \<and> if_topicRef msg = n"
  proof
    fix p
    assume "p \<in> set pids"
    then obtain i where "i < length pids" "p = pids ! i" by (metis in_set_conv_nth)
    then have "map_of (zip pids ?fl) p = Some (inflight_for inp n (todo ! i))"
      using map_of_zip_nth [of pids ?fl i] h(2,3) by simp
    then show "\<exists>msg. s_inflight s1 p = Some msg \<and> if_topicRef msg = n"
      by (simp add: h(7) inflight_for_def)
  qed
  obtain s2 srv2 t2 where acked: "packet_loop E inps (concat (map WritePubAck pids)) s1 srv1 = Some (None, s2, srv2)"
    "s_inflight s2 = (\<lambda>p. if p \<in> set pids then None else s_inflight s1 p)" "topic_at srv2 n = Some t2"
    "offsets_Get (t_offsets t2) = (if pids = [] then offsets_Get (t_offsets t1)
        else (offsets_Get (t_offsets t1))(s_clientID s1 := if_seq (the (s_inflight s1 (last pids)))))"
    using packet_loop_acks [OF h(3) _ h(8) fl, of inps E "[]"] h(2) assms(10) by auto
  have free: "s_inflight s2 = s_inflight s"
  proof
    fix p
    have "map_of (zip pids ?fl) p = None" if "p \<notin> set pids" using that h(2) by (simp add: map_of_zip_is_None)
    moreover have "s_inflight s p = None" if "p \<in> set pids" using that h(5) by auto
    ultimately show "s_inflight s2 p = s_inflight s p" by (auto simp: acked(2) h(7) map_add_def)
  qed
  have "offsets_Get (t_offsets t2) (s_clientID s) = m_Seq (last todo)" if "todo \<noteq> []"
  proof -
    have ne: "pids \<noteq> []" using that h(2) by auto
    then have "s_inflight s1 (last pids) = Some (last ?fl)"
      using map_of_zip_last [of pids ?fl] h(2,3) by (simp add: h(7))
    then show ?thesis using ne that acked(4) by (simp add: h(9) last_map inflight_for_def)
  qed
  then show ?thesis using sub h(2,4,6) acked(1,3) free by auto
qed

lemma sample_server_logs: "server_logs map_of (\<lambda>_. Inr []) sample_server ((\<lambda>_. [])(''t'' := [sample_msg]))"
proof -
  have "topic_inv map_of ''t'' [sample_msg] logged_topic"
    using logged_topic_ok by (simp add: topic_inv_def) (simp add: logged_topic_def)
  moreover have "db_log Map.empty n []" for n
    by (simp add: db_log_def db_msgs_def only_msg_keys_def saved_seq_def)
  ultimately show ?thesis
    by (auto simp: server_logs_def log_of_def sample_server_def NewServer_def)
qed

definition sample_publication :: "mem_db publication" where
  "sample_publication = \<lparr>pb_in = sample_inputs,
     pb_pkt = \<lparr>pp_TopicName = ''t'', pp_PacketID = 4, pp_QoS = 1, pp_Retain = False, pp_Dup = False,
               pp_Payload = Encode sample_env\<rparr>,
     pb_sess = sample_session\<rparr>"

lemma sample_publication_ok:
  "pb_ok (\<lambda>_. Inr []) sample_publication" "publish_env (pb_in sample_publication) (pb_pkt sample_publication) = sample_env"
  using Decode_Encode [OF wf_sample_env] wf_sample_env
  by (simp_all add: pb_ok_def sample_publication_def publish_env_def may_publish_def instant_def sample_inputs_def)

end
