(* ===== verification/Strconv.thy ===== *)
theory Strconv
  imports Prelude
begin

text \<open>Decimal numbers in requests: what the programs use of Go's package \<^verbatim>\<open>strconv\<close>.\<close>

text \<open>
  \<^verbatim>\<open>strconv.ParseUint(s, 10, 64)\<close> and \<^verbatim>\<open>strconv.Atoi(s)\<close> with the error dropped: 0 for
  something that is no number, the nearest bound for a number out of range.
\<close>

definition is_digit :: "char \<Rightarrow> bool" where
  "is_digit c \<longleftrightarrow> 48 \<le> (of_char c :: nat) \<and> (of_char c :: nat) \<le> 57"

definition digits_value :: "string \<Rightarrow> nat" where
  "digits_value s = foldl (\<lambda>n c. 10 * n + (of_char c - 48)) 0 s"

definition parse_uint :: "string \<Rightarrow> u64" where
  "parse_uint s =
     (if s = '''' \<or> \<not> list_all is_digit s then 0
      else if digits_value s < 2 ^ 64 then word_of_nat (digits_value s) else - 1)"

definition atoi :: "string \<Rightarrow> int" where
  "atoi s =
     (let (neg, ds) = (case s of [] \<Rightarrow> (False, []) | c # cs \<Rightarrow> if c = CHR ''-'' then (True, cs) else if c = CHR ''+'' then (False, cs) else (False, s)) in
      if ds = [] \<or> \<not> list_all is_digit ds then 0
      else let n = int (digits_value ds) in
        if neg then (if n \<le> 2 ^ 63 then - n else - (2 ^ 63)) else (if n < 2 ^ 63 then n else 2 ^ 63 - 1))"

text \<open>\<^verbatim>\<open>strconv.ParseInt(s, 10, 32)\<close>; \<open>None\<close> is the error.\<close>

definition parse_int32 :: "string \<Rightarrow> int option" where
  "parse_int32 s =
     (let (neg, ds) = (case s of [] \<Rightarrow> (False, []) | c # cs \<Rightarrow> if c = CHR ''-'' then (True, cs) else if c = CHR ''+'' then (False, cs) else (False, s));
          n = int (digits_value ds) in
      if ds = [] \<or> \<not> list_all is_digit ds then None
      else if neg then (if n \<le> 2 ^ 31 then Some (- n) else None) else (if n < 2 ^ 31 then Some n else None))"

text \<open>\<^verbatim>\<open>strconv.Atoi(s)\<close> with its error: \<open>None\<close> for something that is no number and for a number out of range.\<close>

definition Atoi :: "string \<Rightarrow> int option" where
  "Atoi s =
     (let (neg, ds) = (case s of [] \<Rightarrow> (False, []) | c # cs \<Rightarrow> if c = CHR ''-'' then (True, cs) else if c = CHR ''+'' then (False, cs) else (False, s));
          n = int (digits_value ds) in
      if ds = [] \<or> \<not> list_all is_digit ds then None
      else if neg then (if n \<le> 2 ^ 63 then Some (- n) else None) else (if n < 2 ^ 63 then Some n else None))"

text \<open>The verb \<^verbatim>\<open>%d\<close>.\<close>

fun decimal :: "nat \<Rightarrow> string" where
  "decimal n = (if n < 10 then [char_of (48 + n)] else decimal (n div 10) @ [char_of (48 + n mod 10)])"

declare decimal.simps [simp del]

definition itoa :: "int \<Rightarrow> string" where
  "itoa i = (if i < 0 then CHR ''-'' # decimal (nat (- i)) else decimal (nat i))"

lemma of_char_digit: "d < 10 \<Longrightarrow> of_char (char_of (48 + d :: nat)) = (48 + d :: nat)"
  by (simp add: of_char_of)

lemma is_digit_char [simp]: "d < 10 \<Longrightarrow> is_digit (char_of (48 + d :: nat))"
  by (simp add: is_digit_def)

lemma decimal_digits: "list_all is_digit (decimal n)"
proof (induction n rule: decimal.induct)
  case (1 n)
  then show ?case
    by (subst decimal.simps) auto
qed

lemma decimal_value: "digits_value (decimal n) = n"
proof (induction n rule: decimal.induct)
  case (1 n)
  then show ?case
    by (subst decimal.simps) (auto simp: digits_value_def of_char_digit)
qed

lemma decimal_nonempty [simp]: "decimal n \<noteq> []"
  by (subst decimal.simps) simp

lemma decimal_unsigned: "decimal n = c # cs \<Longrightarrow> c \<noteq> CHR ''-'' \<and> c \<noteq> CHR ''+''"
  using decimal_digits [of n] by (auto simp: is_digit_def)

lemma atoi_itoa: "- (2 ^ 63) \<le> i \<Longrightarrow> i < 2 ^ 63 \<Longrightarrow> atoi (itoa i) = i"
  using decimal_unsigned [of "nat i"] decimal_digits [of "nat i"] decimal_digits [of "nat (- i)"]
    decimal_value [of "nat i"] decimal_value [of "nat (- i)"]
  by (cases "decimal (nat i)") (auto simp: itoa_def atoi_def Let_def)

lemma Atoi_itoa: "- (2 ^ 63) \<le> i \<Longrightarrow> i < 2 ^ 63 \<Longrightarrow> Atoi (itoa i) = Some i"
  using decimal_unsigned [of "nat i"] decimal_digits [of "nat i"] decimal_digits [of "nat (- i)"]
    decimal_value [of "nat i"] decimal_value [of "nat (- i)"]
  by (cases "decimal (nat i)") (auto simp: itoa_def Atoi_def Let_def)

lemma parse_int32_itoa: "- (2 ^ 31) \<le> i \<Longrightarrow> i < 2 ^ 31 \<Longrightarrow> parse_int32 (itoa i) = Some i"
  using decimal_unsigned [of "nat i"] decimal_digits [of "nat i"] decimal_digits [of "nat (- i)"]
    decimal_value [of "nat i"] decimal_value [of "nat (- i)"]
  by (cases "decimal (nat i)") (auto simp: itoa_def parse_int32_def Let_def)

end
