(* ===== verification/Admin.thy ===== *)
theory Admin
  imports Listener Broker Strconv
begin

text \<open>
  The administration server (\<^verbatim>\<open>core/admin/server.go\<close>): log-in with sessions and CSRF tokens that
  expire, the guards in front of the routes, and the handlers on topics: messages, purge, replay. A
  request is a record of what the handlers read of it; a response is a value.
\<close>

section \<open>Requests and responses\<close>

record Request =
  hr_Method :: string
  hr_Path :: string
  hr_Query :: "string \<Rightarrow> string"
  hr_Cookie :: "string option"
  hr_CSRF :: string
  hr_BasicAuth :: "(string \<times> string) option"
  hr_Upgrade :: string

datatype json =
    JState int nat nat int gotime
  | JClients "SessionInfo list"
  | JTopics "(string \<times> u64) list"
  | JTopic string u64
  | JMessages "Message list"
  | JOffsets string u64
  | JPurged
  | JReplayed nat
  | JDB string path "string list" "(string \<times> path \<times> u64) list"
  | JRestarting
  | JCsrf string
  | JTail u64 string bytes uuid

datatype response =
    HttpError int string
  | HttpFail go_error
  | HttpNotFound
  | Redirect string
  | HTML
  | JSON json
  | LoggedIn string json
  | Tail string nat
  | UpgradeFailed
  | Panicked string

section \<open>The server\<close>

text \<open>
  \<open>ad_srv\<close> is the MQTT server with the registry; \<open>ad_hub\<close> holds the base directory and the time to live
  of the hub, \<open>None\<close> for a nil hub; \<open>ad_shutdown\<close> tells that a shutdown of the sessions is under way.
\<close>

record 'd Admin =
  ad_srv :: "'d Server"
  ad_hub :: "(string \<times> int) option"
  ad_user :: string
  ad_pass :: string
  ad_started :: gotime
  ad_sessions :: "string \<rightharpoonup> gotime"
  ad_csrfTokens :: "string \<rightharpoonup> gotime"
  ad_shutdown :: bool

definition admin_New :: "'d Server \<Rightarrow> (string \<times> int) option \<Rightarrow> string \<Rightarrow> string \<Rightarrow> gotime \<Rightarrow> 'd Admin" where
  "admin_New srv hub adminUser adminPass now =
     \<lparr>ad_srv = srv, ad_hub = hub, ad_user = adminUser, ad_pass = adminPass, ad_started = now,
      ad_sessions = Map.empty, ad_csrfTokens = Map.empty, ad_shutdown = False\<rparr>"

text \<open>
  What the environment supplies: the time, two random tokens, fresh UUIDs, the orders in which the
  maps are visited, what opening a directory returns, and whether a websocket upgrade succeeds.
\<close>

record 'd admin_inputs =
  ai_now :: gotime
  ai_tok :: string
  ai_csrf :: string
  ai_newV7 :: "nat \<Rightarrow> uuid"
  ai_topics :: "string list"
  ai_clients :: "nat list"
  ai_opened :: "path \<Rightarrow> 'd res"
  ai_upgraded :: bool

definition day :: int where
  "day = 24 * 60 * 60 * 1000000000"

definition authenticated :: "gotime \<Rightarrow> Request \<Rightarrow> 'd Admin \<Rightarrow> bool" where
  "authenticated now r ad =
     (case hr_Cookie r of
        None \<Rightarrow> False
      | Some v \<Rightarrow> (case ad_sessions ad v of None \<Rightarrow> False | Some exp \<Rightarrow> now < exp))"

definition validCSRF :: "gotime \<Rightarrow> Request \<Rightarrow> 'd Admin \<Rightarrow> bool" where
  "validCSRF now r ad =
     (if hr_CSRF r = '''' then False
      else case ad_csrfTokens ad (hr_CSRF r) of None \<Rightarrow> False | Some exp \<Rightarrow> now < exp)"

definition handleLogin :: "'d admin_inputs \<Rightarrow> Request \<Rightarrow> 'd Admin \<Rightarrow> response \<times> 'd Admin" where
  "handleLogin inp r ad =
     (case hr_BasicAuth r of
        None \<Rightarrow> (HttpError 401 ''unauthorized'', ad)
      | Some (user, pass) \<Rightarrow>
          if user \<noteq> ad_user ad \<or> pass \<noteq> ad_pass ad then (HttpError 401 ''unauthorized'', ad)
          else (LoggedIn (ai_tok inp) (JCsrf (ai_csrf inp)),
                ad\<lparr>ad_sessions := (ad_sessions ad)(ai_tok inp \<mapsto> ai_now inp + day),
                   ad_csrfTokens := (ad_csrfTokens ad)(ai_csrf inp \<mapsto> ai_now inp + day)\<rparr>))"

text \<open>The nanoseconds since the start stand for the floating-point number of seconds in the response.\<close>

definition handleState :: "'d admin_inputs \<Rightarrow> 'd Admin \<Rightarrow> response" where
  "handleState inp ad =
     (let dedupSize = (case ad_hub ad of None \<Rightarrow> 0
            | Some _ \<Rightarrow> (case srv_dedup (ad_srv ad) of None \<Rightarrow> 0 | Some d \<Rightarrow> dedup_Size d)) in
      case ad_hub ad of
        None \<Rightarrow> Panicked ''nil pointer dereference''
      | Some (_, ttl) \<Rightarrow>
          JSON (JState (ai_now inp - ad_started ad) (length (ListTopics (ai_topics inp) (srv_registry (ad_srv ad))))
                 dedupSize ttl (ad_started ad)))"

definition handleClients :: "'d admin_inputs \<Rightarrow> 'd Admin \<Rightarrow> response" where
  "handleClients inp ad = JSON (JClients (ListSessions (ai_clients inp) (ad_srv ad)))"

definition handleTopics :: "'d admin_inputs \<Rightarrow> 'd Admin \<Rightarrow> response" where
  "handleTopics inp ad =
     JSON (JTopics (List.map_filter (\<lambda>n. map_option (\<lambda>t. (n, t_seq t)) (registry_Get (srv_registry (ad_srv ad)) n))
       (ListTopics (ai_topics inp) (srv_registry (ad_srv ad)))))"

definition handleDB :: "'d admin_inputs \<Rightarrow> 'd Admin \<Rightarrow> response" where
  "handleDB inp ad =
     (let reg = srv_registry (ad_srv ad); names = ListTopics (ai_topics inp) reg in
      case ad_hub ad of
        None \<Rightarrow> Panicked ''nil pointer dereference''
      | Some (baseDir, _) \<Rightarrow>
          JSON (JDB baseDir (reg_baseDir reg) names
            (map (\<lambda>n. (n, TopicDataDir reg n, case registry_Get reg n of None \<Rightarrow> 0 | Some t \<Rightarrow> t_seq t)) names)))"

definition handleRestart :: "'d Admin \<Rightarrow> response \<times> 'd Admin" where
  "handleRestart ad = (JSON JRestarting, ad\<lparr>ad_shutdown := True\<rparr>)"

text \<open>
  The loop of \<open>handleReplay\<close>: each message is published again; a failure is not counted. The
  \<open>i\<close>-th publish would draw the UUID \<open>ids i\<close> for a message without a server id.
\<close>

definition replay_env :: "Message \<Rightarrow> Envelope" where
  "replay_env m = \<lparr>env_IdempotencyID = m_IdempotencyID m, env_ServerMsgID = m_ServerMsgID m,
     env_PublishTS = m_Timestamp m, env_UserProps = [], env_Payload = m_Payload m\<rparr>"

fun replay_loop :: "'d engine \<Rightarrow> (nat \<Rightarrow> uuid) \<Rightarrow> nat \<Rightarrow> nat \<Rightarrow> Message list \<Rightarrow> 'd Topic \<Rightarrow> nat res \<times> 'd Topic" where
  "replay_loop E ids i replayed [] t = (Inr replayed, t)"
| "replay_loop E ids i replayed (m # ms) t =
     (case Publish E (ids i) (replay_env m) t of
        (Inl (Panic p), t) \<Rightarrow> (Inl (Panic p), t)
      | (Inl err, t) \<Rightarrow> replay_loop E ids (Suc i) replayed ms t
      | (Inr _, t) \<Rightarrow> replay_loop E ids (Suc i) (Suc replayed) ms t)"

text \<open>\<^verbatim>\<open>http.Error(w, err.Error(), 500)\<close>; a panic leaves the handler.\<close>

definition fail :: "go_error \<Rightarrow> response" where
  "fail err = (case err of Panic p \<Rightarrow> Panicked p | _ \<Rightarrow> HttpFail err)"

definition handleReplay :: "'d engine \<Rightarrow> 'd admin_inputs \<Rightarrow> Request \<Rightarrow> 'd Topic \<Rightarrow> response \<times> 'd Topic" where
  "handleReplay E inp r t =
     (let from = parse_uint (hr_Query r ''from'');
          to = parse_uint (hr_Query r ''to'');
          to = (if to = 0 then t_seq t else to) in
      case GetMessages E t from (sint (to - from + 1)) of
        Inl err \<Rightarrow> (fail err, t)
      | Inr msgs \<Rightarrow>
          (case replay_loop E (ai_newV7 inp) 0 0 msgs t of
             (Inl err, t) \<Rightarrow> (fail err, t)
           | (Inr n, t) \<Rightarrow> (JSON (JReplayed n), t)))"

text \<open>
  \<open>handleTailWS\<close> subscribes and takes over the connection; if that fails, the subscription ends at
  once. \<open>tail_step\<close> is one pass of its loop, with \<open>done\<close> telling that \<open>select\<close> takes the end of the request: the
  value sent, or that the handler returns and its subscription ends.
\<close>

definition handleTailWS :: "bool \<Rightarrow> string \<Rightarrow> 'd Topic \<Rightarrow> response \<times> 'd Topic" where
  "handleTailWS upgraded name t =
     (case Subscribe t of (ch, t) \<Rightarrow> if upgraded then (Tail name ch, t) else (UpgradeFailed, unsub ch t))"

datatype tailed = TailSent json | TailWaits | TailEnds

definition tail_step :: "bool \<Rightarrow> nat \<Rightarrow> 'd Topic \<Rightarrow> tailed \<times> 'd Topic" where
  "tail_step done ch t =
     (if done then (TailEnds, unsub ch t)
      else case chan_recv ch t of
        (Got m, t) \<Rightarrow> (TailSent (JTail (m_Seq m) (m_Topic m) (m_Payload m) (m_ServerMsgID m)), t)
      | (Closed, t) \<Rightarrow> (TailEnds, unsub ch t)
      | (Blocked, t) \<Rightarrow> (TailWaits, t))"

text \<open>The switch of \<open>handleTopicSub\<close> on the second part of the path, for the topic \<open>t\<close>.\<close>

definition topic_action :: "'d engine \<Rightarrow> 'd admin_inputs \<Rightarrow> Request \<Rightarrow> string \<Rightarrow> string \<Rightarrow> 'd Topic \<Rightarrow> response \<times> 'd Topic" where
  "topic_action E inp r name action t =
     (if action = ''messages'' then
        let from = parse_uint (hr_Query r ''from''); limit = atoi (hr_Query r ''limit'');
            limit = (if limit \<le> 0 then 50 else limit) in
        (case GetMessages E t from limit of
           Inl err \<Rightarrow> (fail err, t)
         | Inr msgs \<Rightarrow> (JSON (JMessages msgs), t))
      else if action = ''offsets'' then (JSON (JOffsets name (t_seq t)), t)
      else if action = ''tail'' then
        (if hr_Upgrade r = ''websocket'' then handleTailWS (ai_upgraded inp) name t else (HttpError 400 ''websocket required'', t))
      else if action = ''replay'' \<and> hr_Method r = ''POST'' then handleReplay E inp r t
      else if action = ''purge'' \<and> hr_Method r = ''POST'' then
        (case Purge E t of (Some err, t) \<Rightarrow> (fail err, t) | (None, t) \<Rightarrow> (JSON JPurged, t))
      else (HttpNotFound, t))"

definition get_topic :: "'d engine \<Rightarrow> (path \<Rightarrow> 'd res) \<Rightarrow> string \<Rightarrow> 'd Registry \<Rightarrow> 'd Topic res \<times> 'd Registry" where
  "get_topic E opened name reg =
     (case registry_Get reg name of Some t \<Rightarrow> (Inr t, reg) | None \<Rightarrow> GetOrCreate E opened name reg)"

definition handleTopicSub :: "'d engine \<Rightarrow> 'd admin_inputs \<Rightarrow> Request \<Rightarrow> 'd Admin \<Rightarrow> response \<times> 'd Admin" where
  "handleTopicSub E inp r ad =
     (let parts = split_levels (drop (length ''/api/topics/'') (hr_Path r)); name = hd parts in
      if name = '''' then (HttpNotFound, ad)
      else case get_topic E (ai_opened inp) name (srv_registry (ad_srv ad)) of
        (Inl err, reg) \<Rightarrow> (fail err, ad\<lparr>ad_srv := (ad_srv ad)\<lparr>srv_registry := reg\<rparr>\<rparr>)
      | (Inr t, reg) \<Rightarrow>
          let ad = ad\<lparr>ad_srv := (ad_srv ad)\<lparr>srv_registry := reg\<rparr>\<rparr> in
          (case tl parts of
             [] \<Rightarrow> (JSON (JTopic name (t_seq t)), ad)
           | action # _ \<Rightarrow>
               (case topic_action E inp r name action t of (resp, t) \<Rightarrow>
                (resp, ad\<lparr>ad_srv := put_topic name t (ad_srv ad)\<rparr>))))"

section \<open>Routing\<close>

text \<open>The path is the decoded one. \<^verbatim>\<open>cleanPath\<close> of \<^verbatim>\<open>net/http\<close>: the multiplexer redirects a request whose path is not clean.\<close>

definition clean_path :: "string \<Rightarrow> string" where
  "clean_path p =
     (if p = '''' then ''/''
      else let p = (if hd p = CHR ''/'' then p else CHR ''/'' # p);
               np = path_string (foldl filepath_Join \<lparr>p_abs = True, p_comps = []\<rparr> (split_levels p)) in
        if last p = CHR ''/'' \<and> np \<noteq> ''/'' then np @ ''/'' else np)"

definition mux :: "'d engine \<Rightarrow> 'd admin_inputs \<Rightarrow> Request \<Rightarrow> 'd Admin \<Rightarrow> response \<times> 'd Admin" where
  "mux E inp r ad =
     (let p = hr_Path r in
      if hr_Method r \<noteq> ''CONNECT'' \<and> clean_path p \<noteq> p then (Redirect (clean_path p), ad)
      else if p = ''/api/state'' then (handleState inp ad, ad)
      else if p = ''/api/clients'' then (handleClients inp ad, ad)
      else if p = ''/api/topics'' then (handleTopics inp ad, ad)
      else if prefix ''/api/topics/'' p then handleTopicSub E inp r ad
      else if p = ''/api/db'' then (handleDB inp ad, ad)
      else if p = ''/api/admin/restart'' then handleRestart ad
      else (HTML, ad))"

definition serve :: "'d engine \<Rightarrow> 'd admin_inputs \<Rightarrow> Request \<Rightarrow> 'd Admin \<Rightarrow> response \<times> 'd Admin" where
  "serve E inp r ad =
     (if hr_Path r = ''/api/login'' \<and> hr_Method r = ''POST'' then handleLogin inp r ad
      else if \<not> authenticated (ai_now inp) r ad \<and> prefix ''/api/'' (hr_Path r) then (HttpError 401 ''unauthorized'', ad)
      else if hr_Method r \<noteq> ''GET'' \<and> prefix ''/api/admin/'' (hr_Path r) \<and> \<not> validCSRF (ai_now inp) r ad
      then (HttpError 403 ''csrf'', ad)
      else mux E inp r ad)"

section \<open>What a request does to the logs\<close>

definition replay_ops :: "(nat \<Rightarrow> uuid) \<Rightarrow> nat \<Rightarrow> Message list \<Rightarrow> topic_op list" where
  "replay_ops ids i ms = map (\<lambda>(j, m). TPublish (ids j) (replay_env m)) (enumerate i ms)"

lemma replay_ops_simps [simp]:
  "replay_ops ids i [] = []"
  "replay_ops ids i (m # ms) = TPublish (ids i) (replay_env m) # replay_ops ids (Suc i) ms"
  "length (replay_ops ids i ms) = length ms"
  by (simp_all add: replay_ops_def)

text \<open>A message that can be published again: it carries an idempotency key and a time of 64 bits.\<close>

definition replayable :: "Message \<Rightarrow> bool" where
  "replayable m \<longleftrightarrow> wf_env (replay_env m)"

lemma replay_ops_ok: "\<forall>m \<in> set ms. replayable m \<Longrightarrow> \<forall>op \<in> set (replay_ops ids i ms). op_ok op"
  by (induction ms arbitrary: i) (auto simp: replayable_def)

lemma replay_loop_run:
  assumes "badger_laws E cont" "writes_commit E"
  shows "topic_inv cont name ms t \<Longrightarrow> \<forall>m \<in> set sel. replayable m \<Longrightarrow> length ms + length sel < 2 ^ 64 \<Longrightarrow>
    replay_loop E ids i k sel t = (Inr (k + length sel), fold (run_top E) (replay_ops ids i sel) t)"
proof (induction sel arbitrary: i k ms t)
  case (Cons m sel)
  have ok: "wf_env (replay_env m)" "Suc (length ms) < 2 ^ 64" using Cons.prems by (auto simp: replayable_def)
  obtain t' res where p: "Publish E (ids i) (replay_env m) t = (Inr res, t')"
    using topic_log_Publish [OF assms, of t ms "replay_env m" "ids i"] Cons.prems(1) ok by (auto simp: topic_inv_def)
  have "topic_inv cont name (spec_top name (TPublish (ids i) (replay_env m)) ms) t'"
    using topic_inv_step [OF assms Cons.prems(1), of "TPublish (ids i) (replay_env m)"] ok p by simp
  from Cons.IH [OF this, of "Suc i" "Suc k"] Cons.prems p show ?case by simp
qed simp

text \<open>The messages a replay reads: \<open>to = 0\<close> stands for the end of the log.\<close>

definition replay_limit :: "Request \<Rightarrow> u64 \<Rightarrow> int" where
  "replay_limit r seq =
     (let from = parse_uint (hr_Query r ''from''); to = parse_uint (hr_Query r ''to'') in
      sint ((if to = 0 then seq else to) - from + 1))"

definition replay_selection :: "Request \<Rightarrow> Message list \<Rightarrow> Message list" where
  "replay_selection r ms =
     take (nat (replay_limit r (word_of_nat (length ms)))) (drop (unat (parse_uint (hr_Query r ''from'')) - 1) ms)"

lemma set_replay_selection: "set (replay_selection r ms) \<subseteq> set ms"
  unfolding replay_selection_def by (meson in_set_dropD in_set_takeD subsetI)

lemma length_replay_selection: "length (replay_selection r ms) \<le> length ms"
  by (simp add: replay_selection_def)

lemma handleReplay_log:
  assumes "badger_laws E cont" "writes_commit E" "topic_inv cont name ms t"
    and "\<forall>m \<in> set ms. replayable m" "length ms < 2 ^ 63"
  shows "handleReplay E inp r t =
      (if maxSlice < replay_limit r (t_seq t) then (Panicked ''makeslice: cap out of range'', t)
       else (JSON (JReplayed (length (replay_selection r ms))),
             fold (run_top E) (replay_ops (ai_newV7 inp) 0 (replay_selection r ms)) t))"
proof (cases "maxSlice < replay_limit r (t_seq t)")
  case True
  moreover have "0 \<le> maxSlice" by (simp add: maxSlice_def max_alloc_def)
  ultimately show ?thesis
    by (simp add: handleReplay_def replay_limit_def GetMessages_def fail_def Let_def)
next
  case False
  have log: "topic_log cont t ms" and seq: "t_seq t = word_of_nat (length ms)"
    using assms(3) by (auto simp: topic_inv_def topic_log_def)
  have get: "GetMessages E t (parse_uint (hr_Query r ''from'')) (replay_limit r (t_seq t)) = Inr (replay_selection r ms)"
    using GetMessages_log [OF assms(1) log, of "replay_limit r (t_seq t)"] False by (simp add: replay_selection_def seq)
  have "\<forall>m \<in> set (replay_selection r ms). replayable m" "length ms + length (replay_selection r ms) < 2 ^ 64"
    using assms(4,5) set_replay_selection [of r ms] length_replay_selection [of r ms] by auto
  from replay_loop_run [OF assms(1-3) this, of "ai_newV7 inp" 0 0] get False show ?thesis
    by (simp add: handleReplay_def replay_limit_def Let_def)
qed

text \<open>What an action on a topic does to its log.\<close>

definition action_log :: "'d admin_inputs \<Rightarrow> Request \<Rightarrow> string \<Rightarrow> string \<Rightarrow> Message list \<Rightarrow> Message list" where
  "action_log inp r name action ms =
     (if action = ''replay'' \<and> hr_Method r = ''POST'' \<and> replay_limit r (word_of_nat (length ms)) \<le> maxSlice
      then fold (spec_top name) (replay_ops (ai_newV7 inp) 0 (replay_selection r ms)) ms
      else if action = ''purge'' \<and> hr_Method r = ''POST'' then [] else ms)"

lemma topic_action_log:
  assumes "badger_laws E cont" "writes_commit E" "topic_inv cont name ms t"
    and "\<forall>m \<in> set ms. replayable m" "length ms < 2 ^ 63"
  shows "topic_inv cont name (action_log inp r name action ms) (snd (topic_action E inp r name action t))"
proof -
  have seq: "t_seq t = word_of_nat (length ms)" using assms(3) by (simp add: topic_inv_def topic_log_def)
  have purge: "topic_inv cont name [] (snd (Purge E t))"
    using topic_inv_step [OF assms(1-3), of TPurge] assms(5) by simp
  have sub: "topic_inv cont name ms (snd (Subscribe t))"
    using topic_inv_step [OF assms(1-3), of TSubscribe] assms(5) by simp
  have un: "topic_inv cont name ms (unsub a (snd (Subscribe t)))" for a
    using topic_inv_step [OF assms(1,2) sub, of "TUnsub a"] assms(5) by simp
  have tail: "topic_inv cont name ms (snd (handleTailWS u name t))" for u
    using sub un by (simp add: handleTailWS_def split: prod.splits) (metis snd_conv)
  have "\<forall>op \<in> set (replay_ops (ai_newV7 inp) 0 (replay_selection r ms)). op_ok op"
    using assms(4) set_replay_selection [of r ms] by (intro replay_ops_ok) auto
  then have replay: "topic_inv cont name (fold (spec_top name) (replay_ops (ai_newV7 inp) 0 (replay_selection r ms)) ms)
      (fold (run_top E) (replay_ops (ai_newV7 inp) 0 (replay_selection r ms)) t)"
    using topic_inv_run [OF assms(1-3)] length_replay_selection [of r ms] assms(5) by simp
  show ?thesis
    using assms(3) purge tail replay
    by (auto simp: topic_action_def action_log_def handleReplay_log [OF assms] seq Let_def split: sum.split prod.split option.split)
qed

lemma replayable_message_of: "wf_env env \<Longrightarrow> replayable (message_of name q v env)"
  by (simp add: replayable_def replay_env_def message_of_def wf_env_def Let_def)

lemma replayable_replay:
  "\<forall>m \<in> set sel. replayable m \<Longrightarrow> \<forall>m \<in> set ms. replayable m \<Longrightarrow>
    \<forall>m \<in> set (fold (spec_top name) (replay_ops ids i sel) ms). replayable m"
proof (induction sel arbitrary: i ms)
  case (Cons a sel)
  then have "replayable (message_of name q v (replay_env a))" for q v
    by (intro replayable_message_of) (simp add: replayable_def)
  then have "\<forall>m \<in> set (spec_top name (TPublish (ids i) (replay_env a)) ms). replayable m"
    using Cons.prems(2) by auto
  from Cons.IH [OF _ this] Cons.prems(1) show ?case by simp
qed simp

lemma replayable_action_log:
  "\<forall>m \<in> set ms. replayable m \<Longrightarrow> \<forall>m \<in> set (action_log inp r name action ms). replayable m"
  using replayable_replay [of "replay_selection r ms" ms name "ai_newV7 inp" 0] set_replay_selection [of r ms]
  by (simp add: action_log_def subset_iff)

text \<open>A request below \<open>/api/topics/\<close>, on a server with logs.\<close>

lemma handleTopicSub_logs:
  assumes "badger_laws E cont" "writes_commit E" "server_logs cont (ai_opened inp) (ad_srv ad) L"
    and parts: "split_levels (drop (length ''/api/topics/'') (hr_Path r)) = n # rest" "n \<noteq> ''''"
  shows "\<exists>t. topic_inv cont n (L n) t \<and> handleTopicSub E inp r ad =
    (case rest of
       [] \<Rightarrow> (JSON (JTopic n (t_seq t)), ad\<lparr>ad_srv := put_topic n t (ad_srv ad)\<rparr>)
     | action # _ \<Rightarrow> (fst (topic_action E inp r n action t),
         ad\<lparr>ad_srv := put_topic n (snd (topic_action E inp r n action t)) (put_topic n t (ad_srv ad))\<rparr>))"
proof -
  obtain t reg where t: "GetOrCreate E (ai_opened inp) n (srv_registry (ad_srv ad)) = (Inr t, reg)"
    "topic_inv cont n (L n) t" "(ad_srv ad)\<lparr>srv_registry := reg\<rparr> = put_topic n t (ad_srv ad)"
    using GetOrCreate_logs [OF assms(1-3), of n] by blast
  then have get: "get_topic E (ai_opened inp) n (srv_registry (ad_srv ad)) = (Inr t, reg)"
    by (auto simp: get_topic_def registry_Get_def GetOrCreate_def split: option.splits)
  show ?thesis
    using t(2) parts(2) unfolding handleTopicSub_def parts(1) Let_def
    by (intro exI [of _ t]) (simp add: get t(3) split: list.split prod.split)
qed

definition request_logs :: "'d admin_inputs \<Rightarrow> Request \<Rightarrow> (string \<Rightarrow> Message list) \<Rightarrow> (string \<Rightarrow> Message list)" where
  "request_logs inp r L =
     (case split_levels (drop (length ''/api/topics/'') (hr_Path r)) of
        n # action # _ \<Rightarrow> if n = '''' then L else L(n := action_log inp r n action (L n))
      | _ \<Rightarrow> L)"

lemma replayable_request_logs:
  "\<forall>n. \<forall>m \<in> set (L n). replayable m \<Longrightarrow> \<forall>n. \<forall>m \<in> set (request_logs inp r L n). replayable m"
  using replayable_action_log [of "L n" for n] by (simp add: request_logs_def split: list.split) blast

lemma handleTopicSub_refines:
  assumes "badger_laws E cont" "writes_commit E" "server_logs cont (ai_opened inp) (ad_srv ad) L"
    and "\<forall>n. \<forall>m \<in> set (L n). replayable m" "\<forall>n. length (L n) < 2 ^ 63"
  shows "server_logs cont (ai_opened inp) (ad_srv (snd (handleTopicSub E inp r ad))) (request_logs inp r L)"
proof -
  obtain n rest where parts: "split_levels (drop (length ''/api/topics/'') (hr_Path r)) = n # rest"
    by (meson list.exhaust split_levels_not_Nil)
  show ?thesis
  proof (cases "n = ''''")
    case True
    with assms(3) show ?thesis
      unfolding handleTopicSub_def request_logs_def parts Let_def by (simp split: list.split)
  next
    case False
    obtain t where t: "topic_inv cont n (L n) t" and h: "handleTopicSub E inp r ad =
      (case rest of
         [] \<Rightarrow> (JSON (JTopic n (t_seq t)), ad\<lparr>ad_srv := put_topic n t (ad_srv ad)\<rparr>)
       | action # _ \<Rightarrow> (fst (topic_action E inp r n action t),
           ad\<lparr>ad_srv := put_topic n (snd (topic_action E inp r n action t)) (put_topic n t (ad_srv ad))\<rparr>))"
      using handleTopicSub_logs [OF assms(1-3) parts False] by blast
    have put: "server_logs cont (ai_opened inp) (put_topic n t (ad_srv ad)) L"
      using server_logs_put [OF assms(3) t] by simp
    have act: "topic_inv cont n (action_log inp r n action (L n)) (snd (topic_action E inp r n action t))" for action
      using topic_action_log [OF assms(1,2) t] assms(4,5) by blast
    show ?thesis
      using False put server_logs_put [OF put act] unfolding h request_logs_def parts by (simp split: list.split)
  qed
qed

section \<open>Who may do what\<close>

lemmas admin_handlers = mux_def handleTopicSub_def handleRestart_def Let_def

text \<open>Only a log-in touches the sessions; nothing touches the credentials.\<close>

lemma mux_keeps:
  "ad_sessions (snd (mux E inp r ad)) = ad_sessions ad"
  "ad_csrfTokens (snd (mux E inp r ad)) = ad_csrfTokens ad"
  "ad_user (snd (mux E inp r ad)) = ad_user ad"
  "ad_pass (snd (mux E inp r ad)) = ad_pass ad"
  by (auto simp: admin_handlers split: prod.split sum.split list.split)

definition login_ok :: "string \<Rightarrow> string \<Rightarrow> Request \<Rightarrow> bool" where
  "login_ok user pass r \<longleftrightarrow> hr_Path r = ''/api/login'' \<and> hr_Method r = ''POST'' \<and> hr_BasicAuth r = Some (user, pass)"

lemma serve_login:
  assumes "login_ok (ad_user ad) (ad_pass ad) r"
  shows "serve E inp r ad = (LoggedIn (ai_tok inp) (JCsrf (ai_csrf inp)),
     ad\<lparr>ad_sessions := (ad_sessions ad)(ai_tok inp \<mapsto> ai_now inp + day),
        ad_csrfTokens := (ad_csrfTokens ad)(ai_csrf inp \<mapsto> ai_now inp + day)\<rparr>)"
  using assms by (simp add: serve_def login_ok_def handleLogin_def)

lemma serve_keeps:
  "ad_user (snd (serve E inp r ad)) = ad_user ad"
  "ad_pass (snd (serve E inp r ad)) = ad_pass ad"
  "\<not> login_ok (ad_user ad) (ad_pass ad) r \<Longrightarrow> ad_sessions (snd (serve E inp r ad)) = ad_sessions ad"
  by (auto simp: serve_def handleLogin_def login_ok_def mux_keeps split: option.split)

definition public_response :: "response \<Rightarrow> bool" where
  "public_response resp \<longleftrightarrow> resp = HttpError 401 ''unauthorized'' \<or> resp = HTML \<or> (\<exists>p. resp = Redirect p)"

lemma not_api:
  assumes "\<not> prefix ''/api/'' p"
  shows "p \<noteq> ''/api/state''" "p \<noteq> ''/api/clients''" "p \<noteq> ''/api/topics''" "\<not> prefix ''/api/topics/'' p" "p \<noteq> ''/api/db''"
    "p \<noteq> ''/api/admin/restart''" "\<not> prefix ''/api/admin/'' p" "p \<noteq> ''/api/login''"
  using assms by (auto simp: prefix_def)

lemma mux_public:
  assumes "\<not> prefix ''/api/'' (hr_Path r)"
  shows "public_response (fst (mux E inp r ad)) \<and> snd (mux E inp r ad) = ad"
  by (simp add: mux_def not_api [OF assms] public_response_def Let_def)

lemma serve_unauthenticated:
  assumes "\<not> authenticated (ai_now inp) r ad" "\<not> login_ok (ad_user ad) (ad_pass ad) r"
  shows "public_response (fst (serve E inp r ad)) \<and> snd (serve E inp r ad) = ad"
proof (cases "prefix ''/api/'' (hr_Path r)")
  case True
  with assms show ?thesis
    by (auto simp: serve_def handleLogin_def login_ok_def public_response_def split: option.split)
next
  case False
  then show ?thesis
    using mux_public [OF False, of E inp ad] by (simp add: serve_def not_api)
qed

text \<open>
  The requests served, the last one first, each with the state before and after. Between them the
  rest of the broker changes the server as it likes.
\<close>

record 'd served =
  sv_in :: "'d admin_inputs"
  sv_req :: Request
  sv_before :: "'d Admin"
  sv_resp :: response
  sv_after :: "'d Admin"

inductive admin_run :: "'d engine \<Rightarrow> 'd Admin \<Rightarrow> 'd served list \<Rightarrow> 'd Admin \<Rightarrow> bool" for E ad0 where
  start: "admin_run E ad0 [] ad0"
| request: "admin_run E ad0 tr ad \<Longrightarrow> serve E inp r ad = (resp, ad') \<Longrightarrow>
    admin_run E ad0 (\<lparr>sv_in = inp, sv_req = r, sv_before = ad, sv_resp = resp, sv_after = ad'\<rparr> # tr) ad'"
| broker: "admin_run E ad0 tr ad \<Longrightarrow> admin_run E ad0 tr (ad\<lparr>ad_srv := srv\<rparr>)"

inductive_cases admin_run_ConsE: "admin_run E ad0 (x # tr) ad"

lemma admin_run_credentials:
  "admin_run E ad0 tr ad \<Longrightarrow> ad_user ad = ad_user ad0 \<and> ad_pass ad = ad_pass ad0"
proof (induction rule: admin_run.induct)
  case (request tr ad inp r resp ad')
  then show ?case using serve_keeps(1,2) [of E inp r ad] by simp
qed simp_all

text \<open>Every session comes from a log-in and ends a day later.\<close>

definition issued :: "string \<Rightarrow> gotime \<Rightarrow> 'd Admin \<Rightarrow> 'd served \<Rightarrow> bool" where
  "issued tok exp ad0 y \<longleftrightarrow> login_ok (ad_user ad0) (ad_pass ad0) (sv_req y) \<and>
     sv_resp y = LoggedIn tok (JCsrf (ai_csrf (sv_in y))) \<and> exp = ai_now (sv_in y) + day"

lemma admin_run_sessions:
  assumes "admin_run E ad0 tr ad" "ad_sessions ad0 = Map.empty"
  shows "ad_sessions ad tok = Some exp \<Longrightarrow> \<exists>y \<in> set tr. issued tok exp ad0 y"
  using assms
proof (induction rule: admin_run.induct)
  case (request tr ad inp r resp ad')
  note cred = admin_run_credentials [OF request.hyps(1)]
  show ?case
  proof (cases "login_ok (ad_user ad) (ad_pass ad) r \<and> tok = ai_tok inp")
    case True
    then have "resp = LoggedIn tok (JCsrf (ai_csrf inp))" "exp = ai_now inp + day"
      using request serve_login [of ad r E inp] by auto
    with True cred show ?thesis by (simp add: issued_def)
  next
    case False
    then have "ad_sessions ad tok = Some exp"
      using request serve_login [of ad r E inp] serve_keeps(3) [of ad r E inp]
      by (cases "login_ok (ad_user ad) (ad_pass ad) r") auto
    with request show ?thesis by auto
  qed
qed simp_all

lemma admin_run_served:
  "admin_run E ad0 tr ad \<Longrightarrow> tr = later @ x # earlier \<Longrightarrow>
    admin_run E ad0 earlier (sv_before x) \<and> serve E (sv_in x) (sv_req x) (sv_before x) = (sv_resp x, sv_after x)"
proof (induction arbitrary: later rule: admin_run.induct)
  case (request tr ad inp r resp ad')
  then show ?case by (cases later) auto
qed auto

section \<open>A sample\<close>

definition sample_request :: "string \<Rightarrow> string \<Rightarrow> Request" where
  "sample_request meth path = \<lparr>hr_Method = meth, hr_Path = path, hr_Query = (\<lambda>_. []), hr_Cookie = Some ''tok'',
     hr_CSRF = [], hr_BasicAuth = None, hr_Upgrade = []\<rparr>"

definition login_request :: Request where
  "login_request = (sample_request ''POST'' ''/api/login'')\<lparr>hr_Cookie := None, hr_BasicAuth := Some (''admin'', ''pw'')\<rparr>"

definition sample_ai :: "mem_db admin_inputs" where
  "sample_ai = \<lparr>ai_now = 5, ai_tok = ''tok'', ai_csrf = ''csrf'', ai_newV7 = (\<lambda>i. 20 + word_of_nat i), ai_topics = [''t''],
     ai_clients = [], ai_opened = (\<lambda>_. Inr []), ai_upgraded = True\<rparr>"

definition sample_admin :: "mem_db Admin" where
  "sample_admin = admin_New sample_server (Some (''meta'', 0)) ''admin'' ''pw'' 0"

definition admin_in :: "mem_db Admin" where
  "admin_in = snd (serve mem_engine sample_ai login_request sample_admin)"

lemma sample_login:
  "serve mem_engine sample_ai login_request sample_admin = (LoggedIn ''tok'' (JCsrf ''csrf''), admin_in)"
  "authenticated 5 (sample_request m p) admin_in" "ad_srv admin_in = sample_server"
proof -
  have "login_ok (ad_user sample_admin) (ad_pass sample_admin) login_request"
    by (simp add: login_ok_def login_request_def sample_request_def sample_admin_def admin_New_def)
  note eq = serve_login [OF this, of mem_engine sample_ai]
  show "serve mem_engine sample_ai login_request sample_admin = (LoggedIn ''tok'' (JCsrf ''csrf''), admin_in)"
    by (simp add: admin_in_def eq) (simp add: sample_ai_def)
  show "authenticated 5 (sample_request m p) admin_in" "ad_srv admin_in = sample_server"
    unfolding admin_in_def eq
    by (simp_all add: authenticated_def sample_request_def sample_ai_def day_def sample_admin_def admin_New_def)
qed

lemma sample_admin_logs:
  "server_logs map_of (ai_opened sample_ai) (ad_srv admin_in) ((\<lambda>_. [])(''t'' := [sample_msg]))"
  using sample_server_logs by (simp add: sample_login(3)) (simp add: sample_ai_def)

lemma replayable_sample: "replayable sample_msg"
  unfolding sample_msg_def by (rule replayable_message_of [OF wf_sample_env])

text \<open>
  C8 (the administration server is closed to strangers). Start the administration server and let it serve
  any requests while the rest of the broker runs. Then every request served is either answered
  with 401, the static page or a redirection, without any effect, or it is a log-in with the
  configured name and password, or it carries the token that an earlier such log-in was answered
  with, less than 24 hours later. No path, method, header or CSRF token gets around the log-in.
\<close>

theorem admin_requires_login:
  assumes "admin_run E (admin_New srv hub user pass now0) tr ad" "tr = later @ x # earlier"
  shows "public_response (sv_resp x) \<and> sv_after x = sv_before x
    \<or> login_ok user pass (sv_req x)
    \<or> (\<exists>y \<in> set earlier. \<exists>tok csrf. login_ok user pass (sv_req y) \<and> sv_resp y = LoggedIn tok csrf
          \<and> hr_Cookie (sv_req x) = Some tok \<and> ai_now (sv_in x) < ai_now (sv_in y) + day)"
proof -
  let ?ad0 = "admin_New srv hub user pass now0"
  have new: "ad_sessions ?ad0 = Map.empty" "ad_user ?ad0 = user" "ad_pass ?ad0 = pass"
    by (simp_all add: admin_New_def)
  have run: "admin_run E ?ad0 earlier (sv_before x)"
    and served: "serve E (sv_in x) (sv_req x) (sv_before x) = (sv_resp x, sv_after x)"
    using admin_run_served [OF assms] by simp_all
  have cred: "ad_user (sv_before x) = user" "ad_pass (sv_before x) = pass"
    using admin_run_credentials [OF run] new by simp_all
  show ?thesis
  proof (cases "authenticated (ai_now (sv_in x)) (sv_req x) (sv_before x)")
    case True
    then obtain tok exp where tok: "hr_Cookie (sv_req x) = Some tok" "ad_sessions (sv_before x) tok = Some exp"
      "ai_now (sv_in x) < exp"
      by (auto simp: authenticated_def split: option.splits)
    with admin_run_sessions [OF run new(1)] show ?thesis by (auto simp: issued_def new)
  next
    case False
    with serve_unauthenticated [OF False, of E] show ?thesis by (auto simp: cred served)
  qed
qed

definition spec_admin :: "'d admin_inputs \<Rightarrow> Request \<Rightarrow> 'd Admin \<Rightarrow> (string \<Rightarrow> Message list) \<Rightarrow> (string \<Rightarrow> Message list)" where
  "spec_admin inp r ad L =
     (if authenticated (ai_now inp) r ad \<and> prefix ''/api/topics/'' (hr_Path r)
         \<and> (hr_Method r = ''CONNECT'' \<or> clean_path (hr_Path r) = hr_Path r)
      then request_logs inp r L else L)"

theorem admin_requires_login_witness:
  "let x = \<lparr>sv_in = sample_ai, sv_req = sample_request ''POST'' ''/api/topics/t/purge'', sv_before = sample_admin,
      sv_resp = HttpError 401 ''unauthorized'', sv_after = sample_admin\<rparr> in
   admin_run mem_engine sample_admin [x] sample_admin \<and> public_response (sv_resp x) \<and> sv_after x = sv_before x"
proof -
  let ?r = "sample_request ''POST'' ''/api/topics/t/purge''"
  let ?x = "\<lparr>sv_in = sample_ai, sv_req = ?r, sv_before = sample_admin,
      sv_resp = HttpError 401 ''unauthorized'', sv_after = sample_admin\<rparr>"
  have "\<not> authenticated 5 ?r sample_admin"
    by (simp add: authenticated_def sample_request_def sample_admin_def admin_New_def)
  then have "serve mem_engine sample_ai ?r sample_admin = (HttpError 401 ''unauthorized'', sample_admin)"
    by (simp add: serve_def) (simp add: sample_request_def sample_ai_def)
  then have run: "admin_run mem_engine sample_admin [?x] sample_admin"
    by (intro admin_run.request admin_run.start)
  then have "admin_run mem_engine (admin_New sample_server (Some (''meta'', 0)) ''admin'' ''pw'' 0) [?x] sample_admin"
    by (simp only: sample_admin_def)
  from admin_requires_login [OF this, of "[]" ?x "[]"] run show ?thesis
    by (simp add: login_ok_def sample_request_def)
qed

lemma serve_logs:
  assumes "badger_laws E cont" "writes_commit E" "server_logs cont (ai_opened inp) (ad_srv ad) L"
    and "\<forall>n. \<forall>m \<in> set (L n). replayable m" "\<forall>n. length (L n) < 2 ^ 63"
  shows "server_logs cont (ai_opened inp) (ad_srv (snd (serve E inp r ad))) (spec_admin inp r ad L)"
    and "\<forall>n. \<forall>m \<in> set (spec_admin inp r ad L n). replayable m"
proof -
  have login: "ad_srv (snd (handleLogin inp r ad)) = ad_srv ad"
    by (simp add: handleLogin_def split: option.split)
  have mux: "server_logs cont (ai_opened inp) (ad_srv (snd (mux E inp r ad)))
      (if prefix ''/api/topics/'' (hr_Path r) \<and> (hr_Method r = ''CONNECT'' \<or> clean_path (hr_Path r) = hr_Path r)
       then request_logs inp r L else L)"
    using handleTopicSub_refines [OF assms] assms(3) by (simp add: mux_def handleRestart_def Let_def)
  show "server_logs cont (ai_opened inp) (ad_srv (snd (serve E inp r ad))) (spec_admin inp r ad L)"
  proof (cases "prefix ''/api/topics/'' (hr_Path r)")
    case True
    then have "hr_Path r \<noteq> ''/api/login''" "prefix ''/api/'' (hr_Path r)" "\<not> prefix ''/api/admin/'' (hr_Path r)"
      by (auto simp: prefix_def)
    with True mux assms(3) show ?thesis by (auto simp: serve_def spec_admin_def split: if_splits)
  next
    case False
    with mux assms(3) login show ?thesis by (simp add: serve_def spec_admin_def)
  qed
  show "\<forall>n. \<forall>m \<in> set (spec_admin inp r ad L n). replayable m"
    using assms(4) replayable_request_logs [OF assms(4), of inp r] by (simp add: spec_admin_def)
qed



section \<open>The CSRF guard\<close>

lemma topic_path:
  assumes "n \<notin> {[], ''.'', ''..''}" "CHR ''/'' \<notin> set n"
  shows "clean_path (''/api/topics/'' @ n @ ''/purge'') = ''/api/topics/'' @ n @ ''/purge''"
    "split_levels (n @ ''/purge'') = [n, ''purge'']"
proof -
  show sp: "split_levels (n @ ''/purge'') = [n, ''purge'']"
    using split_levels_append_slash [OF assms(2), of "''purge''"] by simp
  show "clean_path (''/api/topics/'' @ n @ ''/purge'') = ''/api/topics/'' @ n @ ''/purge''"
    using assms(1) sp by (simp add: clean_path_def filepath_Join_def path_string_def Let_def)
qed

text \<open>
  The reach of the CSRF guard. The CSRF token is asked for only below \<open>/api/admin/\<close> and only for
  methods other than GET. An authenticated request without a valid token, such as another site can
  make a browser send, empties the log of a topic by POST, and stops the sessions of the broker by GET; only
  the restart by POST is refused.
\<close>

theorem csrf_guards_only_restart_by_post:
  assumes "badger_laws E cont" "writes_commit E" "server_logs cont (ai_opened inp) (ad_srv ad) L"
    and auth: "authenticated (ai_now inp) r ad" and csrf: "\<not> validCSRF (ai_now inp) r ad"
    and n: "n \<notin> {[], ''.'', ''..''}" "CHR ''/'' \<notin> set n"
  shows "(\<exists>ad'. serve E inp (r\<lparr>hr_Method := ''POST'', hr_Path := ''/api/topics/'' @ n @ ''/purge''\<rparr>) ad = (JSON JPurged, ad')
      \<and> server_logs cont (ai_opened inp) (ad_srv ad') (L(n := [])))
    \<and> serve E inp (r\<lparr>hr_Method := ''GET'', hr_Path := ''/api/admin/restart''\<rparr>) ad = (JSON JRestarting, ad\<lparr>ad_shutdown := True\<rparr>)
    \<and> serve E inp (r\<lparr>hr_Method := ''POST'', hr_Path := ''/api/admin/restart''\<rparr>) ad = (HttpError 403 ''csrf'', ad)"
proof (intro conjI)
  have auth': "authenticated (ai_now inp) (r\<lparr>hr_Method := m, hr_Path := p\<rparr>) ad" for m p
    using auth by (simp add: authenticated_def)
  have csrf': "\<not> validCSRF (ai_now inp) (r\<lparr>hr_Method := m, hr_Path := p\<rparr>) ad" for m p
    using csrf by (simp add: validCSRF_def split: if_splits)
  let ?p = "''/api/topics/'' @ n @ ''/purge''"
  let ?r = "r\<lparr>hr_Method := ''POST'', hr_Path := ?p\<rparr>"
  have "split_levels (drop (length ''/api/topics/'') (hr_Path ?r)) = [n, ''purge'']"
    using topic_path(2) [OF n] by simp
  from handleTopicSub_logs [OF assms(1-3) this] n(1)
  obtain t where t: "topic_inv cont n (L n) t" and h: "handleTopicSub E inp ?r ad =
      (fst (topic_action E inp ?r n ''purge'' t),
       ad\<lparr>ad_srv := put_topic n (snd (topic_action E inp ?r n ''purge'' t)) (put_topic n t (ad_srv ad))\<rparr>)"
    by auto
  have "fst (Purge E t) = None \<and> topic_inv cont n [] (snd (Purge E t))"
    using topic_inv_Purge [OF assms(1,2) t] .
  then have a: "topic_action E inp ?r n ''purge'' t = (JSON JPurged, snd (Purge E t))" "topic_inv cont n [] (snd (Purge E t))"
    by (auto simp: topic_action_def split: prod.split)
  have "server_logs cont (ai_opened inp) (put_topic n (snd (Purge E t)) (put_topic n t (ad_srv ad))) (L(n := []))"
    using server_logs_put [OF server_logs_put [OF assms(3) t] a(2)] by simp
  moreover have "serve E inp ?r ad = handleTopicSub E inp ?r ad"
    using topic_path(1) [OF n] by (simp add: serve_def mux_def auth' Let_def)
  ultimately show "\<exists>ad'. serve E inp ?r ad = (JSON JPurged, ad') \<and> server_logs cont (ai_opened inp) (ad_srv ad') (L(n := []))"
    unfolding h a(1) by simp
  have clean: "clean_path ''/api/admin/restart'' = ''/api/admin/restart''"
    by (simp add: clean_path_def filepath_Join_def path_string_def Let_def)
  show "serve E inp (r\<lparr>hr_Method := ''GET'', hr_Path := ''/api/admin/restart''\<rparr>) ad = (JSON JRestarting, ad\<lparr>ad_shutdown := True\<rparr>)"
    by (simp add: serve_def mux_def auth' clean handleRestart_def Let_def)
  show "serve E inp (r\<lparr>hr_Method := ''POST'', hr_Path := ''/api/admin/restart''\<rparr>) ad = (HttpError 403 ''csrf'', ad)"
    by (simp add: serve_def auth' csrf')
qed

theorem csrf_guards_only_restart_by_post_witness:
  "\<exists>ad'. serve mem_engine sample_ai (sample_request ''POST'' ''/api/topics/t/purge'') admin_in = (JSON JPurged, ad')
     \<and> server_logs map_of (\<lambda>_. Inr []) (ad_srv ad') (\<lambda>_. [])"
proof -
  let ?r = "sample_request ''POST'' ''/''"
  have auth: "authenticated (ai_now sample_ai) ?r admin_in"
    using sample_login(2) by (simp add: sample_ai_def)
  have csrf: "\<not> validCSRF (ai_now sample_ai) ?r admin_in"
    by (simp add: validCSRF_def sample_request_def)
  have r: "?r\<lparr>hr_Method := ''POST'', hr_Path := ''/api/topics/'' @ ''t'' @ ''/purge''\<rparr> = sample_request ''POST'' ''/api/topics/t/purge''"
    by (simp add: sample_request_def)
  have o: "ai_opened sample_ai = (\<lambda>_. Inr [])" by (simp add: sample_ai_def)
  from csrf_guards_only_restart_by_post [OF badger_laws_mem writes_commit_mem sample_admin_logs auth csrf, of "''t''"]
  show ?thesis unfolding r o by (simp add: fun_upd_idem)
qed

section \<open>What a replay appends\<close>

lemma replay_copies:
  assumes "\<forall>m \<in> set sel. m_ServerMsgID m \<noteq> uuid_Nil"
  shows "fold (spec_top name) (replay_ops ids i sel) ms =
    ms @ map (\<lambda>(j, m). message_of name (word_of_nat (length ms + j) + 1) uuid_Nil (replay_env m)) (enumerate 0 sel)"
  using assms
proof (induction sel arbitrary: i ms)
  case (Cons a sel)
  have "message_of name q v (replay_env a) = message_of name q uuid_Nil (replay_env a)" for q v
    using Cons.prems by (simp add: message_of_def replay_env_def)
  moreover have "map (\<lambda>(j, m). message_of name (word_of_nat (length ms + 1 + j) + 1) uuid_Nil (replay_env m)) (enumerate 0 sel)
      = map (\<lambda>(j, m). message_of name (word_of_nat (length ms + j) + 1) uuid_Nil (replay_env m)) (enumerate (Suc 0) sel)"
    by (simp add: enumerate_Suc_eq split_def)
  ultimately show ?case using Cons by simp
qed simp

lemma below_maxSlice:
  assumes "int (unat b) < maxSlice" shows "unat b < 35184372088832"
proof -
  have "maxSlice = 35184372088832" by (simp add: maxSlice_def max_alloc_def)
  with assms show ?thesis by linarith
qed

lemma sint_range:
  fixes a b :: u64
  assumes "a \<le> b" "int (unat b) < maxSlice"
  shows "sint (b - a + 1) = int (unat b - unat a + 1)"
proof -
  have b: "unat b < 35184372088832" by (rule below_maxSlice [OF assms(2)])
  have "unat (b - a) = unat b - unat a" by (rule unat_sub [OF assms(1)])
  with b have "unat (b - a + 1) = unat b - unat a + 1"
    by (simp add: unat_word_ariths)
  then have u: "uint (b - a + 1) = int (unat b - unat a + 1)"
    by (metis uint_nat)
  then have "signed_take_bit 63 (uint (b - a + 1)) = uint (b - a + 1)"
    using b by (intro signed_take_bit_int_eq_self) simp_all
  with u show ?thesis by (simp add: sint_uint)
qed

text \<open>
  What a replay appends. A replay of the messages \<open>from\<close> to \<open>to\<close> of a log appends to it, in
  their order and under new numbers, copies with the payload, the time, the idempotency key and the server
  id of the originals, and reports how many. The range starts at \<open>from\<close> and has \<open>to - from + 1\<close> messages;
  messages are numbered from 1, so without \<open>from\<close>, which counts as 0, one message more than up to \<open>to\<close>
  is replayed. The key and the server id being those of the originals, a client that has seen the
  originals drops the copies.
\<close>

theorem replay_appends_copies:
  assumes "badger_laws E cont" "writes_commit E" "topic_inv cont name ms t"
    and "\<forall>m \<in> set ms. replayable m \<and> m_ServerMsgID m \<noteq> uuid_Nil" "length ms < 2 ^ 63"
    and "parse_uint (hr_Query r ''from'') = f" "parse_uint (hr_Query r ''to'') = k" "k \<noteq> 0" "f \<le> k" "int (unat k) < maxSlice"
    and sel: "sel = take (unat k - unat f + 1) (drop (unat f - 1) ms)"
  shows "\<exists>t' copies. handleReplay E inp r t = (JSON (JReplayed (length sel)), t') \<and> topic_inv cont name (ms @ copies) t'
    \<and> map m_Seq copies = map (\<lambda>i. word_of_nat (length ms + i) + 1) [0..<length sel]
    \<and> map (\<lambda>m. (m_Payload m, m_Timestamp m, m_IdempotencyID m, m_ServerMsgID m)) copies
      = map (\<lambda>m. (m_Payload m, m_Timestamp m, m_IdempotencyID m, m_ServerMsgID m)) sel"
proof -
  have rep: "\<forall>m \<in> set ms. replayable m" using assms(4) by blast
  have lim: "replay_limit r q = int (unat k - unat f + 1)" for q
    using sint_range [OF assms(9,10)] by (simp add: replay_limit_def assms(6-8))
  have sel': "replay_selection r ms = sel"
    unfolding replay_selection_def lim sel assms(6) nat_int ..
  have "int (unat k - unat f + 1) \<le> maxSlice" using assms(10) by linarith
  then have res: "handleReplay E inp r t = (JSON (JReplayed (length sel)), fold (run_top E) (replay_ops (ai_newV7 inp) 0 sel) t)"
    using handleReplay_log [OF assms(1-3) rep assms(5), of inp r] unfolding lim sel' by simp
  define copies where "copies = map (\<lambda>(j, m). message_of name (word_of_nat (length ms + j) + 1) uuid_Nil (replay_env m)) (enumerate 0 sel)"
  have sub: "set sel \<subseteq> set ms" "length sel \<le> length ms"
    using set_replay_selection [of r ms] length_replay_selection [of r ms] unfolding sel' by simp_all
  have "topic_inv cont name (fold (spec_top name) (replay_ops (ai_newV7 inp) 0 sel) ms) (fold (run_top E) (replay_ops (ai_newV7 inp) 0 sel) t)"
    using topic_inv_run [OF assms(1-3), of "replay_ops (ai_newV7 inp) 0 sel"] replay_ops_ok [of sel "ai_newV7 inp" 0] rep sub assms(5) by auto
  moreover have "fold (spec_top name) (replay_ops (ai_newV7 inp) 0 sel) ms = ms @ copies"
    unfolding copies_def using assms(4) sub(1) by (intro replay_copies) blast
  moreover have "map m_Seq copies = map (\<lambda>i. word_of_nat (length ms + i) + 1) [0..<length sel]"
    by (rule nth_equalityI) (simp_all add: copies_def nth_enumerate_eq message_of_def Let_def)
  moreover have "map (\<lambda>m. (m_Payload m, m_Timestamp m, m_IdempotencyID m, m_ServerMsgID m)) copies
      = map (\<lambda>m. (m_Payload m, m_Timestamp m, m_IdempotencyID m, m_ServerMsgID m)) sel"
    using assms(4) sub(1)
    by (intro nth_equalityI) (auto simp: copies_def nth_enumerate_eq message_of_def replay_env_def Let_def)
  ultimately show ?thesis using res by auto
qed

theorem replay_appends_copies_witness:
  "let r = (sample_request ''POST'' ''/api/topics/t/replay'')\<lparr>hr_Query := (\<lambda>q. if q = ''to'' then ''1'' else [])\<rparr> in
   \<exists>t' copies. handleReplay mem_engine sample_ai r logged_topic = (JSON (JReplayed 1), t')
     \<and> topic_inv map_of ''t'' (sample_msg # copies) t' \<and> map m_Seq copies = [2]
     \<and> map m_ServerMsgID copies = [m_ServerMsgID sample_msg]"
proof -
  let ?r = "(sample_request ''POST'' ''/api/topics/t/replay'')\<lparr>hr_Query := (\<lambda>q. if q = ''to'' then ''1'' else [])\<rparr>"
  have inv: "topic_inv map_of ''t'' [sample_msg] logged_topic"
    using logged_topic_ok by (simp add: topic_inv_def) (simp add: logged_topic_def)
  have q: "parse_uint (hr_Query ?r ''from'') = 0" "parse_uint (hr_Query ?r ''to'') = 1"
    by (simp_all add: parse_uint_def is_digit_def digits_value_def)
  have id: "m_ServerMsgID sample_msg \<noteq> uuid_Nil"
    by (simp add: sample_msg_def message_of_def sample_env_def Let_def)
  have k: "(0::u64) \<le> 1" "int (unat (1::u64)) < maxSlice" by (simp_all add: maxSlice_def max_alloc_def)
  have "[sample_msg] = take (unat (1::u64) - unat (0::u64) + 1) (drop (unat (0::u64) - 1) [sample_msg])" by simp
  from replay_appends_copies [OF badger_laws_mem writes_commit_mem inv _ _ q _ k this, of sample_ai] replayable_sample id
  obtain t' copies where "handleReplay mem_engine sample_ai ?r logged_topic = (JSON (JReplayed 1), t')"
    "topic_inv map_of ''t'' (sample_msg # copies) t'" "map m_Seq copies = [2]" "map m_ServerMsgID copies = [m_ServerMsgID sample_msg]"
    by auto
  then show ?thesis unfolding Let_def by (intro exI conjI)
qed

end
