(* ===== verification/Startup.thy ===== *)
theory Startup
  imports Admin
begin

text \<open>
  The start of the broker process (\<^verbatim>\<open>cmd/broker/main.go\<close>): the configuration (\<^verbatim>\<open>core/config/config.go\<close>), the TLS
  settings (\<^verbatim>\<open>core/security/tls.go\<close>), the sample users file (\<^verbatim>\<open>WriteDefaultDev\<close> in
  \<^verbatim>\<open>core/auth/auth.go\<close>), the composition of the servers, and the listeners of the MQTT server. The
  file system, the YAML decoder and the certificate functions are fields of a record \<open>host\<close>.
\<close>

section \<open>Configuration\<close>

record Config =
  cfg_MQTTAddr :: string
  cfg_MQTTTLSAddr :: string
  cfg_MetricsAddr :: string
  cfg_AdminAddr :: string
  cfg_TopicsDir :: string
  cfg_MetaDir :: string
  cfg_UsersFile :: string
  cfg_TLSCert :: string
  cfg_TLSKey :: string
  cfg_TLSCA :: string
  cfg_DedupCapacity :: int
  cfg_DedupTTL :: int
  cfg_AdminUser :: string
  cfg_AdminPassword :: string
  cfg_AuthRequired :: bool

definition config_Default :: Config where
  "config_Default =
     \<lparr>cfg_MQTTAddr = '':1883'', cfg_MQTTTLSAddr = '':8883'', cfg_MetricsAddr = '':9090'', cfg_AdminAddr = '':8080'',
      cfg_TopicsDir = ''storage/topics'', cfg_MetaDir = ''storage/meta'', cfg_UsersFile = ''config/users.yaml'',
      cfg_TLSCert = [], cfg_TLSKey = [], cfg_TLSCA = [],
      cfg_DedupCapacity = 100000, cfg_DedupTTL = 10 * 60 * 1000000000,
      cfg_AdminUser = ''admin'', cfg_AdminPassword = ''admin'', cfg_AuthRequired = True\<rparr>"

text \<open>
  What the process asks of its host, for a file system of type \<open>'f\<close>, certificates of type \<open>'c\<close> and databases of
  type \<open>'d\<close>. \<open>h_unmarshal\<close> decodes YAML over a configuration and returns what it has decoded also with
  an error.
\<close>

record ('f, 'c, 'd) host =
  h_readFile :: "string \<Rightarrow> 'f \<Rightarrow> bytes res"
  h_isNotExist :: "go_error \<Rightarrow> bool"
  h_stat :: "string \<Rightarrow> 'f \<Rightarrow> bool"
  h_mkdirAll :: "string \<Rightarrow> 'f \<Rightarrow> 'f"
  h_writeFile :: "string \<Rightarrow> bytes \<Rightarrow> 'f \<Rightarrow> go_error option \<times> 'f"
  h_unmarshal :: "bytes \<Rightarrow> Config \<Rightarrow> go_error option \<times> Config"
  h_users :: "bytes \<Rightarrow> User list res"
  h_keyPair :: "string \<Rightarrow> string \<Rightarrow> 'f \<Rightarrow> 'c res"
  h_appendCerts :: "bytes \<Rightarrow> bool"
  h_readDir :: "path \<Rightarrow> 'f \<Rightarrow> (string \<times> bool) list res"
  h_open :: "'f \<Rightarrow> path \<Rightarrow> 'd res"

definition config_Load :: "('f, 'c, 'd) host \<Rightarrow> string \<Rightarrow> 'f \<Rightarrow> go_error option \<times> Config" where
  "config_Load h path fs =
     (let cfg = config_Default in
      if path = [] then (None, cfg)
      else case h_readFile h path fs of
        Inl err \<Rightarrow> (if h_isNotExist h err then None else Some err, cfg)
      | Inr raw \<Rightarrow> h_unmarshal h raw cfg)"

section \<open>TLS\<close>

record TLSConfig =
  tc_CertFile :: string
  tc_KeyFile :: string
  tc_CAFile :: string

text \<open>The fields that are set of \<^verbatim>\<open>tls.Config\<close>: the certificate, and the client CAs if clients must have certificates.\<close>

record 'c tls_Config =
  tls_cert :: 'c
  tls_clientCAs :: "bytes option"

text \<open>\<open>Inr None\<close> is the result \<^verbatim>\<open>nil, nil\<close>. After a failed \<^verbatim>\<open>AppendCertsFromPEM\<close> the variable \<open>err\<close> is nil.\<close>

definition LoadServerTLS :: "('f, 'c, 'd) host \<Rightarrow> 'f \<Rightarrow> TLSConfig \<Rightarrow> 'c tls_Config option res" where
  "LoadServerTLS h fs cfg =
     (if tc_CertFile cfg = [] \<or> tc_KeyFile cfg = [] then Inr None
      else rbind (h_keyPair h (tc_CertFile cfg) (tc_KeyFile cfg) fs) (\<lambda>cert.
        if tc_CAFile cfg = [] then Inr (Some \<lparr>tls_cert = cert, tls_clientCAs = None\<rparr>)
        else rbind (h_readFile h (tc_CAFile cfg) fs) (\<lambda>caPEM.
          if \<not> h_appendCerts h caPEM then Inr None
          else Inr (Some \<lparr>tls_cert = cert, tls_clientCAs = Some caPEM\<rparr>))))"

section \<open>The sample users file\<close>

definition quoted :: "string \<Rightarrow> string" where
  "quoted s = [CHR 0x22] @ s @ [CHR 0x22]"

definition sample_users_file :: string where
  "sample_users_file = concat (map (\<lambda>l. l @ [CHR 0x0A])
     [''users:'',
      ''  - name: admin'',
      ''    password: admin'',
      ''    admin: true'',
      ''    publish: ['' @ quoted ''#'' @ '']'',
      ''    subscribe: ['' @ quoted ''#'' @ '']'',
      ''  - name: pub'',
      ''    password: pub'',
      ''    publish: ['' @ quoted ''demo/#'' @ '']'',
      ''    subscribe: []'',
      ''  - name: sub'',
      ''    password: sub'',
      ''    publish: []'',
      ''    subscribe: ['' @ quoted ''demo/#'' @ '']''])"

definition WriteDefaultDev :: "('f, 'c, 'd) host \<Rightarrow> string \<Rightarrow> 'f \<Rightarrow> go_error option \<times> 'f" where
  "WriteDefaultDev h dir fs =
     (let path = path_string (filepath_Join (foldl filepath_Join \<lparr>p_abs = False, p_comps = []\<rparr> (split_levels dir)) ''users.yaml'') in
      if h_stat h path fs then (None, fs)
      else h_writeFile h path (bytes_of sample_users_file) (h_mkdirAll h dir fs))"

section \<open>The process\<close>

text \<open>\<^verbatim>\<open>filepath.Join(".", s)\<close>; it drops a leading separator, so the result is always relative.\<close>

definition local_path :: "string \<Rightarrow> path" where
  "local_path s = foldl filepath_Join \<lparr>p_abs = False, p_comps = []\<rparr> (split_levels s)"

record ('c, 'd) Process =
  pr_admin :: "'d Admin"
  pr_addrPlain :: string
  pr_addrTLS :: string
  pr_tls :: "'c tls_Config option"

text \<open>The files after \<open>main\<close> has written the sample users and made the directories, whatever of that fails.\<close>

definition prepare_files :: "('f, 'c, 'd) host \<Rightarrow> Config \<Rightarrow> 'f \<Rightarrow> 'f" where
  "prepare_files h cfg fs =
     (let fs = snd (WriteDefaultDev h ''config'' fs) in
      h_mkdirAll h (path_string (local_path (cfg_MetaDir cfg)))
        (h_mkdirAll h (path_string (local_path (cfg_TopicsDir cfg))) fs))"

text \<open>
  \<open>main\<close> up to \<^verbatim>\<open>ListenAndServe\<close>: the message of a fatal exit, or the servers. \<^verbatim>\<open>log.Fatal\<close> ends the process.
\<close>

definition start_broker :: "'d engine \<Rightarrow> ('f, 'c, 'd) host \<Rightarrow> string \<Rightarrow> gotime \<Rightarrow> 'f \<Rightarrow> (string + ('c, 'd) Process) \<times> 'f" where
  "start_broker E h cfgPath now fs =
     (case config_Load h cfgPath fs of
        (Some err, cfg) \<Rightarrow> (Inl ''load config'', fs)
      | (None, cfg) \<Rightarrow>
        let fs = prepare_files h cfg fs;
            topicsDir = local_path (cfg_TopicsDir cfg);
            metaDir = local_path (cfg_MetaDir cfg) in
        (case OpenBadger (h_open h fs metaDir) of
           Inl err \<Rightarrow> (Inl ''open meta db'', fs)
         | Inr metaDB \<Rightarrow>
           let hub = NewHub (Some metaDB) (cfg_DedupCapacity cfg) (cfg_DedupTTL cfg) in
           (case registry_Load E (h_isNotExist h) (h_readDir h topicsDir fs) (h_open h fs) (NewRegistry topicsDir) of
              (Some err, registry) \<Rightarrow> (Inl ''load topics'', fs)
            | (None, registry) \<Rightarrow>
              let authStore = (case Load (h_readFile h (cfg_UsersFile cfg) fs) (h_users h) of Inl err \<Rightarrow> None | Inr st \<Rightarrow> Some st) in
              (case LoadServerTLS h fs \<lparr>tc_CertFile = cfg_TLSCert cfg, tc_KeyFile = cfg_TLSKey cfg, tc_CAFile = cfg_TLSCA cfg\<rparr> of
                 Inl err \<Rightarrow> (Inl ''tls config'', fs)
               | Inr tlsCfg \<Rightarrow>
                 let mqttSrv = NewServer registry (Some hub) authStore (cfg_AuthRequired cfg \<and> authStore \<noteq> None);
                     adminSrv = admin_New mqttSrv (Some (path_string metaDir, cfg_DedupTTL cfg)) (cfg_AdminUser cfg) (cfg_AdminPassword cfg) now in
                 (Inr \<lparr>pr_admin = adminSrv, pr_addrPlain = cfg_MQTTAddr cfg, pr_addrTLS = cfg_MQTTTLSAddr cfg, pr_tls = tlsCfg\<rparr>, fs)))))"

section \<open>Listeners\<close>

datatype listener = Plain | TLS

definition listeners :: "('c, 'd) Process \<Rightarrow> listener list" where
  "listeners p =
     (if pr_addrPlain p \<noteq> [] then [Plain] else []) @ (if pr_addrTLS p \<noteq> [] \<and> pr_tls p \<noteq> None then [TLS] else [])"

text \<open>
  The accept loop of one listener on the results of \<^verbatim>\<open>Accept\<close>: the connections it gives to a goroutine each
  (\<open>serve_conn\<close>) and what it returns, \<open>None\<close> while it waits. \<open>cancelled\<close> tells whether the context is done at an
  error.
\<close>

fun serveListener :: "bool \<Rightarrow> 'n res list \<Rightarrow> 'n list \<times> go_error option option" where
  "serveListener cancelled [] = ([], None)"
| "serveListener cancelled (Inr c # rs) = (case serveListener cancelled rs of (cs, r) \<Rightarrow> (c # cs, r))"
| "serveListener cancelled (Inl err # rs) = ([], Some (if cancelled then None else Some (Wrap ''accept'' err)))"

text \<open>What \<open>ListenAndServe\<close> waits for, and what it returns then.\<close>

datatype 'n listen_event =
    CtxDone
  | ListenFailed listener go_error
  | AcceptsEnd listener bool "'n res list"

definition ListenAndServe :: "('c, 'd) Process \<Rightarrow> 'n listen_event \<Rightarrow> go_error option option" where
  "ListenAndServe p ev =
     (case ev of
        CtxDone \<Rightarrow> Some None
      | ListenFailed l err \<Rightarrow>
          if l \<notin> set (listeners p) then None
          else Some (Some (Wrap (case l of Plain \<Rightarrow> ''listen plain'' | TLS \<Rightarrow> ''listen tls'') err))
      | AcceptsEnd l cancelled rs \<Rightarrow> if l \<notin> set (listeners p) then None else snd (serveListener cancelled rs))"

section \<open>The end of the process\<close>

text \<open>
  Closing the databases; \<open>close\<close> is what the engine's own \<^verbatim>\<open>Close\<close> reports for a database. The second result lists the
  databases closed. \<open>order\<close> is the order in which Go visits the topics.
\<close>

definition badger_Close :: "('d \<Rightarrow> go_error option) \<Rightarrow> 'd \<Rightarrow> go_error option" where
  "badger_Close close db = map_option (Wrap ''close badger storage'') (close db)"

definition topic_Close :: "('d \<Rightarrow> go_error option) \<Rightarrow> 'd Topic \<Rightarrow> go_error option" where
  "topic_Close close t = badger_Close close (t_db t)"

fun close_topics :: "('d \<Rightarrow> go_error option) \<Rightarrow> 'd Topic list \<Rightarrow> go_error option \<Rightarrow> go_error option \<times> 'd list" where
  "close_topics close [] firstErr = (firstErr, [])"
| "close_topics close (t # ts) firstErr =
     (let firstErr = (case topic_Close close t of
                        None \<Rightarrow> firstErr
                      | Some err \<Rightarrow> if firstErr = None then Some err else firstErr) in
      case close_topics close ts firstErr of (r, dbs) \<Rightarrow> (r, t_db t # dbs))"

definition registry_Close :: "('d \<Rightarrow> go_error option) \<Rightarrow> string list \<Rightarrow> 'd Registry \<Rightarrow> go_error option \<times> 'd list" where
  "registry_Close close order r = close_topics close (List.map_filter (reg_topics r) order) None"

definition hub_Close :: "('d \<Rightarrow> go_error option) \<Rightarrow> 'd dedupStore \<Rightarrow> go_error option \<times> 'd list" where
  "hub_Close close hub = (case ds_db hub of None \<Rightarrow> (None, []) | Some db \<Rightarrow> (badger_Close close db, [db]))"

text \<open>
  The rest of \<open>main\<close>. A \<open>ListenAndServe\<close> without an error comes back when the goroutines of all connections have ended
  (\<open>ended\<close>), and the deferred calls close the databases of the server \<open>srv\<close>, as it is by then. With an error
  \<^verbatim>\<open>log.Fatal\<close> ends the process at once. \<open>None\<close> means that the process goes on.
\<close>

datatype exit = Returned | FatalExit string

definition main_end :: "('d \<Rightarrow> go_error option) \<Rightarrow> string list \<Rightarrow> bool \<Rightarrow> ('c, 'd) Process \<Rightarrow> 'n listen_event \<Rightarrow> 'd Server
    \<Rightarrow> (exit \<times> 'd list) option" where
  "main_end close order ended p ev srv =
     (case ListenAndServe p ev of
        None \<Rightarrow> None
      | Some (Some err) \<Rightarrow> Some (FatalExit ''mqtt server'', [])
      | Some None \<Rightarrow>
          if \<not> ended then None
          else Some (Returned, snd (registry_Close close order (srv_registry srv))
                 @ (case srv_dedup srv of None \<Rightarrow> [] | Some hub \<Rightarrow> snd (hub_Close close hub))))"

lemma close_topics_all: "close_topics close ts e =
    (if e \<noteq> None then e else find (\<lambda>x. True) (List.map_filter (topic_Close close) ts), map t_db ts)"
  by (induction ts arbitrary: e) (auto simp: map_filter_simps Let_def split: option.split)

text \<open>
  A signal closes every topic's database once and the meta database, whichever of them report an error, as soon as no
  connection is left; a connection that stays keeps the process alive, and an error of a listener ends it with all databases open.
\<close>

lemma main_end_closes:
  assumes "srv_dedup srv = Some hub" "ds_db hub = Some metaDB" "ListenAndServe p ev = Some r"
  shows "main_end close order ended p ev srv =
    (case r of
       Some err \<Rightarrow> Some (FatalExit ''mqtt server'', [])
     | None \<Rightarrow> if ended then Some (Returned, map t_db (List.map_filter (reg_topics (srv_registry srv)) order) @ [metaDB]) else None)"
  using assms by (simp add: main_end_def registry_Close_def close_topics_all hub_Close_def split: option.split)

section \<open>What a start gives\<close>

abbreviation tls_files :: "Config \<Rightarrow> TLSConfig" where
  "tls_files cfg \<equiv> \<lparr>tc_CertFile = cfg_TLSCert cfg, tc_KeyFile = cfg_TLSKey cfg, tc_CAFile = cfg_TLSCA cfg\<rparr>"

lemma start_brokerE:
  assumes "start_broker E h path now fs = (Inr p, fs')" "config_Load h path fs = (None, cfg)"
  obtains reg hub authStore where "fs' = prepare_files h cfg fs"
    and "ad_srv (pr_admin p) = NewServer reg (Some hub) authStore (cfg_AuthRequired cfg \<and> authStore \<noteq> None)"
    and "authStore = (case Load (h_readFile h (cfg_UsersFile cfg) fs') (h_users h) of Inl err \<Rightarrow> None | Inr st \<Rightarrow> Some st)"
    and "LoadServerTLS h fs' (tls_files cfg) = Inr (pr_tls p)"
    and "pr_addrPlain p = cfg_MQTTAddr cfg" "pr_addrTLS p = cfg_MQTTTLSAddr cfg"
  using assms
  by (auto simp: start_broker_def admin_New_def Let_def split: prod.splits option.splits sum.splits)

lemma start_broker_ok:
  assumes "config_Load h path fs = (None, cfg)" "fs' = prepare_files h cfg fs"
    and "h_open h fs' (local_path (cfg_MetaDir cfg)) = Inr metaDB"
    and "registry_Load E (h_isNotExist h) (h_readDir h (local_path (cfg_TopicsDir cfg)) fs') (h_open h fs')
           (NewRegistry (local_path (cfg_TopicsDir cfg))) = (None, reg)"
    and "LoadServerTLS h fs' (tls_files cfg) = Inr tlsCfg"
  obtains p where "start_broker E h path now fs = (Inr p, fs')" "srv_registry (ad_srv (pr_admin p)) = reg"
  using assms
  by (auto simp: start_broker_def OpenBadger_def wrap_res_def admin_New_def NewServer_def Let_def split: prod.splits)

text \<open>A host whose topics directory holds one topic, with no users file and with a CA file that holds no certificate.\<close>

definition sample_topics_dir :: path where
  "sample_topics_dir = \<lparr>p_abs = False, p_comps = [''storage'', ''topics'']\<rparr>"

definition tls_config :: "Config \<Rightarrow> Config" where
  "tls_config cfg = cfg\<lparr>cfg_TLSCert := ''cert.pem'', cfg_TLSKey := ''key.pem'', cfg_TLSCA := ''ca.pem''\<rparr>"

definition sample_host :: "(unit, unit, mem_db) host" where
  "sample_host =
     \<lparr>h_readFile = (\<lambda>f _. if f \<in> {''ca.pem'', ''broker.yaml''} then Inr [] else Inl (Errorf ''no such file'' [])), h_isNotExist = (\<lambda>_. True),
      h_stat = (\<lambda>_ _. False), h_mkdirAll = (\<lambda>_ fs. fs), h_writeFile = (\<lambda>_ _ fs. (Some (Errorf ''read-only'' []), fs)),
      h_unmarshal = (\<lambda>_ cfg. (None, tls_config cfg)), h_users = (\<lambda>_. Inr []), h_keyPair = (\<lambda>_ _ _. Inr ()),
      h_appendCerts = (\<lambda>_. False), h_readDir = (\<lambda>_ _. Inr [(''t'', True)]),
      h_open = (\<lambda>_ d. if d = filepath_Join sample_topics_dir ''t'' then Inr stored_db else Inr [])\<rparr>"

lemma sample_host_start:
  "config_Load sample_host [] () = (None, config_Default)" "local_path (cfg_TopicsDir config_Default) = sample_topics_dir"
  "local_path (cfg_MetaDir config_Default) \<noteq> filepath_Join sample_topics_dir ''t''"
  "config_Load sample_host ''broker.yaml'' () = (None, tls_config config_Default)"
  by (simp_all add: config_Load_def config_Default_def local_path_def filepath_Join_def sample_topics_dir_def sample_host_def Let_def)

lemma sample_starts:
  assumes "config_Load sample_host path () = (None, cfg)"
  obtains p where "start_broker mem_engine sample_host path now () = (Inr p, ())"
proof -
  have "\<exists>d. h_open sample_host () dir = Inr d" for dir
    by (simp add: sample_host_def)
  moreover have "\<exists>reg. registry_Load mem_engine isn (h_readDir sample_host b ()) o' r = (None, reg)" for isn b o' r
    by (simp add: sample_host_def registry_Load_def)
  moreover have "\<exists>c. LoadServerTLS sample_host () (tls_files cfg) = Inr c"
    using assms by (auto simp: LoadServerTLS_def sample_host_def config_Load_def tls_config_def config_Default_def Let_def split: if_splits)
  ultimately show ?thesis
    using start_broker_ok [OF assms, of "()"] that by (metis (full_types) old.unit.exhaust)
qed

lemma sample_host_open:
  "h_open sample_host fs (filepath_Join sample_topics_dir (sanitizeTopicDir n)) = (if n = ''t'' then Inr stored_db else Inr [])"
proof -
  have "filepath_Join sample_topics_dir e = filepath_Join sample_topics_dir ''t'' \<longleftrightarrow> e = ''t''" for e
    by (auto simp: filepath_Join_def sample_topics_dir_def)
  then show ?thesis by (simp add: sample_host_def sanitize_t)
qed

section \<open>Properties\<close>

text \<open>
  C10 (a start finds the stored logs). Let the configuration load, the meta database open and the
  TLS files be usable, and let the topics directory hold a database for each of a list of topics; every other
  topic's directory opens to a database with some log, an empty one for a new topic. Then the process
  starts, and the server it starts has every one of these logs, so that all statements on servers with
  logs apply to it.
\<close>

theorem start_finds_logs:
  assumes "badger_laws E cont"
    and cfg: "config_Load h path fs = (None, cfg)" "fs' = prepare_files h cfg fs" "base = local_path (cfg_TopicsDir cfg)"
    and metaDB: "h_open h fs' (local_path (cfg_MetaDir cfg)) = Inr metaDB"
    and tls: "LoadServerTLS h fs' (tls_files cfg) = Inr tlsCfg"
    and dirs: "h_readDir h base fs' = Inr (map (\<lambda>n. (sanitizeTopicDir n, True)) ns)" "distinct ns"
    and stored: "\<forall>n \<in> set ns. n \<noteq> [] \<and> db_log (cont (dbs n)) n (L n) \<and> cont (dbs n) nameKey = Some (bytes_of n)
      \<and> h_open h fs' (filepath_Join base (sanitizeTopicDir n)) = Inr (dbs n)"
    and new: "\<forall>n. n \<notin> set ns \<longrightarrow> (\<exists>d. h_open h fs' (filepath_Join base (sanitizeTopicDir n)) = Inr d \<and> db_log (cont d) n (L n))"
  shows "\<exists>p. start_broker E h path now fs = (Inr p, fs') \<and> server_logs cont (h_open h fs') (ad_srv (pr_admin p)) L"
proof -
  define reg where "reg = snd (registry_Load E (h_isNotExist h) (h_readDir h base fs') (h_open h fs') (NewRegistry base))"
  have load: "registry_Load E (h_isNotExist h) (h_readDir h base fs') (h_open h fs') (NewRegistry base) = (None, reg)"
    by (simp add: reg_def registry_Load_def dirs(1))
  have fold: "reg_topics reg = fold (load_entry E (h_open h fs') base) (map (\<lambda>n. (sanitizeTopicDir n, True)) ns) Map.empty"
    and reg_base: "reg_baseDir reg = base"
    by (simp_all add: reg_def registry_Load_def dirs(1) NewRegistry_def)
  have "\<forall>n \<in> set ns. n \<noteq> [] \<and> db_log (cont (dbs n)) n (L n) \<and> cont (dbs n) nameKey = Some (bytes_of n)
      \<and> h_open h fs' (filepath_Join base (sanitizeTopicDir n)) = Inr (dbs n) \<and> Map.empty n = None"
    using stored by simp
  note entries = load_entries_topics [where topics = "Map.empty" and f = sanitizeTopicDir, OF assms(1) dirs(2) this]
  have inv: "topics_inv (reg_topics reg)"
    using registry_inv_Load [of "NewRegistry base"] unfolding reg_def
    by (simp add: registry_inv_def topics_inv_def NewRegistry_def)
  have logs: "log_of cont (h_open h fs') reg n (L n)" for n
  proof (cases "n \<in> set ns")
    case True
    then obtain t where "reg_topics reg n = Some t" "topic_log cont t (L n)" "t_name t = n"
      using entries unfolding fold by blast
    with inv show ?thesis by (simp add: log_of_def topic_inv_def topics_inv_def)
  next
    case False
    then have "reg_topics reg n = None" using entries unfolding fold by simp
    with new False show ?thesis by (simp add: log_of_def TopicDataDir_def reg_base)
  qed
  obtain p where "start_broker E h path now fs = (Inr p, fs')" "srv_registry (ad_srv (pr_admin p)) = reg"
    by (rule start_broker_ok [OF cfg(1,2) metaDB load [unfolded cfg(3)] tls])
  with logs show ?thesis by (auto simp: server_logs_def)
qed

theorem start_finds_logs_witness:
  "\<exists>p. start_broker mem_engine sample_host [] 0 () = (Inr p, ())
     \<and> server_logs map_of (h_open sample_host ()) (ad_srv (pr_admin p)) (\<lambda>n. if n = ''t'' then [message_of ''t'' 1 9 sample_env] else [])"
proof -
  let ?L = "\<lambda>n. if n = ''t'' then [message_of ''t'' 1 9 sample_env] else []"
  have empty: "db_log Map.empty n []" for n
    by (simp add: db_log_def db_msgs_def only_msg_keys_def saved_seq_def)
  have dir: "h_readDir sample_host sample_topics_dir () = Inr (map (\<lambda>n. (sanitizeTopicDir n, True)) [''t''])"
    by (simp add: sample_host_def sanitizeTopicDir_def sanitize_char_def)
  have tls: "LoadServerTLS sample_host () (tls_files config_Default) = Inr None"
    by (simp add: LoadServerTLS_def config_Default_def)
  have mdb: "h_open sample_host () (local_path (cfg_MetaDir config_Default)) = Inr []"
    using sample_host_start(3) by (simp add: sample_host_def)
  have stored: "\<forall>n \<in> set [''t'']. n \<noteq> [] \<and> db_log (map_of stored_db) n (?L n) \<and> map_of stored_db nameKey = Some (bytes_of n)
      \<and> h_open sample_host () (filepath_Join sample_topics_dir (sanitizeTopicDir n)) = Inr stored_db"
    using stored_db_ok by (simp add: sample_host_open)
  have new: "\<forall>n. n \<notin> set [''t''] \<longrightarrow> (\<exists>d. h_open sample_host () (filepath_Join sample_topics_dir (sanitizeTopicDir n)) = Inr d \<and> db_log (map_of d) n (?L n))"
    using empty by (simp add: sample_host_open)
  show ?thesis
    by (rule start_finds_logs [OF badger_laws_mem sample_host_start(1) _ sample_host_start(2) [symmetric] mdb tls dir _ stored new]) simp_all
qed

text \<open>
  No users file, no authentication. If the users file cannot be read or decoded when the process starts, the
  broker it starts accepts every CONNECT with any credentials, also when the configuration requires
  authentication, and the session has no user, so it may publish to every topic.
\<close>

theorem unreadable_users_disable_auth:
  assumes "start_broker E h path now fs = (Inr p, fs')" "config_Load h path fs = (None, cfg)"
    and "Load (h_readFile h (cfg_UsersFile cfg) fs') (h_users h) = Inl err"
    and "conn_up s" "s_user s = None"
  shows "\<exists>s' srv'. handleConnect bcrypt cp s (ad_srv (pr_admin p)) = (None, s', srv')
    \<and> sent s' = sent s @ [WriteConnAck False ConnAccepted] \<and> may_publish s' n
    \<and> srv_registry srv' = srv_registry (ad_srv (pr_admin p))"
proof -
  obtain reg hub authStore where
      "ad_srv (pr_admin p) = NewServer reg (Some hub) authStore (cfg_AuthRequired cfg \<and> authStore \<noteq> None)"
      "authStore = (case Load (h_readFile h (cfg_UsersFile cfg) fs') (h_users h) of Inl err \<Rightarrow> None | Inr st \<Rightarrow> Some st)"
    by (rule start_brokerE [OF assms(1,2)])
  then have srv: "ad_srv (pr_admin p) = NewServer reg (Some hub) None False" using assms(3) by simp
  define s1 where "s1 = s\<lparr>s_clientID := (if cp_ClientID cp = [] then ''auto-'' @ s_remote s else cp_ClientID cp)\<rparr>"
  have up: "conn_up s1" using assms(4) by (simp add: s1_def conn_up_def)
  obtain s' where s': "session_write ''write CONNACK'' (WriteConnAck False ConnAccepted) s1 = (None, s')"
    "sent s' = sent s1 @ [WriteConnAck False ConnAccepted]" "s' = s1\<lparr>s_conn := s_conn s'\<rparr>"
    by (rule session_write_up [OF up])
  have "s_user s1 = None" "sent s1 = sent s" using assms(5) by (simp_all add: s1_def)
  moreover have "s_user s' = s_user s1" by (subst s'(3)) simp
  ultimately show ?thesis
    using s'(1,2) unfolding handleConnect_def Let_def s1_def [symmetric] srv
    by (simp add: NewServer_def may_publish_def updateSessionIdentity_def)
qed

theorem unreadable_users_disable_auth_witness:
  "cfg_AuthRequired config_Default \<and>
   (\<exists>p s' srv'. start_broker mem_engine sample_host [] 0 () = (Inr p, ())
     \<and> handleConnect (\<lambda>_ _. False) \<lparr>cp_ClientID = ''x'', cp_Username = ''nobody'', cp_Password = ''wrong'', cp_CleanSession = True, cp_KeepAlive = 0\<rparr>
          sample_session (ad_srv (pr_admin p)) = (None, s', srv'))"
proof -
  let ?cp = "\<lparr>cp_ClientID = ''x'', cp_Username = ''nobody'', cp_Password = ''wrong'', cp_CleanSession = True, cp_KeepAlive = 0\<rparr>"
  obtain p where p: "start_broker mem_engine sample_host [] 0 () = (Inr p, ())"
    by (rule sample_starts [OF sample_host_start(1)])
  have "\<exists>err. Load (h_readFile sample_host (cfg_UsersFile config_Default) ()) (h_users sample_host) = Inl err"
    by (simp add: Load_def sample_host_def config_Default_def)
  moreover have "s_user sample_session = None" by (simp add: sample_session_def newSession_def)
  ultimately have "\<exists>s' srv'. handleConnect (\<lambda>_ _. False) ?cp sample_session (ad_srv (pr_admin p)) = (None, s', srv')"
    using unreadable_users_disable_auth [OF p sample_host_start(1), of _ sample_session "\<lambda>_ _. False" ?cp] by (metis sample_session_fields(1))
  with p show ?thesis by (auto simp: config_Default_def)
qed

text \<open>
  A bad CA file switches TLS off. If the file of the client CAs can be read but holds no
  certificate, loading the TLS settings reports no error and no settings: the process starts and listens
  without TLS only.
\<close>

theorem bad_ca_switches_tls_off:
  assumes "start_broker E h path now fs = (Inr p, fs')" "config_Load h path fs = (None, cfg)"
    and "h_keyPair h (cfg_TLSCert cfg) (cfg_TLSKey cfg) fs' = Inr cert" "cfg_TLSCA cfg \<noteq> []"
    and "h_readFile h (cfg_TLSCA cfg) fs' = Inr caPEM" "\<not> h_appendCerts h caPEM"
  shows "pr_tls p = None \<and> listeners p = (if cfg_MQTTAddr cfg = [] then [] else [Plain])"
proof -
  have "LoadServerTLS h fs' (tls_files cfg) = Inr None"
    using assms(3-6) by (simp add: LoadServerTLS_def)
  moreover obtain "LoadServerTLS h fs' (tls_files cfg) = Inr (pr_tls p)" "pr_addrPlain p = cfg_MQTTAddr cfg"
    by (rule start_brokerE [OF assms(1,2)])
  ultimately show ?thesis by (simp add: listeners_def)
qed

theorem bad_ca_switches_tls_off_witness:
  "\<exists>p. start_broker mem_engine sample_host ''broker.yaml'' 0 () = (Inr p, ()) \<and> pr_tls p = None \<and> listeners p = [Plain]"
proof -
  obtain p where p: "start_broker mem_engine sample_host ''broker.yaml'' 0 () = (Inr p, ())"
    by (rule sample_starts [OF sample_host_start(4)])
  have "\<not> h_appendCerts sample_host []" "h_readFile sample_host ''ca.pem'' () = Inr []" "h_keyPair sample_host c k () = Inr ()" for c k
    by (simp_all add: sample_host_def)
  then have "pr_tls p = None \<and> listeners p = [Plain]"
    using bad_ca_switches_tls_off [OF p sample_host_start(4), of "()" "[]"] by (simp add: tls_config_def config_Default_def)
  with p show ?thesis by blast
qed

end
