(* ===== verification/Publish_Race.thy ===== *)
theory Publish_Race
  imports Broker
begin

text \<open>
  The publish handler (\<^verbatim>\<open>handlePublish\<close> in \<^verbatim>\<open>core/transport/mqtt/session.go\<close>) as the two steps other sessions can
  come between: it looks its key up in the deduplication store, and later stores the message
  and remembers the key. Each step runs under the locks of what it uses; no lock spans both.
\<close>

section \<open>The two halves of the handler\<close>

datatype lookup = Refused go_error | Duplicate | Fresh

definition publish_look :: "'d engine \<Rightarrow> 'd inputs \<Rightarrow> PublishPacket \<Rightarrow> session \<Rightarrow> 'd Server \<Rightarrow> lookup \<times> 'd Server" where
  "publish_look E inp pp s srv =
     (if (case s_user s of None \<Rightarrow> False | Some u \<Rightarrow> \<not> CanPublish u (pp_TopicName pp))
      then (Refused (Errorf ''publish denied for topic %q'' [FStr (pp_TopicName pp)]), srv)
      else case GetOrCreate E (in_opened inp) (pp_TopicName pp) (srv_registry srv) of
        (Inl err, reg) \<Rightarrow> (Refused (wrapf_error ''get topic %q: %w'' [FStr (pp_TopicName pp)] err), srv\<lparr>srv_registry := reg\<rparr>)
      | (Inr t, reg) \<Rightarrow>
          let srv = srv\<lparr>srv_registry := reg\<rparr>;
              looked = map_option (Check E (in_check inp) (in_load inp) (env_IdempotencyID (publish_env inp pp))) (srv_dedup srv);
              srv = srv\<lparr>srv_dedup := map_option snd looked\<rparr> in
          (if (case looked of Some (Some _, _) \<Rightarrow> True | _ \<Rightarrow> False) then Duplicate else Fresh, srv))"

definition publish_store :: "'d engine \<Rightarrow> 'd inputs \<Rightarrow> PublishPacket \<Rightarrow> 'd Server \<Rightarrow> go_error option \<times> 'd Server" where
  "publish_store E inp pp srv =
     (case topic_at srv (pp_TopicName pp) of
        None \<Rightarrow> (None, srv)
      | Some t \<Rightarrow>
          let env = publish_env inp pp in
          (case Publish E (in_serverV7 inp) env t of
             (Inl err, t') \<Rightarrow>
               (Some (wrapf_error ''publish to topic %q: %w'' [FStr (pp_TopicName pp)] err), put_topic (pp_TopicName pp) t' srv)
           | (Inr result, t') \<Rightarrow>
               let srv = put_topic (pp_TopicName pp) t' srv in
               (None, srv\<lparr>srv_dedup := map_option (Remember E (in_remember inp) (env_IdempotencyID env)
                         (m_ServerMsgID (pr_Msg result)) (m_Seq (pr_Msg result))) (srv_dedup srv)\<rparr>)))"

text \<open>Without another session in between, the halves are the handler.\<close>

definition publish_halves :: "'d engine \<Rightarrow> 'd inputs \<Rightarrow> PublishPacket \<Rightarrow> session \<Rightarrow> 'd Server \<Rightarrow> go_error option \<times> session \<times> 'd Server" where
  "publish_halves E inp pp s srv =
     (case publish_look E inp pp s srv of
        (Refused err, srv) \<Rightarrow> (Some err, s, srv)
      | (Duplicate, srv) \<Rightarrow> (case puback_if pp s of (err, s) \<Rightarrow> (err, s, srv))
      | (Fresh, srv) \<Rightarrow>
          (case publish_store E inp pp srv of
             (Some err, srv) \<Rightarrow> (Some err, s, srv)
           | (None, srv) \<Rightarrow> (case puback_if pp s of (err, s) \<Rightarrow> (err, s, srv))))"

lemma GetOrCreate_found: "GetOrCreate E opened n reg = (Inr t, reg') \<Longrightarrow> reg_topics reg' n = Some t"
  by (auto simp: GetOrCreate_def Let_def split: option.splits prod.splits sum.splits)

lemma handlePublish_halves: "handlePublish E inp pp s srv = publish_halves E inp pp s srv"
proof (cases "GetOrCreate E (in_opened inp) (pp_TopicName pp) (srv_registry srv)")
  case (Pair res reg)
  show ?thesis
  proof (cases res)
    case (Inr t)
    with Pair have "reg_topics reg (pp_TopicName pp) = Some t" by (simp add: GetOrCreate_found)
    with Pair Inr show ?thesis
      by (auto simp: handlePublish_def publish_halves_def publish_look_def publish_store_def Let_def split: prod.split sum.split)
  qed (simp add: handlePublish_def publish_halves_def publish_look_def Pair Let_def)
qed

section \<open>Looking twice\<close>

lemma evict_loop_none:
  "\<forall>i \<in> set ids. \<not> expired now lru i \<Longrightarrow> evict_loop E now ids (lru, db, kept) = (lru, db, kept @ ids)"
  by (induction ids arbitrary: kept) (auto simp: evict_loop_Cons simp del: evict_loop.simps(2))

lemma evict_again:
  assumes "dedup_inv s"
  shows "evictExpiredLocked E now ((evictExpiredLocked E now s)\<lparr>ds_db := db\<rparr>) = (evictExpiredLocked E now s)\<lparr>ds_db := db\<rparr>"
proof -
  let ?s = "evictExpiredLocked E now s"
  have d: "distinct (ds_order s)" using assms by (simp add: dedup_inv_def)
  have "\<forall>i \<in> set (ds_order ?s). \<not> expired now (ds_lru ?s) i"
    using evict_order [OF d] evict_lru [OF d] by (auto simp: expired_def)
  from evict_loop_none [OF this, of E db "[]"] show ?thesis
    by (subst evictExpiredLocked_def) simp
qed

lemma loadFromDB_again:
  assumes "badger_laws E cont" "writes_commit E" "loadFromDB E now d i = (None, d')"
  shows "fst (loadFromDB E now d' i) = None"
proof -
  have k: "dedupDBKey i \<noteq> []" by (simp add: dedupDBKey_def dedupKeyPrefix_def bytes_of_def)
  show ?thesis
    using assms(3) kv.fetch_cont [OF assms(1) k] cont_Delete_commit [OF assms(1,2) k, of d]
    by (auto simp: loadFromDB_def split: sum.splits if_splits)
qed

lemma Check_again:
  assumes "badger_laws E cont" "writes_commit E" "dedup_inv s" "fst (Check E now now i s) = None"
  shows "fst (Check E now now i (snd (Check E now now i s))) = None"
proof -
  let ?s = "evictExpiredLocked E now s"
  have lru: "ds_lru ?s i = None"
    using assms(4) by (auto simp: Check_def Let_def split: option.splits prod.splits)
  show ?thesis
  proof (cases "ds_db ?s")
    case None
    then have "?s = ?s\<lparr>ds_db := None\<rparr>" by simp
    with evict_again [OF assms(3), of E now None] have ev: "evictExpiredLocked E now ?s = ?s" by simp
    have "Check E now now i s = (None, ?s)" using lru None by (simp add: Check_def)
    then show ?thesis using lru None by (simp add: Check_def ev)
  next
    case (Some d)
    with lru assms(4) obtain d' where l: "loadFromDB E now d i = (None, d')"
      by (auto simp: Check_def Let_def split: option.splits prod.splits)
    with lru Some have c: "Check E now now i s = (None, ?s\<lparr>ds_db := Some d'\<rparr>)" by (simp add: Check_def)
    obtain d'' where "loadFromDB E now d' i = (None, d'')"
      using loadFromDB_again [OF assms(1,2) l] by (metis prod.collapse)
    then show ?thesis
      unfolding c snd_conv using lru by (simp add: Check_def evict_again [OF assms(3)])
  qed
qed

section \<open>What the halves do\<close>

lemma publish_look_fresh:
  assumes "badger_laws E cont" "writes_commit E" "server_logs cont opened srv L" "pb_ok opened p" "srv_dedup srv = Some dd"
    and "fst (Check E (in_check (pb_in p)) (in_check (pb_in p)) (env_IdempotencyID (publish_env (pb_in p) (pb_pkt p))) dd) = None"
  obtains srv' where "publish_look E (pb_in p) (pb_pkt p) (pb_sess p) srv = (Fresh, srv')"
    and "srv_dedup srv' = Some (snd (Check E (in_check (pb_in p)) (in_check (pb_in p)) (env_IdempotencyID (publish_env (pb_in p) (pb_pkt p))) dd))"
    and "server_logs cont opened srv' L" "topic_at srv' (pp_TopicName (pb_pkt p)) \<noteq> None"
    and "\<And>n. topic_at srv n \<noteq> None \<Longrightarrow> topic_at srv' n \<noteq> None"
proof -
  let ?n = "pp_TopicName (pb_pkt p)"
  obtain t reg where g: "GetOrCreate E opened ?n (srv_registry srv) = (Inr t, reg)" "topic_inv cont ?n (L ?n) t"
    "srv\<lparr>srv_registry := reg\<rparr> = put_topic ?n t srv"
    using GetOrCreate_logs [OF assms(1-3)] by blast
  obtain dd' where c: "Check E (in_check (pb_in p)) (in_check (pb_in p)) (env_IdempotencyID (publish_env (pb_in p) (pb_pkt p))) dd = (None, dd')"
    using assms(6) by (metis prod.collapse)
  have "publish_look E (pb_in p) (pb_pkt p) (pb_sess p) srv = (Fresh, (put_topic ?n t srv)\<lparr>srv_dedup := Some dd'\<rparr>)"
    using assms(4,5) g(1,3) c
    by (auto simp: publish_look_def pb_ok_def may_publish_def instant_def Let_def split: option.splits)
  moreover have "server_logs cont opened (put_topic ?n t srv) L"
    using server_logs_put [OF assms(3) g(2)] by simp
  ultimately show ?thesis
    using that c by (simp add: put_topic_def)
qed

lemma publish_store_logs:
  assumes "badger_laws E cont" "writes_commit E" "server_logs cont opened srv L" "pb_ok opened p"
    and "n = pp_TopicName (pb_pkt p)" "topic_at srv n \<noteq> None" "Suc (length (L n)) < 2 ^ 64"
  obtains srv' where "publish_store E (pb_in p) (pb_pkt p) srv = (None, srv')"
    and "server_logs cont opened srv' (L(n := L n @ [new_message (pb_in p) (pb_pkt p) (L n)]))"
    and "topic_at srv' n \<noteq> None"
proof -
  let ?env = "publish_env (pb_in p) (pb_pkt p)"
  obtain t where t: "topic_at srv n = Some t" using assms(6) by blast
  then have inv: "topic_inv cont n (L n) t"
    using server_logs_at [OF assms(3), of n] by (simp add: log_of_def)
  have env: "wf_env ?env" using assms(4) by (simp add: pb_ok_def)
  obtain res t' where p: "Publish E (in_serverV7 (pb_in p)) ?env t = (Inr res, t')"
    using topic_log_Publish [OF assms(1,2), of t "L n" ?env "in_serverV7 (pb_in p)"] inv env assms(7) by (auto simp: topic_inv_def)
  have "topic_inv cont n (L n @ [new_message (pb_in p) (pb_pkt p) (L n)]) t'"
    using topic_inv_step [OF assms(1,2) inv, of "TPublish (in_serverV7 (pb_in p)) ?env"] env assms(7) p
    by (simp add: new_message_def assms(5))
  note put = server_logs_put [OF assms(3) this]
  have st: "publish_store E (pb_in p) (pb_pkt p) srv = (None, (put_topic n t' srv)\<lparr>srv_dedup :=
      srv_dedup (snd (publish_store E (pb_in p) (pb_pkt p) srv))\<rparr>)"
    using t p assms(5) by (simp add: publish_store_def Let_def)
  show ?thesis
    by (rule that [OF st]) (use put in \<open>simp_all add: put_topic_def\<close>)
qed

section \<open>Properties\<close>

text \<open>
  C11 (two concurrent publishes with one key). The look-up and the storing of a publish are separate steps.
  Alone they are the handler. But if two sessions publish messages with the same new key to one topic and both look
  the key up before either stores, both messages are stored, one after the other: the key is remembered too
  late to keep the topic free of duplicates.
\<close>

theorem concurrent_duplicates_both_stored:
  assumes laws: "badger_laws E cont" "writes_commit E"
    and start: "server_logs cont opened srv L" "srv_dedup srv = Some dd" "dedup_inv dd"
    and pubs: "pb_ok opened p" "pb_ok opened q" "pp_TopicName (pb_pkt p) = n" "pp_TopicName (pb_pkt q) = n"
    and same: "env_IdempotencyID (publish_env (pb_in q) (pb_pkt q)) = env_IdempotencyID (publish_env (pb_in p) (pb_pkt p))"
      "in_check (pb_in q) = in_check (pb_in p)"
    and new: "fst (Check E (in_check (pb_in p)) (in_check (pb_in p)) (env_IdempotencyID (publish_env (pb_in p) (pb_pkt p))) dd) = None"
    and room: "length (L n) + 2 < 2 ^ 64"
    and steps: "(look1, srv1) = publish_look E (pb_in p) (pb_pkt p) (pb_sess p) srv"
      "(look2, srv2) = publish_look E (pb_in q) (pb_pkt q) (pb_sess q) srv1"
      "(err1, srv3) = publish_store E (pb_in p) (pb_pkt p) srv2"
      "(err2, srv4) = publish_store E (pb_in q) (pb_pkt q) srv3"
  shows "handlePublish E (pb_in p) (pb_pkt p) (pb_sess p) srv = publish_halves E (pb_in p) (pb_pkt p) (pb_sess p) srv
    \<and> look1 = Fresh \<and> look2 = Fresh \<and> err1 = None \<and> err2 = None
    \<and> (\<exists>m1 m2. server_logs cont opened srv4 (L(n := L n @ [m1, m2])) \<and> m_IdempotencyID m1 = m_IdempotencyID m2)"
proof -
  let ?i = "env_IdempotencyID (publish_env (pb_in p) (pb_pkt p))" and ?now = "in_check (pb_in p)"
  let ?m1 = "new_message (pb_in p) (pb_pkt p) (L n)" and ?m2 = "new_message (pb_in q) (pb_pkt q) (L n @ [new_message (pb_in p) (pb_pkt p) (L n)])"
  obtain s1 where s1: "publish_look E (pb_in p) (pb_pkt p) (pb_sess p) srv = (Fresh, s1)"
    "srv_dedup s1 = Some (snd (Check E ?now ?now ?i dd))" "server_logs cont opened s1 L" "topic_at s1 (pp_TopicName (pb_pkt p)) \<noteq> None"
    by (rule publish_look_fresh [OF laws start(1) pubs(1) start(2) new])
  have "fst (Check E (in_check (pb_in q)) (in_check (pb_in q)) (env_IdempotencyID (publish_env (pb_in q) (pb_pkt q))) (snd (Check E ?now ?now ?i dd))) = None"
    unfolding same by (rule Check_again [OF laws start(3) new])
  then obtain s2 where s2: "publish_look E (pb_in q) (pb_pkt q) (pb_sess q) s1 = (Fresh, s2)"
    "server_logs cont opened s2 L" "topic_at s2 (pp_TopicName (pb_pkt q)) \<noteq> None"
    by (rule publish_look_fresh [OF laws s1(3) pubs(2) s1(2)])
  have "topic_at s2 n \<noteq> None" "Suc (length (L n)) < 2 ^ 64" using s2(3) pubs(4) room by simp_all
  then obtain s3 where s3: "publish_store E (pb_in p) (pb_pkt p) s2 = (None, s3)"
    "server_logs cont opened s3 (L(n := L n @ [?m1]))" "topic_at s3 n \<noteq> None"
    by (rule publish_store_logs [OF laws s2(2) pubs(1) pubs(3) [symmetric]])
  have "Suc (length ((L(n := L n @ [?m1])) n)) < 2 ^ 64" using room by simp
  with s3(3) obtain s4 where s4: "publish_store E (pb_in q) (pb_pkt q) s3 = (None, s4)"
    "server_logs cont opened s4 ((L(n := L n @ [?m1]))(n := (L(n := L n @ [?m1])) n @ [new_message (pb_in q) (pb_pkt q) ((L(n := L n @ [?m1])) n)]))"
    by (rule publish_store_logs [OF laws s3(2) pubs(2) pubs(4) [symmetric]])
  have "server_logs cont opened s4 (L(n := L n @ [?m1, ?m2]))" using s4(2) by simp
  moreover have "m_IdempotencyID ?m1 = m_IdempotencyID ?m2"
    using same(1) by (simp add: new_message_def message_of_def Let_def)
  ultimately show ?thesis
    using steps s1(1) s2(1) s3(1) s4(1) handlePublish_halves [of E "pb_in p" "pb_pkt p" "pb_sess p" srv] by auto
qed

theorem concurrent_duplicates_both_stored_witness:
  "\<exists>srv4 m1 m2. server_logs map_of (\<lambda>_. Inr []) srv4 ((\<lambda>_. [])(''t'' := [sample_msg, m1, m2])) \<and> m_IdempotencyID m1 = m_IdempotencyID m2"
proof -
  let ?p = sample_publication and ?dd = "dedup_New None 0 0 :: mem_db dedupStore"
  have dd: "srv_dedup sample_server = Some ?dd" by (simp add: sample_server_def NewServer_def)
  have new: "fst (Check mem_engine now now i ?dd) = None" for now i
    by (simp add: Check_def evictExpiredLocked_def dedup_New_def)
  have n: "pp_TopicName (pb_pkt ?p) = ''t''" by (simp add: sample_publication_def)
  have inv: "dedup_inv ?dd" by (rule dedup_inv_New)
  obtain l1 s1 where 1: "(l1, s1) = publish_look mem_engine (pb_in ?p) (pb_pkt ?p) (pb_sess ?p) sample_server" by (metis prod.collapse)
  obtain l2 s2 where 2: "(l2, s2) = publish_look mem_engine (pb_in ?p) (pb_pkt ?p) (pb_sess ?p) s1" by (metis prod.collapse)
  obtain e1 s3 where 3: "(e1, s3) = publish_store mem_engine (pb_in ?p) (pb_pkt ?p) s2" by (metis prod.collapse)
  obtain e2 s4 where 4: "(e2, s4) = publish_store mem_engine (pb_in ?p) (pb_pkt ?p) s3" by (metis prod.collapse)
  from concurrent_duplicates_both_stored [OF badger_laws_mem writes_commit_mem sample_server_logs dd inv
      sample_publication_ok(1) sample_publication_ok(1) n n refl refl new _ 1 2 3 4]
  show ?thesis by auto
qed

end
