(* ===== verification/Connection.thy ===== *)
theory Connection
  imports Listener
begin

text \<open>
  What one connection leaves behind on the server. Every handler of a session keeps a frame: the session
  table but for the own entry, and the subscribers of every topic but for the channel the session
  itself holds there. The end of the connection gives both back.
\<close>

section \<open>The frame\<close>

definition subs_of :: "'d Server \<Rightarrow> string \<Rightarrow> nat set" where
  "subs_of srv n = (case topic_at srv n of None \<Rightarrow> {} | Some t \<Rightarrow> set (t_subs t))"

definition frame :: "nat \<Rightarrow> (string \<Rightarrow> nat set) \<Rightarrow> (nat \<rightharpoonup> SessionInfo) \<Rightarrow> session \<Rightarrow> 'd Server \<Rightarrow> bool" where
  "frame a S T s srv \<longleftrightarrow> s_addr s = a \<and> (srv_sessions srv)(a := None) = T
     \<and> (\<forall>n. subs_of srv n = S n \<union> set_option (s_subs s n) \<and> S n \<inter> set_option (s_subs s n) = {})"

lemma frame_cong:
  assumes "frame a S T s srv" "s_addr s' = s_addr s" "s_subs s' = s_subs s"
    and "(srv_sessions srv')(a := None) = (srv_sessions srv)(a := None)" "subs_of srv' = subs_of srv"
  shows "frame a S T s' srv'"
  using assms by (simp add: frame_def)

lemma subs_of_simps [simp]:
  "subs_of (put_topic n t srv) = (subs_of srv)(n := set (t_subs t))"
  "subs_of (srv\<lparr>srv_dedup := d\<rparr>) = subs_of srv"
  "subs_of (updateSessionTopics b ts srv) = subs_of srv"
  "subs_of (updateSessionIdentity b c u srv) = subs_of srv"
  "subs_of (registerSession b i srv) = subs_of srv"
  "subs_of (unregisterSession b srv) = subs_of srv"
  by (auto simp: subs_of_def put_topic_def updateSessionTopics_def updateSessionIdentity_def registerSession_def
      unregisterSession_def fun_eq_iff split: option.splits)

lemma sessions_simps [simp]:
  "srv_sessions (put_topic n t srv) = srv_sessions srv"
  "(srv_sessions (updateSessionTopics a ts srv))(a := None) = (srv_sessions srv)(a := None)"
  "(srv_sessions (updateSessionIdentity a c u srv))(a := None) = (srv_sessions srv)(a := None)"
  by (auto simp: put_topic_def updateSessionTopics_def updateSessionIdentity_def split: option.splits)

lemma t_subs_ops [simp]:
  "t_subs (snd (Publish E v env t)) = t_subs t" "t_subs (topic_setOffset E g v' t) = t_subs t"
  by (simp_all add: Publish_def topic_setOffset_def Let_def split: prod.splits option.splits sum.splits)

lemma subs_of_topic: "topic_at srv n = Some t \<Longrightarrow> subs_of srv n = set (t_subs t)"
  by (simp add: subs_of_def)

lemma subs_of_GetOrCreate:
  assumes "GetOrCreate E opened n (srv_registry srv) = (res, reg)"
  shows "subs_of (srv\<lparr>srv_registry := reg\<rparr>) = subs_of srv"
    and "res = Inr t \<Longrightarrow> topic_at (srv\<lparr>srv_registry := reg\<rparr>) n = Some t"
proof -
  have new: "t_subs t = []" if "topic_New E n o' = (Inr t, x)" for o' t x
    using that by (auto simp: topic_New_def newFromDB_def loadSeq_def Let_def split: sum.splits prod.splits option.splits if_splits)
  show "subs_of (srv\<lparr>srv_registry := reg\<rparr>) = subs_of srv"
    using assms by (auto simp: GetOrCreate_def subs_of_def fun_eq_iff Let_def new split: option.splits prod.splits sum.splits if_splits)
  show "res = Inr t \<Longrightarrow> topic_at (srv\<lparr>srv_registry := reg\<rparr>) n = Some t"
    using assms by (auto simp: GetOrCreate_def Let_def split: option.splits prod.splits sum.splits)
qed

lemma session_write_keeps [simp]:
  "s_addr (snd (session_write m f s)) = s_addr s" "s_subs (snd (session_write m f s)) = s_subs s"
  by (simp_all add: session_write_def split: prod.splits)

lemma session_write_keeps' :
  "session_write m f s = (err, s') \<Longrightarrow> s_addr s' = s_addr s \<and> s_subs s' = s_subs s"
  by (auto simp: session_write_def split: prod.splits)

section \<open>The handlers keep the frame\<close>

lemma frame_handlePublish:
  assumes "frame a S T s srv" "handlePublish E inp pp s srv = (err, s', srv')"
  shows "frame a S T s' srv'"
proof -
  obtain res reg where g: "GetOrCreate E (in_opened inp) (pp_TopicName pp) (srv_registry srv) = (res, reg)" by fastforce
  have pub: "s_addr (snd (puback_if pp s)) = s_addr s" "s_subs (snd (puback_if pp s)) = s_subs s"
    by (simp_all add: puback_if_def)
  have "set (t_subs t) = subs_of (srv\<lparr>srv_registry := reg\<rparr>) (pp_TopicName pp)" if "res = Inr t" for t
    using subs_of_GetOrCreate(2) [OF g that] by (simp add: subs_of_topic)
  then have topic: "set (t_subs t') = subs_of srv (pp_TopicName pp)" if "res = Inr t" "Publish E v env t = (r, t')" for t t' v env r
    using that subs_of_GetOrCreate(1) [OF g] t_subs_ops(1) [of E v env t] by simp
  show ?thesis
    using assms(2) g subs_of_GetOrCreate(1) [OF g] pub topic
    by (intro frame_cong [OF assms(1)])
      (auto simp: handlePublish_def Let_def fun_upd_idem split: if_splits option.splits prod.splits sum.splits)
qed

lemma subs_of_same: "topic_at srv n = Some t \<Longrightarrow> (subs_of srv)(n := set (t_subs t)) = subs_of srv"
  by (auto simp: subs_of_topic fun_eq_iff)

lemma allocPacketID_keeps: "allocPacketID s = Some (pid, s') \<Longrightarrow> s_addr s' = s_addr s \<and> s_subs s' = s_subs s"
  by (auto simp: allocPacketID_def split: option.splits prod.splits)

lemma frame_deliverMessage:
  "frame a S T s srv \<Longrightarrow> deliverMessage E inp n m qos s srv = Some (err, s', srv') \<Longrightarrow> frame a S T s' srv'"
  by (erule frame_cong)
    (auto simp: deliverMessage_def Let_def subs_of_same dest!: allocPacketID_keeps session_write_keeps'
      split: if_splits option.splits prod.splits)

lemma frame_deliver_all:
  "frame a S T s srv \<Longrightarrow> deliver_all E inp n qos ms s srv = Some (err, s', srv') \<Longrightarrow> frame a S T s' srv'"
  by (induction ms arbitrary: s srv) (auto dest: frame_deliverMessage split: option.splits prod.splits)

lemma frame_deliver_pendings:
  "frame a S T s srv \<Longrightarrow> deliver_pendings E inp ps s srv = Some (err, s', srv') \<Longrightarrow> frame a S T s' srv'"
  by (induction ps arbitrary: s srv) (auto dest: frame_deliver_all split: option.splits prod.splits)

lemma frame_handlePubAck:
  "frame a S T s srv \<Longrightarrow> handlePubAck E pa s srv = (err, s', srv') \<Longrightarrow> frame a S T s' srv'"
  by (erule frame_cong) (auto simp: handlePubAck_def subs_of_same split: option.splits)

text \<open>Ending a subscription: the channel leaves the subscribers of its topic.\<close>

lemma set_unsub: "subs_inv t \<Longrightarrow> set (t_subs (unsub b t)) = set (t_subs t) - {b}"
  by (auto simp: unsub_def subs_inv_def set_remove1_eq)

lemma subs_of_unsub_topic:
  "server_inv srv \<Longrightarrow> subs_of (unsub_topic n b srv) = (subs_of srv)(n := subs_of srv n - {b})"
  by (auto simp: unsub_topic_def subs_of_topic set_unsub fun_eq_iff dest: server_inv_topic split: option.splits)
    (simp_all add: subs_of_def)

lemma sessions_unsub_topic [simp]: "srv_sessions (unsub_topic n b srv) = srv_sessions srv"
  by (simp add: unsub_topic_def split: option.splits)

lemma frame_unsub:
  assumes "frame a S T s srv" "server_inv srv" "s_subs s n = Some b"
  shows "frame a S T (s\<lparr>s_subs := (s_subs s)(n := None), s_subQoS := q\<rparr>) (unsub_topic n b srv)"
  using assms unfolding frame_def by (auto simp: subs_of_unsub_topic)

lemma frame_unsubscribe_loop:
  "frame a S T s srv \<Longrightarrow> server_inv srv \<Longrightarrow> unsubscribe_loop ns s srv = (s', srv') \<Longrightarrow> frame a S T s' srv'"
  by (induction ns s srv rule: unsubscribe_loop.induct)
    (auto simp: frame_unsub server_inv_unsub_topic split: option.splits)

lemma frame_sync: "frame a S T s srv \<Longrightarrow> frame a S T s (syncSessionTopics s srv)"
  by (rule frame_cong) (auto simp: syncSessionTopics_def frame_def)

lemma frame_write: "frame a S T s srv \<Longrightarrow> session_write m f s = (err, s') \<Longrightarrow> frame a S T s' srv"
  by (erule frame_cong) (auto dest: session_write_keeps')

lemma frame_handleUnsubscribe:
  assumes "frame a S T s srv" "server_inv srv" "handleUnsubscribe up s srv = (err, s', srv')"
  shows "frame a S T s' srv'"
proof -
  obtain s1 srv1 where u: "unsubscribe_loop (up_Topics up) s srv = (s1, srv1)" by fastforce
  then have "frame a S T s1 (syncSessionTopics s1 srv1)"
    using frame_unsubscribe_loop [OF assms(1,2)] frame_sync by blast
  with u assms(3) show ?thesis
    by (auto simp: handleUnsubscribe_def Let_def dest: frame_write split: prod.splits)
qed

text \<open>Subscribing: a fresh channel takes the place of the session's old one.\<close>

lemma fst_Subscribe: "fst (Subscribe t) = t_next t"
  by (simp add: Subscribe_def)

lemma frame_subscribe_topic:
  assumes "frame a S T s srv" "server_inv srv" "topic_at srv (tf_Filter tf) = Some t"
    and "subscribe_topic E tf t s srv = (p, s', srv')"
  shows "frame a S T s' srv'"
proof -
  let ?n = "tf_Filter tf" and ?srv = "put_topic (tf_Filter tf) (snd (Subscribe t)) srv"
  have inv: "subs_inv t" "t_name t = ?n" using server_inv_topic [OF assms(2,3)] by auto
  have fresh: "t_next t \<notin> set (t_subs t)" using inv(1) by (fastforce simp: subs_inv_def)
  have inv': "server_inv ?srv"
    using assms(2) inv by (intro server_inv_put) (simp_all add: subs_inv_Subscribe)
  have subs: "subs_of ?srv = (subs_of srv)(?n := insert (t_next t) (subs_of srv ?n))"
    using subs_of_topic [OF assms(3)] by (simp add: Subscribe_def)
  have new: "subs_of srv ?n = set (t_subs t)" by (rule subs_of_topic [OF assms(3)])
  have s': "s_addr s' = s_addr s" "s_subs s' = (s_subs s)(?n \<mapsto> t_next t)"
    "srv' = (case s_subs s ?n of Some old \<Rightarrow> unsub_topic ?n old ?srv | None \<Rightarrow> ?srv)"
    using assms(4) by (auto simp: subscribe_topic_def split_beta Let_def fst_Subscribe)
  have F: "s_addr s = a" "(srv_sessions srv)(a := None) = T"
    "\<And>n. subs_of srv n = S n \<union> set_option (s_subs s n)" "\<And>n. S n \<inter> set_option (s_subs s n) = {}"
    using assms(1) by (auto simp: frame_def)
  have other: "t_next t \<notin> S ?n" "s_subs s ?n \<noteq> Some (t_next t)"
    using F(3) [of ?n] new fresh by auto
  have old: "S ?n - set_option (s_subs s ?n) = S ?n" using F(4) [of ?n] by blast
  have "subs_of srv' = (subs_of srv)(?n := insert (t_next t) (S ?n))"
  proof (cases "s_subs s ?n")
    case None
    with subs F(3) [of ?n] show ?thesis unfolding s'(3) by simp
  next
    case (Some b)
    have "insert (t_next t) (S ?n \<union> {b}) - {b} = insert (t_next t) (S ?n)"
      using other(2) old Some by auto
    moreover have e: "srv' = unsub_topic ?n b ?srv" using s'(3) Some by simp
    ultimately show ?thesis
      using Some F(3) [of ?n] unfolding e subs_of_unsub_topic [OF inv'] subs by simp
  qed
  moreover have "srv_sessions srv' = srv_sessions srv"
    unfolding s'(3) by (simp split: option.split)
  ultimately show ?thesis
    using F other(1) by (simp add: frame_def s'(1,2))
qed


lemma frame_subscribe_loop:
  "frame a S T s srv \<Longrightarrow> server_inv srv \<Longrightarrow> subscribe_loop E inp tfs codes ps s srv = (r, s', srv') \<Longrightarrow> frame a S T s' srv'"
proof (induction tfs arbitrary: codes ps s srv)
  case (Cons tf tfs)
  obtain res reg where g: "GetOrCreate E (in_opened inp) (tf_Filter tf) (srv_registry srv) = (res, reg)" by fastforce
  let ?srv = "srv\<lparr>srv_registry := reg\<rparr>"
  have fr: "frame a S T s ?srv"
    using frame_cong [OF Cons.prems(1), of s ?srv] subs_of_GetOrCreate(1) [OF g] by simp
  have inv: "server_inv ?srv"
    using registry_inv_GetOrCreate(1) [of "srv_registry srv" E "in_opened inp" "tf_Filter tf"] Cons.prems(2) g
    by (simp add: server_inv_def)
  show ?case
  proof (cases "case s_user s of None \<Rightarrow> False | Some u \<Rightarrow> \<not> CanSubscribe u (tf_Filter tf)")
    case True
    then show ?thesis using Cons.IH [OF Cons.prems(1,2)] Cons.prems(3) by simp
  next
    case False
    show ?thesis
    proof (cases res)
      case (Inl e)
      then show ?thesis using fr False g Cons.prems(3) by simp
    next
      case (Inr t)
      obtain p s1 srv1 where st: "subscribe_topic E tf t s ?srv = (p, s1, srv1)" by (metis prod_cases3)
      have t: "topic_at ?srv (tf_Filter tf) = Some t" by (rule subs_of_GetOrCreate(2) [OF g Inr])
      have "t_name t = tf_Filter tf" "subs_inv t" using server_inv_topic [OF inv t] by auto
      from Cons.IH [OF frame_subscribe_topic [OF fr inv t st] server_inv_subscribe_topic [OF inv this st]]
      show ?thesis using Cons.prems(3) False g Inr st by simp
    qed
  qed
qed simp

lemma frame_handleSubscribe:
  assumes "frame a S T s srv" "server_inv srv" "handleSubscribe E inp sp s srv = Some (err, s', srv')"
  shows "frame a S T s' srv'"
proof -
  obtain r1 s1 srv1 where l: "subscribe_loop E inp (sp_Topics sp) [] [] s srv = (r1, s1, srv1)" by (metis prod_cases3)
  have fr: "frame a S T s1 srv1" by (rule frame_subscribe_loop [OF assms(1,2) l])
  have live: "frame a S T (s2\<lparr>s_live := l\<rparr>) srv2" if "frame a S T s2 srv2" for s2 l and srv2 :: "'a Server"
    by (rule frame_cong [OF that]) simp_all
  show ?thesis
    using assms(3) l fr unfolding handleSubscribe_def
    by (auto intro: live dest: frame_write frame_deliver_pendings [OF frame_sync [OF frame_write [OF fr]]]
        split: sum.splits prod.splits option.splits)
qed

lemma frame_dispatch:
  assumes "frame a S T s srv" "server_inv srv" "dispatch E inp pkt s srv = Some (err, s', srv')"
  shows "frame a S T s' srv'"
  using assms unfolding dispatch_def
  by (auto dest: frame_handlePublish frame_handleSubscribe frame_handleUnsubscribe frame_handlePubAck frame_write
      split: if_splits option.splits prod.splits)

lemma frame_packet_loop:
  "frame a S T s srv \<Longrightarrow> server_inv srv \<Longrightarrow> packet_loop E inps r s srv = Some (err, s', srv') \<Longrightarrow> frame a S T s' srv'"
proof (induction inps arbitrary: r s srv)
  case (Cons inp inps)
  show ?case
  proof (cases "ReadPacket r")
    case (Inr x)
    obtain pkt r' where x: "x = (pkt, r')" by fastforce
    obtain e s1 srv1 where d: "dispatch E inp pkt s srv = Some (e, s1, srv1)"
      using Cons.prems(3) Inr x by (cases "dispatch E inp pkt s srv") auto
    have "frame a S T s1 srv1" by (rule frame_dispatch [OF Cons.prems(1,2) d])
    moreover have "server_inv srv1"
      using well_behaved_dispatch [OF Cons.prems(2) _ d] ReadPacket_complete Inr x by (auto simp: well_behaved_def)
    ultimately show ?thesis
      using Cons.IH [of s1 srv1 r'] Cons.prems(3) Inr x d by (cases e) auto
  qed (use Cons.prems in auto)
qed auto

section \<open>The end of a connection\<close>

lemma cleanup_frame:
  assumes "frame a S T s srv" "server_inv srv" "cleanupSubs s srv = (s', srv')"
  shows "subs_of srv' = S" "(srv_sessions srv')(a := None) = T" "server_inv srv'" "s_subs s' = Map.empty"
proof -
  let ?reg = "srv_registry srv"
  define srv1 where "srv1 = srv\<lparr>srv_registry := ?reg\<lparr>reg_topics := (\<lambda>n. case s_subs s n of
        None \<Rightarrow> reg_topics ?reg n | Some b \<Rightarrow> map_option (unsub b) (reg_topics ?reg n))\<rparr>\<rparr>"
  have e: "srv' = updateSessionTopics (s_addr s) {} srv1" "s_subs s' = Map.empty"
    using assms(3) by (auto simp: cleanupSubs_def srv1_def syncSessionTopics_def Let_def)
  show "s_subs s' = Map.empty" by (rule e(2))
  have sub: "subs_of srv1 n = subs_of srv n - set_option (s_subs s n)" for n
    using server_inv_topic [OF assms(2), of n]
    by (auto simp: srv1_def subs_of_def set_unsub split: option.splits)
  then show "subs_of srv' = S"
    using assms(1) unfolding e(1) frame_def by (auto simp: fun_eq_iff)
  show "(srv_sessions srv')(a := None) = T"
    using assms(1) by (simp add: e(1) frame_def srv1_def)
  have "server_inv srv1"
    using assms(2) unfolding server_inv_def registry_inv_def topics_inv_def srv1_def
    by (auto simp: subs_inv_unsub split: option.splits)
  then show "server_inv srv'" by (simp add: e(1))
qed

lemma frame_handleConnect:
  assumes "frame a S T s srv" "handleConnect bcrypt cp s srv = (err, s', srv')"
  shows "frame a S T s' srv'" "server_inv srv \<Longrightarrow> server_inv srv'"
proof -
  have a: "a = s_addr s" using assms(1) by (simp add: frame_def)
  show "frame a S T s' srv'"
    using assms(2) by (intro frame_cong [OF assms(1)])
      (auto simp: handleConnect_def Let_def a dest!: session_write_keeps' split: if_splits prod.splits bool.splits option.splits)
  show "server_inv srv \<Longrightarrow> server_inv srv'"
    using assms(2) by (auto simp: handleConnect_def Let_def split: if_splits prod.splits bool.splits option.splits)
qed

lemma Handle_end:
  assumes "frame a S T s srv" "server_inv srv" "Handle E bcrypt inps r s srv = Some (s', srv')"
  obtains s1 s2 srv1 where "frame a S T s1 srv1" "server_inv srv1" "cleanupSubs s1 srv1 = (s2, srv')" "s' = session_Close s2"
proof -
  have goal: thesis if "frame a S T s1 srv1" "server_inv srv1"
    "(case cleanupSubs s1 srv1 of (s, srv) \<Rightarrow> Some (session_Close s, srv)) = Some (s', srv')" for s1 srv1
    using that \<open>\<And>s1 srv1 s2. frame a S T s1 srv1 \<Longrightarrow> server_inv srv1 \<Longrightarrow> cleanupSubs s1 srv1 = (s2, srv') \<Longrightarrow> s' = session_Close s2 \<Longrightarrow> thesis\<close>
    by (auto split: prod.splits)
  show thesis
  proof (cases "\<exists>pkt r' cp. ReadPacket r = Inr (pkt, r') \<and> pkt_Type pkt = TypeConnect \<and> pkt_Connect pkt = Some cp")
    case False
    then show ?thesis
      using goal [OF assms(1,2)] assms(3) by (auto simp: Handle_def Let_def split: sum.splits option.splits if_splits)
  next
    case True
    then obtain pkt r' cp where p: "ReadPacket r = Inr (pkt, r')" "pkt_Type pkt = TypeConnect" "pkt_Connect pkt = Some cp" by blast
    obtain err s1 srv1 where c: "handleConnect bcrypt cp s srv = (err, s1, srv1)" by (metis prod_cases3)
    have f1: "frame a S T s1 srv1" "server_inv srv1" using frame_handleConnect [OF assms(1) c] assms(2) by auto
    show ?thesis
    proof (cases err)
      case (Some e)
      then show ?thesis using goal [OF f1] assms(3) p c by (simp add: Handle_def)
    next
      case None
      then obtain e s2 srv2 where l: "packet_loop E inps r' s1 srv1 = Some (e, s2, srv2)"
        using assms(3) p c by (auto simp: Handle_def split: option.splits)
      have "frame a S T s2 srv2" "server_inv srv2"
        using frame_packet_loop [OF f1 l] well_behaved_packet_loop [OF f1(2) l] by auto
      from goal [OF this] show ?thesis using assms(3) p c None l by (simp add: Handle_def)
    qed
  qed
qed

text \<open>
  C12 (a connection leaves no trace). Whatever a client sends on a connection, and however its handlers fail: when the
  goroutine of the connection ends, the server is well-formed, its table of sessions is as before the
  connection without an entry for it, every topic has exactly the subscribers it had before, and the session is
  closed and holds no subscription.
\<close>

theorem connection_leaves_no_trace:
  assumes "server_inv srv" "srv_sessions srv a = None"
    and "serve_conn E bcrypt inps r a c remote now srv = Some (s', srv')"
  shows "server_inv srv' \<and> srv_sessions srv' = srv_sessions srv \<and> subs_of srv' = subs_of srv
    \<and> s_subs s' = Map.empty \<and> cn_closed (s_conn s')"
proof -
  let ?info = "\<lparr>si_ClientID = [], si_RemoteAddr = remote, si_Username = [], si_Connected = now, si_Topics = {}\<rparr>"
  let ?srv = "registerSession a ?info srv" and ?s = "newSession a c remote"
  let ?F = "frame a (subs_of srv) (srv_sessions srv)"
  have fr: "?F ?s ?srv"
    unfolding frame_def subs_of_simps using assms(2) by (simp add: newSession_def registerSession_def fun_upd_idem)
  have inv: "server_inv ?srv" using assms(1) by (simp add: server_inv_def registerSession_def)
  obtain srv2 where h: "Handle E bcrypt inps r ?s ?srv = Some (s', srv2)" "srv' = unregisterSession a srv2"
    using assms(3) by (auto simp: serve_conn_def Let_def split: option.splits)
  obtain s1 s2 srv1 where fin: "?F s1 srv1" "server_inv srv1" "cleanupSubs s1 srv1 = (s2, srv2)" "s' = session_Close s2"
    by (rule Handle_end [OF fr inv h(1)])
  note c = cleanup_frame [OF fin(1-3)]
  have "server_inv srv'" using c(3) by (simp add: h(2) server_inv_def unregisterSession_def)
  moreover have "srv_sessions srv' = srv_sessions srv" using c(2) by (simp add: h(2) unregisterSession_def)
  moreover have "subs_of srv' = subs_of srv" using c(1) by (simp add: h(2))
  ultimately show ?thesis using c(4) by (simp add: fin(4) session_Close_def)
qed

theorem connection_leaves_no_trace_witness:
  "\<exists>s' srv'. serve_conn mem_engine (\<lambda>_ _. False) [] [] 7 up_conn ''peer'' 0 sample_server = Some (s', srv') \<and> subs_of srv' = subs_of sample_server"
proof -
  have "ReadPacket [] = Inl err \<Longrightarrow> \<exists>s' srv'. serve_conn mem_engine (\<lambda>_ _. False) [] [] 7 up_conn ''peer'' 0 sample_server = Some (s', srv')" for err
    by (auto simp: serve_conn_def Handle_def split: prod.splits)
  moreover have "\<exists>err. ReadPacket [] = Inl err" by (simp add: ReadPacket_def io_ReadFull_def)
  ultimately obtain s' srv' where s: "serve_conn mem_engine (\<lambda>_ _. False) [] [] 7 up_conn ''peer'' 0 sample_server = Some (s', srv')" by blast
  have "srv_sessions sample_server 7 = None" by (simp add: sample_server_def NewServer_def)
  from connection_leaves_no_trace [OF sample_server_fields(2) this s] s show ?thesis by blast
qed

end
