(* ===== verification/Broker_System.thy ===== *)
theory Broker_System
  imports Connection Admin
begin

text \<open>
  The broker with all its connections at once. The state holds the server, the sessions of the
  accepted connections by their addresses, and the subscriptions of the administration page's live tails. A step is one
  critical round of one goroutine: a connection is accepted, a packet handled, a message
  delivered, a timer fires, a connection ends, an administration request is served. The rounds
  interleave in any order.
\<close>

section \<open>Model\<close>

text \<open>
  \<open>Greeting\<close> waits for the CONNECT packet, \<open>Serving\<close> is the packet loop of \<open>Handle\<close>, and \<open>Ended\<close> is a connection
  whose goroutine is over; its delivery goroutines may still be about to drain their channels.
\<close>

datatype phase = Greeting | Serving | Ended

record 'd broker =
  bk_admin :: "'d Admin"
  bk_sessions :: "nat \<rightharpoonup> phase \<times> session"
  bk_tails :: "(string \<times> nat) list"
  bk_crashed :: bool

abbreviation bk_srv :: "'d broker \<Rightarrow> 'd Server" where
  "bk_srv b \<equiv> ad_srv (bk_admin b)"

definition set_srv :: "'d Server \<Rightarrow> 'd broker \<Rightarrow> 'd broker" where
  "set_srv srv b = b\<lparr>bk_admin := (bk_admin b)\<lparr>ad_srv := srv\<rparr>\<rparr>"

definition put_session :: "nat \<Rightarrow> phase \<Rightarrow> session \<Rightarrow> 'd Server \<Rightarrow> 'd broker \<Rightarrow> 'd broker" where
  "put_session a ph s srv b = (set_srv srv b)\<lparr>bk_sessions := (bk_sessions b)(a \<mapsto> (ph, s))\<rparr>"

text \<open>What the deferred calls of \<open>Handle\<close> and of the connection's goroutine do.\<close>

definition finish_session :: "nat \<Rightarrow> session \<Rightarrow> 'd Server \<Rightarrow> 'd broker \<Rightarrow> 'd broker" where
  "finish_session a s srv b =
     (case cleanupSubs s srv of (s, srv) \<Rightarrow> put_session a Ended (session_Close s) (unregisterSession a srv) b)"

text \<open>After a handler: the loop goes on, the connection ends with the error, or a panic ends the process.\<close>

definition after_handler :: "nat \<Rightarrow> go_error option \<Rightarrow> session \<Rightarrow> 'd Server \<Rightarrow> 'd broker \<Rightarrow> 'd broker" where
  "after_handler a err s srv b =
     (case err of
        None \<Rightarrow> put_session a Serving s srv b
      | Some (Panic p) \<Rightarrow> b\<lparr>bk_crashed := True\<rparr>
      | Some _ \<Rightarrow> finish_session a s srv b)"

definition all_sessions :: "'d broker \<Rightarrow> nat \<Rightarrow> session" where
  "all_sessions b a = snd (the (bk_sessions b a))"

definition set_sessions :: "(nat \<Rightarrow> session) \<Rightarrow> 'd broker \<Rightarrow> 'd broker" where
  "set_sessions ss b = b\<lparr>bk_sessions := (\<lambda>a. map_option (\<lambda>(ph, _). (ph, ss a)) (bk_sessions b a))\<rparr>"

definition accept_info :: "string \<Rightarrow> gotime \<Rightarrow> SessionInfo" where
  "accept_info remote now =
     \<lparr>si_ClientID = '''', si_RemoteAddr = remote, si_Username = '''', si_Connected = now, si_Topics = {}\<rparr>"

definition tail_of :: "response \<Rightarrow> (string \<times> nat) list" where
  "tail_of resp = (case resp of Tail n ch \<Rightarrow> [(n, ch)] | _ \<Rightarrow> [])"

datatype 'd event =
    Accept nat conn string gotime
  | Connect nat ConnectPacket
  | Receive nat "'d inputs" Packet
  | Leave nat
  | Deliver nat "'d inputs" "string \<times> nat \<times> byte"
  | Tick nat "u16 list" gotime gotime
  | Kick "nat list" string
  | Stop "nat list"
  | Serve "'d admin_inputs" Request
  | TailRound bool string nat

text \<open>
  A read can fail in any round, and the context can be done in any, so that a connection may leave at any
  time. A closed connection can still have packets in its read buffer.
\<close>

inductive broker_step :: "'d engine \<Rightarrow> (bytes \<Rightarrow> bytes \<Rightarrow> bool) \<Rightarrow> 'd broker \<Rightarrow> 'd event \<Rightarrow> 'd broker \<Rightarrow> bool"
  for E bcrypt b where
  accept: "\<not> bk_crashed b \<Longrightarrow> bk_sessions b a = None \<Longrightarrow> cn_out c = [] \<Longrightarrow>
     broker_step E bcrypt b (Accept a c remote now)
       (put_session a Greeting (newSession a c remote) (registerSession a (accept_info remote now) (bk_srv b)) b)"
| connect: "\<not> bk_crashed b \<Longrightarrow> bk_sessions b a = Some (Greeting, s) \<Longrightarrow>
     ReadPacket r = Inr (pkt, r') \<Longrightarrow> pkt_Type pkt = TypeConnect \<Longrightarrow> pkt_Connect pkt = Some cp \<Longrightarrow>
     handleConnect bcrypt cp s (bk_srv b) = (err, s', srv') \<Longrightarrow>
     broker_step E bcrypt b (Connect a cp) (after_handler a err s' srv' b)"
| receive: "\<not> bk_crashed b \<Longrightarrow> bk_sessions b a = Some (Serving, s) \<Longrightarrow>
     ReadPacket r = Inr (pkt, r') \<Longrightarrow> dispatch E inp pkt s (bk_srv b) = Some (err, s', srv') \<Longrightarrow>
     broker_step E bcrypt b (Receive a inp pkt) (after_handler a err s' srv' b)"
| leave: "\<not> bk_crashed b \<Longrightarrow> bk_sessions b a = Some (ph, s) \<Longrightarrow> ph \<noteq> Ended \<Longrightarrow>
     broker_step E bcrypt b (Leave a) (finish_session a s (bk_srv b) b)"
| deliver: "\<not> bk_crashed b \<Longrightarrow> bk_sessions b a = Some (ph, s) \<Longrightarrow> g \<in> set (s_live s) \<Longrightarrow>
     live_step E inp g s (bk_srv b) = Some (s', srv') \<Longrightarrow>
     broker_step E bcrypt b (Deliver a inp g) (put_session a ph s' srv' b)"
| tick: "\<not> bk_crashed b \<Longrightarrow> bk_sessions b a = Some (ph, s) \<Longrightarrow>
     broker_step E bcrypt b (Tick a order now now2) (put_session a ph (retransmit_tick order now now2 s) (bk_srv b) b)"
| kick: "\<not> bk_crashed b \<Longrightarrow>
     broker_step E bcrypt b (Kick order c) (set_sessions (snd (KickClient order c (bk_srv b) (all_sessions b))) b)"
| stop: "\<not> bk_crashed b \<Longrightarrow>
     broker_step E bcrypt b (Stop order) (set_sessions (Shutdown order (bk_srv b) (all_sessions b)) b)"
| serve: "\<not> bk_crashed b \<Longrightarrow> serve E inp r (bk_admin b) = (resp, ad') \<Longrightarrow>
     broker_step E bcrypt b (Serve inp r) (b\<lparr>bk_admin := ad', bk_tails := tail_of resp @ bk_tails b\<rparr>)"
| tail: "\<not> bk_crashed b \<Longrightarrow> (n, ch) \<in> set (bk_tails b) \<Longrightarrow> topic_at (bk_srv b) n = Some t \<Longrightarrow>
     tail_step fin ch t = (out, t') \<Longrightarrow>
     broker_step E bcrypt b (TailRound fin n ch)
       ((set_srv (put_topic n t' (bk_srv b)) b)\<lparr>bk_tails := (if out = TailEnds then remove1 (n, ch) (bk_tails b) else bk_tails b)\<rparr>)"

text \<open>A run, with the state before each event.\<close>

inductive broker_run :: "'d engine \<Rightarrow> (bytes \<Rightarrow> bytes \<Rightarrow> bool) \<Rightarrow> 'd broker \<Rightarrow> ('d broker \<times> 'd event) list \<Rightarrow> 'd broker \<Rightarrow> bool"
  for E bcrypt b0 where
  start: "broker_run E bcrypt b0 [] b0"
| round: "broker_run E bcrypt b0 tr b \<Longrightarrow> broker_step E bcrypt b ev b' \<Longrightarrow> broker_run E bcrypt b0 (tr @ [(b, ev)]) b'"

definition boot :: "'d Admin \<Rightarrow> 'd broker" where
  "boot ad = \<lparr>bk_admin = ad, bk_sessions = Map.empty, bk_tails = [], bk_crashed = False\<rparr>"

inductive_cases broker_step_ReceiveE: "broker_step E bcrypt b (Receive a inp pkt) b'"
inductive_cases broker_step_ServeE: "broker_step E bcrypt b (Serve inp r) b'"
inductive_cases broker_run_snocE: "broker_run E bcrypt b0 (tr @ [x]) b"

lemma set_srv_fields [simp]:
  "bk_srv (set_srv srv b) = srv" "bk_tails (set_srv srv b) = bk_tails b"
  "bk_sessions (set_srv srv b) = bk_sessions b" "bk_crashed (set_srv srv b) = bk_crashed b"
  by (simp_all add: set_srv_def)

lemma put_session_fields [simp]:
  "bk_srv (put_session a ph s srv b) = srv" "bk_tails (put_session a ph s srv b) = bk_tails b"
  "bk_sessions (put_session a ph s srv b) = (bk_sessions b)(a \<mapsto> (ph, s))" "bk_crashed (put_session a ph s srv b) = bk_crashed b"
  by (simp_all add: put_session_def)

section \<open>Who owns a channel\<close>

definition held_by :: "'d broker \<Rightarrow> nat \<Rightarrow> string \<Rightarrow> nat set" where
  "held_by b a n = (case bk_sessions b a of None \<Rightarrow> {} | Some (_, s) \<Rightarrow> set_option (s_subs s n))"

definition tailed_by :: "'d broker \<Rightarrow> string \<Rightarrow> nat set" where
  "tailed_by b n = {ch. (n, ch) \<in> set (bk_tails b)}"

definition held_by_others :: "'d broker \<Rightarrow> nat \<Rightarrow> string \<Rightarrow> nat set" where
  "held_by_others b a n = (\<Union>a' \<in> - {a}. held_by b a' n) \<union> tailed_by b n"

text \<open>
  Every subscriber channel of a topic has one owner: a live session or a tail. No owner has a
  channel that is not subscribed.
\<close>

definition owned_once :: "'d broker \<Rightarrow> bool" where
  "owned_once b \<longleftrightarrow> distinct (bk_tails b)
     \<and> (\<forall>n. subs_of (bk_srv b) n = (\<Union>a. held_by b a n) \<union> tailed_by b n)
     \<and> (\<forall>n a. held_by b a n \<inter> held_by_others b a n = {})"

text \<open>The entry of a session in the table: its client identifier and exactly its subscriptions.\<close>

definition listed :: "session \<Rightarrow> 'd Server \<Rightarrow> bool" where
  "listed s srv \<longleftrightarrow> (\<exists>i. srv_sessions srv (s_addr s) = Some i \<and> si_ClientID i = s_clientID s \<and> si_Topics i = dom (s_subs s))"

definition session_ok :: "'d Server \<Rightarrow> nat \<Rightarrow> phase \<times> session \<Rightarrow> bool" where
  "session_ok srv a x = (case x of (ph, s) \<Rightarrow> s_addr s = a
     \<and> (if ph = Ended then srv_sessions srv a = None \<and> s_subs s = Map.empty \<and> cn_closed (s_conn s) else listed s srv))"

definition table_ok :: "'d broker \<Rightarrow> nat \<Rightarrow> bool" where
  "table_ok b a = (case bk_sessions b a of None \<Rightarrow> srv_sessions (bk_srv b) a = None | Some x \<Rightarrow> session_ok (bk_srv b) a x)"

definition broker_inv :: "'d broker \<Rightarrow> bool" where
  "broker_inv b \<longleftrightarrow> \<not> bk_crashed b \<and> server_inv (bk_srv b) \<and> owned_once b
     \<and> (\<forall>a. table_ok b a)"

lemma held_by_put:
  "held_by (put_session a ph s srv b) a' = (if a' = a then (\<lambda>n. set_option (s_subs s n)) else held_by b a')"
  "tailed_by (put_session a ph s srv b) = tailed_by b"
  "held_by_others (put_session a ph s srv b) a = held_by_others b a"
  by (auto simp: held_by_def tailed_by_def held_by_others_def fun_eq_iff)

lemma owned_once_split:
  "owned_once b \<Longrightarrow> subs_of (bk_srv b) n = held_by_others b a n \<union> held_by b a n"
  unfolding owned_once_def held_by_others_def by auto

lemma owned_once_disjoint: "owned_once b \<Longrightarrow> held_by b a n \<inter> held_by_others b a n = {}"
  by (simp add: owned_once_def)

lemma broker_inv_table: "broker_inv b \<Longrightarrow> table_ok b a"
  by (simp add: broker_inv_def table_ok_def)

lemma broker_inv_frame:
  assumes "broker_inv b" "bk_sessions b a = Some (ph, s)"
  shows "frame a (held_by_others b a) ((srv_sessions (bk_srv b))(a := None)) s (bk_srv b)" "server_inv (bk_srv b)"
    and "ph \<noteq> Ended \<Longrightarrow> listed s (bk_srv b)" "s_addr s = a"
proof -
  have ok: "session_ok (bk_srv b) a (ph, s)" "owned_once b"
    using broker_inv_table [OF assms(1), of a] assms by (auto simp: broker_inv_def table_ok_def)
  moreover have "held_by b a n = set_option (s_subs s n)" for n
    using assms(2) by (simp add: held_by_def)
  moreover have "held_by b a n \<inter> held_by_others b a n = {}" for n using ok(2) by (simp add: owned_once_def)
  ultimately show "frame a (held_by_others b a) ((srv_sessions (bk_srv b))(a := None)) s (bk_srv b)"
    using owned_once_split [OF ok(2), of _ a] by (simp add: frame_def session_ok_def Int_commute)
  show "server_inv (bk_srv b)" using assms(1) by (simp add: broker_inv_def)
  show "ph \<noteq> Ended \<Longrightarrow> listed s (bk_srv b)" "s_addr s = a" using ok(1) by (auto simp: session_ok_def split: if_splits)
qed

lemma broker_inv_fresh:
  assumes "broker_inv b" "bk_sessions b a = None"
  shows "subs_of (bk_srv b) n = held_by_others b a n" "srv_sessions (bk_srv b) a = None"
proof -
  have "owned_once b" using assms(1) by (simp add: broker_inv_def)
  from owned_once_split [OF this, of n a] assms(2) show "subs_of (bk_srv b) n = held_by_others b a n"
    by (simp add: held_by_def)
  show "srv_sessions (bk_srv b) a = None"
    using broker_inv_table [OF assms(1), of a] assms(2) by (simp add: table_ok_def)
qed

text \<open>A step of one session keeps the invariant if it keeps its frame.\<close>

lemma broker_inv_put:
  assumes inv: "broker_inv b"
    and fr: "frame a (held_by_others b a) ((srv_sessions (bk_srv b))(a := None)) s' srv'"
    and ok: "server_inv srv'" "session_ok srv' a (ph', s')"
  shows "broker_inv (put_session a ph' s' srv' b)"
proof -
  let ?b = "put_session a ph' s' srv' b"
  have o: "distinct (bk_tails b)" "\<And>n a. held_by b a n \<inter> held_by_others b a n = {}"
    using inv by (auto simp: broker_inv_def owned_once_def)
  have F: "s_addr s' = a" "(srv_sessions srv')(a := None) = (srv_sessions (bk_srv b))(a := None)"
    "\<And>n. subs_of srv' n = held_by_others b a n \<union> set_option (s_subs s' n)"
    "\<And>n. held_by_others b a n \<inter> set_option (s_subs s' n) = {}"
    using fr by (auto simp: frame_def)
  have sub: "subs_of (bk_srv ?b) n = (\<Union>a. held_by ?b a n) \<union> tailed_by ?b n" for n
  proof -
    have "(\<Union>a. held_by ?b a n) = set_option (s_subs s' n) \<union> (\<Union>a' \<in> - {a}. held_by b a' n)"
      by (auto simp: held_by_put split: if_splits)
    then show ?thesis using F(3) [of n] by (auto simp: held_by_put held_by_others_def)
  qed
  have dis: "held_by ?b a' n \<inter> held_by_others ?b a' n = {}" for n a'
  proof (cases "a' = a")
    case True
    then show ?thesis using F(4) [of n] by (auto simp: held_by_put)
  next
    case False
    then have "held_by_others ?b a' n \<subseteq> held_by_others b a' n \<union> set_option (s_subs s' n)"
      "held_by b a' n \<subseteq> held_by_others b a n"
      by (auto simp: held_by_others_def held_by_put split: if_splits)
    with False o(2) [where a = a' and n = n] F(4) [of n] show ?thesis by (auto simp: held_by_put)
  qed
  have other: "srv_sessions srv' a' = srv_sessions (bk_srv b) a'" if "a' \<noteq> a" for a'
    using fun_cong [OF F(2), of a'] that by simp
  have "table_ok ?b a'" for a'
  proof (cases "a' = a")
    case True
    then show ?thesis using ok(2) by (simp add: table_ok_def)
  next
    case False
    then have "session_ok srv' a' x = session_ok (bk_srv b) a' x" for x
      using other [of a'] by (cases x) (simp add: session_ok_def listed_def cong: conj_cong)
    with False other [of a'] broker_inv_table [OF inv, of a'] show ?thesis by (auto simp: table_ok_def split: option.splits)
  qed
  with sub dis o(1) inv ok(1) show ?thesis by (simp add: broker_inv_def owned_once_def)
qed

section \<open>The rounds keep the invariant\<close>

text \<open>The entry of the session in the table follows its subscriptions.\<close>

lemma listed_cong:
  assumes "listed s srv" "srv_sessions srv' = srv_sessions srv"
    and "s_addr s' = s_addr s" "s_clientID s' = s_clientID s" "s_subs s' = s_subs s"
  shows "listed s' srv'"
  using assms by (simp add: listed_def)

abbreviation keeps_entry :: "session \<Rightarrow> 'd Server \<Rightarrow> session \<Rightarrow> 'd Server \<Rightarrow> bool" where
  "keeps_entry s srv s' srv' \<equiv> srv_sessions srv' = srv_sessions srv \<and> s_addr s' = s_addr s
     \<and> s_subs s' = s_subs s \<and> s_clientID s' = s_clientID s"

lemma listed_kept: "listed s srv \<Longrightarrow> keeps_entry s srv s' srv' \<Longrightarrow> listed s' srv'"
  using listed_cong by metis

lemma listed_sync:
  "listed s srv \<Longrightarrow> srv_sessions srv' = srv_sessions srv \<and> s_addr s' = s_addr s \<and> s_clientID s' = s_clientID s \<Longrightarrow>
    listed s' (syncSessionTopics s' srv')"
  by (auto simp: listed_def syncSessionTopics_def updateSessionTopics_def)

lemma session_write_clientID [simp]: "s_clientID (snd (session_write m f s)) = s_clientID s"
  by (simp add: session_write_def split: prod.splits)

lemma session_write_kept:
  "session_write m f s = (err, s') \<Longrightarrow> s_addr s' = s_addr s \<and> s_subs s' = s_subs s \<and> s_clientID s' = s_clientID s \<and> s_live s' = s_live s \<and> s_user s' = s_user s"
  by (auto simp: session_write_def split: prod.splits)

lemma handlePublish_kept:
  "handlePublish E inp pp s srv = (err, s', srv') \<Longrightarrow>
    keeps_entry s srv s' srv'"
  by (auto simp: handlePublish_def puback_if_def Let_def dest!: session_write_kept split: if_splits option.splits prod.splits sum.splits)

lemma allocPacketID_kept:
  "allocPacketID s = Some (pid, s') \<Longrightarrow> s_addr s' = s_addr s \<and> s_subs s' = s_subs s \<and> s_clientID s' = s_clientID s"
  by (auto simp: allocPacketID_def split: option.splits prod.splits)

lemma deliverMessage_kept:
  "deliverMessage E inp n m qos s srv = Some (err, s', srv') \<Longrightarrow>
    keeps_entry s srv s' srv'"
  by (auto simp: deliverMessage_def Let_def dest!: allocPacketID_kept session_write_kept split: if_splits option.splits prod.splits)

lemma deliver_all_kept:
  "deliver_all E inp n qos ms s srv = Some (err, s', srv') \<Longrightarrow>
    keeps_entry s srv s' srv'"
  by (induction ms arbitrary: s srv) (auto dest!: deliverMessage_kept split: option.splits prod.splits)

lemma deliver_pendings_kept:
  "deliver_pendings E inp ps s srv = Some (err, s', srv') \<Longrightarrow>
    keeps_entry s srv s' srv'"
  by (induction ps arbitrary: s srv) (auto dest!: deliver_all_kept split: option.splits prod.splits)

lemma subscribe_loop_kept:
  "subscribe_loop E inp tfs codes ps s srv = (r, s', srv') \<Longrightarrow>
    srv_sessions srv' = srv_sessions srv \<and> s_addr s' = s_addr s \<and> s_clientID s' = s_clientID s"
proof (induction tfs arbitrary: codes ps s srv)
  case (Cons tf tfs)
  have "srv_sessions srv2 = srv_sessions srv1 \<and> s_addr s2 = s_addr s1 \<and> s_clientID s2 = s_clientID s1"
    if "subscribe_topic E tf t s1 srv1 = (p, s2, srv2)" for t s1 p s2 and srv1 srv2 :: "'a Server"
    using that by (auto simp: subscribe_topic_def Let_def split: prod.splits option.splits)
  with Cons.prems show ?case
    by (fastforce dest!: Cons.IH split: if_splits option.splits prod.splits sum.splits)
qed simp

lemma unsubscribe_loop_kept:
  "unsubscribe_loop ns s srv = (s', srv') \<Longrightarrow>
    srv_sessions srv' = srv_sessions srv \<and> s_addr s' = s_addr s \<and> s_clientID s' = s_clientID s"
  by (induction ns s srv rule: unsubscribe_loop.induct) (auto split: option.splits)

lemma listed_write: "listed s srv \<Longrightarrow> session_write m f s = (err, s') \<Longrightarrow> listed s' srv"
  by (erule listed_kept) (simp add: session_write_kept)

lemma listed_handleSubscribe:
  assumes "listed s srv" "handleSubscribe E inp sp s srv = Some (None, s', srv')"
  shows "listed s' srv'"
proof -
  obtain r1 s1 srv1 where l: "subscribe_loop E inp (sp_Topics sp) [] [] s srv = (r1, s1, srv1)" by (metis prod_cases3)
  then obtain codes ps s2 s3 srv3 where w: "session_write ''write SUBACK'' (WriteSubAck (sp_PacketID sp) codes) s1 = (None, s2)"
    and d: "deliver_pendings E inp ps s2 (syncSessionTopics s2 srv1) = Some (None, s3, srv')"
    and s': "s' = s3\<lparr>s_live := s_live s3 @ map (\<lambda>p. (pd_topic p, pd_ch p, pd_qos p)) ps\<rparr>"
    using assms(2) unfolding handleSubscribe_def by (auto split: sum.splits prod.splits option.splits)
  have "listed s2 (syncSessionTopics s2 srv1)"
    by (rule listed_sync [OF assms(1)]) (use subscribe_loop_kept [OF l] session_write_kept [OF w] in simp)
  from listed_kept [OF this deliver_pendings_kept [OF d]] show ?thesis by (simp add: s' listed_def)
qed

lemma listed_handleUnsubscribe:
  assumes "listed s srv" "handleUnsubscribe up s srv = (err, s', srv')"
  shows "listed s' srv'"
proof -
  obtain s1 srv1 where u: "unsubscribe_loop (up_Topics up) s srv = (s1, srv1)" by fastforce
  have "listed s1 (syncSessionTopics s1 srv1)"
    by (rule listed_sync [OF assms(1) unsubscribe_loop_kept [OF u]])
  with u assms(2) show ?thesis
    by (auto simp: handleUnsubscribe_def Let_def dest: listed_write split: prod.splits)
qed

lemma listed_handlePublish: "listed s srv \<Longrightarrow> handlePublish E inp pp s srv = (err, s', srv') \<Longrightarrow> listed s' srv'"
  using listed_kept handlePublish_kept by blast

lemma listed_handlePubAck: "listed s srv \<Longrightarrow> handlePubAck E pa s srv = (err, s', srv') \<Longrightarrow> listed s' srv'"
  by (erule listed_kept) (auto simp: handlePubAck_def split: option.splits)

lemma listed_dispatch:
  assumes "listed s srv" "dispatch E inp pkt s srv = Some (None, s', srv')"
  shows "listed s' srv'"
  using assms unfolding dispatch_def
  by (auto dest: listed_handlePublish listed_handleSubscribe listed_handleUnsubscribe listed_handlePubAck listed_write
      split: if_splits option.splits prod.splits)

lemma listed_handleConnect:
  assumes "listed s srv" "handleConnect bcrypt cp s srv = (None, s', srv')"
  shows "listed s' srv'"
  using assms
  by (auto simp: handleConnect_def Let_def listed_def updateSessionIdentity_def dest!: session_write_kept
      split: if_splits prod.splits bool.splits option.splits)

lemma live_step_kept:
  assumes "live_step E inp g s srv = Some (s', srv')"
  shows "keeps_entry s srv s' srv'"
  using assms
  by (auto simp: live_step_def Let_def dest!: deliverMessage_kept split: prod.splits option.splits received.splits if_splits)

lemma resend_kept [simp]:
  "s_addr (resend now x s) = s_addr s" "s_subs (resend now x s) = s_subs s" "s_clientID (resend now x s) = s_clientID s"
  "cn_closed (s_conn (resend now x s)) = cn_closed (s_conn s)"
  by (auto simp: resend_def session_write_def conn_Write_def Let_def split: prod.splits option.splits if_splits)

lemma resends_kept [simp]:
  "s_addr (fold (resend now) xs s) = s_addr s" "s_subs (fold (resend now) xs s) = s_subs s"
  "s_clientID (fold (resend now) xs s) = s_clientID s" "cn_closed (s_conn (fold (resend now) xs s)) = cn_closed (s_conn s)"
  by (induction xs arbitrary: s) simp_all

lemma retransmit_tick_kept [simp]:
  "s_addr (retransmit_tick order now now2 s) = s_addr s" "s_subs (retransmit_tick order now now2 s) = s_subs s"
  "s_clientID (retransmit_tick order now now2 s) = s_clientID s"
  "cn_closed (s_conn (retransmit_tick order now now2 s)) = cn_closed (s_conn s)"
  by (simp_all add: retransmit_tick_def)

lemma session_write_closed: "session_write m f s = (err, s') \<Longrightarrow> cn_closed (s_conn s') = cn_closed (s_conn s)"
  by (auto simp: session_write_def conn_Write_def Let_def split: prod.splits option.splits if_splits)

lemma deliverMessage_closed:
  "deliverMessage E inp n m qos s srv = Some (err, s', srv') \<Longrightarrow> cn_closed (s_conn s') = cn_closed (s_conn s)"
  by (auto simp: deliverMessage_def allocPacketID_def Let_def dest!: session_write_closed split: if_splits option.splits prod.splits)

lemma live_step_closed:
  "live_step E inp g s srv = Some (s', srv') \<Longrightarrow> cn_closed (s_conn s') = cn_closed (s_conn s)"
  by (auto simp: live_step_def Let_def dest!: deliverMessage_closed split: prod.splits option.splits received.splits if_splits)

lemma t_recv [simp]: "t_subs (snd (chan_recv a t)) = t_subs t" "t_name (snd (chan_recv a t)) = t_name t"
  by (auto simp: chan_recv_def split: option.splits list.splits)

lemma chan_recv_topic: "chan_recv a t = (x, t') \<Longrightarrow> t_subs t' = t_subs t \<and> t_name t' = t_name t \<and> (subs_inv t \<longrightarrow> subs_inv t')"
  using t_recv [of a t] subs_inv_recv [of t a] by simp

lemma frame_recv:
  assumes "frame a S T s srv" "topic_at srv n = Some t" "chan_recv ch t = (x, t')"
  shows "frame a S T s (put_topic n t' srv)"
  using assms subs_of_same [OF assms(2)] by (intro frame_cong [OF assms(1)]) (auto dest: chan_recv_topic)

lemma server_inv_recv:
  "server_inv srv \<Longrightarrow> topic_at srv n = Some t \<Longrightarrow> chan_recv ch t = (x, t') \<Longrightarrow> server_inv (put_topic n t' srv)"
  by (rule server_inv_put) (auto dest: chan_recv_topic server_inv_topic)

lemma frame_live_step:
  assumes "frame a S T s srv" "server_inv srv" "live_step E inp g s srv = Some (s', srv')"
  shows "frame a S T s' srv' \<and> server_inv srv'"
proof -
  obtain n ch qos where g: "g = (n, ch, qos)" by (cases g) auto
  have gone: "frame a S T (s2\<lparr>s_live := l\<rparr>) srv2" if "frame a S T s2 srv2" for s2 l and srv2 :: "'a Server"
    by (rule frame_cong [OF that]) simp_all
  show ?thesis
  proof (cases "topic_at srv n")
    case (Some t)
    obtain x t' where r: "chan_recv ch t = (x, t')" by fastforce
    note f = frame_recv [OF assms(1) Some r] and i = server_inv_recv [OF assms(2) Some r]
    have d: "frame a S T s2 srv2 \<and> server_inv srv2"
      if "deliverMessage E inp n m qos s (put_topic n t' srv) = Some (err, s2, srv2)" for m err s2 srv2
      using frame_deliverMessage [OF f that] well_behaved_deliverMessage [OF i that] by (simp add: well_behaved_def)
    show ?thesis
    proof (cases x)
      case (Got m)
      then show ?thesis
        using assms(3) Some r f i d gone by (auto simp: g live_step_def Let_def split: option.splits if_splits)
    qed (use assms Some r gone in \<open>auto simp: g live_step_def\<close>)
  qed (use assms in \<open>simp add: g live_step_def\<close>)
qed

lemma broker_inv_finish:
  assumes "broker_inv b" "frame a (held_by_others b a) ((srv_sessions (bk_srv b))(a := None)) s srv" "server_inv srv"
  shows "broker_inv (finish_session a s srv b)"
proof -
  obtain s' srv' where c: "cleanupSubs s srv = (s', srv')" by fastforce
  note f = cleanup_frame [OF assms(2,3) c]
  have a: "s_addr s' = a" using c assms(2) by (auto simp: cleanupSubs_def frame_def Let_def)
  have sc: "s_subs (session_Close s') = Map.empty" "s_addr (session_Close s') = a" "cn_closed (s_conn (session_Close s'))"
    using f(4) a by (simp_all add: session_Close_def)
  have un: "srv_sessions (unregisterSession a srv') = (srv_sessions srv')(a := None)" "server_inv (unregisterSession a srv')"
    using f(3) by (simp_all add: unregisterSession_def server_inv_def)
  have "frame a (held_by_others b a) ((srv_sessions (bk_srv b))(a := None)) (session_Close s') (unregisterSession a srv')"
    using f(1,2) by (simp add: frame_def sc un)
  moreover have "session_ok (unregisterSession a srv') a (Ended, session_Close s')"
    by (simp add: session_ok_def sc un)
  ultimately show ?thesis
    using broker_inv_put [OF assms(1)] un(2) c by (simp add: finish_session_def)
qed

lemma broker_inv_after:
  assumes "broker_inv b" "frame a (held_by_others b a) ((srv_sessions (bk_srv b))(a := None)) s srv" "server_inv srv"
    and "err = None \<Longrightarrow> listed s srv" "\<And>p. err \<noteq> Some (Panic p)"
  shows "broker_inv (after_handler a err s srv b)"
  using broker_inv_finish [OF assms(1-3)] broker_inv_put [OF assms(1-3), of Serving] assms(2,4,5)
  by (auto simp: after_handler_def session_ok_def frame_def split: option.splits go_error.splits)

lemma fold_close_session_closes:
  "fold close_session as ss a = ss a \<or> fold close_session as ss a = session_Close (ss a)"
proof (induction as arbitrary: ss)
  case (Cons x as)
  have "session_Close (session_Close s) = session_Close s" for s by (simp add: session_Close_def)
  with Cons.IH [of "close_session x ss"] show ?case by (auto simp: close_session_def)
qed simp

lemma KickClient_closes:
  "snd (KickClient order c srv ss) a = ss a \<or> snd (KickClient order c srv ss) a = session_Close (ss a)"
  by (simp add: KickClient_def Let_def fold_close_session_closes)

lemma Shutdown_closes: "Shutdown order srv ss a = ss a \<or> Shutdown order srv ss a = session_Close (ss a)"
  by (simp add: Shutdown_def fold_close_session_closes)

lemma broker_inv_closing:
  assumes "broker_inv b" "\<And>a. ss a = all_sessions b a \<or> ss a = session_Close (all_sessions b a)"
  shows "broker_inv (set_sessions ss b)"
proof -
  let ?b = "set_sessions ss b"
  have at: "(case bk_sessions ?b a of None \<Rightarrow> bk_sessions b a = None
      | Some (ph, s') \<Rightarrow> \<exists>s. bk_sessions b a = Some (ph, s) \<and> (s' = s \<or> s' = session_Close s))" for a
    using assms(2) [of a] by (auto simp: set_sessions_def all_sessions_def split: option.split)
  have held: "held_by ?b a n = held_by b a n" for a n
    using at [of a] by (auto simp: held_by_def session_Close_def split: option.splits)
  have tails: "bk_tails ?b = bk_tails b" "bk_admin ?b = bk_admin b" "bk_crashed ?b = bk_crashed b" by (simp_all add: set_sessions_def)
  have "table_ok ?b a" for a
    using at [of a] broker_inv_table [OF assms(1), of a]
    by (auto simp: table_ok_def session_ok_def listed_def session_Close_def tails split: option.splits if_splits)
  then show ?thesis
    using assms(1) by (simp add: broker_inv_def owned_once_def held_by_others_def tailed_by_def held tails)
qed

subsection \<open>Administration requests\<close>

lemma fresh_channel: "subs_inv t \<Longrightarrow> t_next t \<notin> set (t_subs t)"
  by (fastforce simp: subs_inv_def)

definition keeps_subs :: "'d Topic \<Rightarrow> 'd Topic \<Rightarrow> bool" where
  "keeps_subs t t' \<longleftrightarrow> set (t_subs t') = set (t_subs t) \<and> t_name t' = t_name t \<and> subs_inv t'"

lemma keeps_subs_refl: "subs_inv t \<Longrightarrow> keeps_subs t t"
  by (simp add: keeps_subs_def)

lemma replay_loop_subs:
  "subs_inv t \<Longrightarrow> replay_loop E ids i k ms t = (x, t') \<Longrightarrow> keeps_subs t t'"
proof (induction ms arbitrary: i k t)
  case (Cons m ms)
  obtain y t1 where p: "Publish E (ids i) (replay_env m) t = (y, t1)" by fastforce
  then have "subs_inv t1" "t_subs t1 = t_subs t" "t_name t1 = t_name t"
    using subs_inv_Publish [OF Cons.prems(1), of E "ids i" "replay_env m"] t_subs_ops(1) [of E "ids i" "replay_env m" t]
      t_name_ops(1) [of E "ids i" "replay_env m" t] by simp_all
  with Cons.prems(2) Cons.IH [of t1] p show ?case
    by (auto simp: keeps_subs_def split: sum.splits go_error.splits)
qed (simp add: keeps_subs_def)

lemma handleReplay_subs: "subs_inv t \<Longrightarrow> handleReplay E inp r t = (resp, t') \<Longrightarrow> keeps_subs t t' \<and> tail_of resp = []"
  by (auto simp: handleReplay_def fail_def tail_of_def Let_def keeps_subs_refl dest: replay_loop_subs
      split: sum.splits prod.splits go_error.splits)

lemma Purge_subs: "subs_inv t \<Longrightarrow> Purge E t = (x, t') \<Longrightarrow> keeps_subs t t'"
  using subs_inv_Purge [of t E] by (auto simp: keeps_subs_def Purge_def Let_def split: prod.splits option.splits)

lemma handleTailWS_subs:
  assumes "subs_inv t" "handleTailWS u n t = (resp, t')"
  shows "t_name t' = t_name t \<and> subs_inv t'
    \<and> (if u then resp = Tail n (t_next t) \<and> set (t_subs t') = insert (t_next t) (set (t_subs t))
       else tail_of resp = [] \<and> set (t_subs t') = set (t_subs t))"
proof -
  have s: "subs_inv (snd (Subscribe t))" "Subscribe t = (t_next t, snd (Subscribe t))"
    "set (t_subs (snd (Subscribe t))) = insert (t_next t) (set (t_subs t))" 
    using assms(1) by (simp_all add: subs_inv_Subscribe) (simp_all add: Subscribe_def)
  have nm: "t_name t1 = t_name t" if "Subscribe t = (ch, t1)" for ch t1 using that by (auto simp: Subscribe_def)
  have "set (t_subs (unsub (t_next t) (snd (Subscribe t)))) = set (t_subs t)"
    using set_unsub [OF s(1)] s(3) fresh_channel [OF assms(1)] by auto
  moreover have "t_name (unsub a t1) = t_name t1" for a and t1 :: "'a Topic" by (simp add: unsub_def)
  moreover note subs_inv_unsub [OF s(1)]
  ultimately show ?thesis
    using assms(2) s nm unfolding handleTailWS_def by (cases u) (auto simp: tail_of_def split: prod.splits)
qed

lemma topic_action_subs:
  assumes "subs_inv t" "topic_action E inp r n action t = (resp, t')"
  shows "keeps_subs t t' \<and> tail_of resp = []
    \<or> resp = Tail n (t_next t) \<and> set (t_subs t') = insert (t_next t) (set (t_subs t)) \<and> t_name t' = t_name t \<and> subs_inv t'"
proof -
  note t = keeps_subs_refl [OF assms(1)]
  have f: "tail_of (fail e) = []" for e by (simp add: fail_def tail_of_def split: go_error.split)
  have j: "tail_of (JSON x) = []" "tail_of HttpNotFound = []" "tail_of (HttpError c m) = []" for x c m by (simp_all add: tail_of_def)
  consider "action = ''tail''" "hr_Upgrade r = ''websocket''" | "action = ''replay''" "hr_Method r = ''POST''"
    | "action = ''purge''" "hr_Method r = ''POST''"
    | "\<not> (action = ''tail'' \<and> hr_Upgrade r = ''websocket'')" "\<not> (action = ''replay'' \<and> hr_Method r = ''POST'')"
      "\<not> (action = ''purge'' \<and> hr_Method r = ''POST'')" by blast
  then show ?thesis
  proof cases
    case 1
    with assms handleTailWS_subs [OF assms(1), of "ai_upgraded inp" n] show ?thesis
      by (auto simp: topic_action_def keeps_subs_def split: if_splits)
  next
    case 2
    with assms handleReplay_subs [OF assms(1)] show ?thesis by (simp add: topic_action_def)
  next
    case 3
    with assms Purge_subs [OF assms(1)] show ?thesis by (auto simp: topic_action_def f j split: prod.splits option.splits)
  next
    case 4
    with assms(2) t show ?thesis
      unfolding topic_action_def by (auto simp: f j Let_def split: if_splits sum.splits)
  qed
qed

text \<open>What a request may do to the table and to the subscribers: only a live tail adds a channel, a fresh one.\<close>

definition tails_only :: "'d Server \<Rightarrow> response \<Rightarrow> 'd Server \<Rightarrow> bool" where
  "tails_only srv resp srv' \<longleftrightarrow> server_inv srv' \<and> srv_sessions srv' = srv_sessions srv
     \<and> (\<forall>n. subs_of srv' n = subs_of srv n \<union> {ch. (n, ch) \<in> set (tail_of resp)})
     \<and> (\<forall>(n, ch) \<in> set (tail_of resp). ch \<notin> subs_of srv n)"

lemma tails_only_refl: "server_inv srv \<Longrightarrow> tail_of resp = [] \<Longrightarrow> tails_only srv resp srv"
  by (simp add: tails_only_def)

lemma get_topic_GetOrCreate: "get_topic E opened n reg = GetOrCreate E opened n reg"
  by (simp add: get_topic_def GetOrCreate_def registry_Get_def split: option.split)

lemma handleTopicSub_tails:
  assumes "server_inv (ad_srv ad)" "handleTopicSub E inp r ad = (resp, ad')"
  shows "tails_only (ad_srv ad) resp (ad_srv ad')"
proof -
  define n where "n = hd (split_levels (drop (length ''/api/topics/'') (hr_Path r)))"
  note h = assms(2) [unfolded handleTopicSub_def Let_def get_topic_GetOrCreate, folded n_def]
  obtain res reg where g: "GetOrCreate E (ai_opened inp) n (srv_registry (ad_srv ad)) = (res, reg)" by fastforce
  let ?srv = "(ad_srv ad)\<lparr>srv_registry := reg\<rparr>"
  have inv: "server_inv ?srv"
    using registry_inv_GetOrCreate(1) [of "srv_registry (ad_srv ad)" E "ai_opened inp" n] assms(1) g by (simp add: server_inv_def)
  have none: "tail_of (fail e) = []" "tail_of (JSON j) = []" "tail_of HttpNotFound = []" for e j
    by (simp_all add: tail_of_def fail_def split: go_error.split)
  have opened: "tails_only (ad_srv ad) x ?srv" if "tail_of x = []" for x
    using inv subs_of_GetOrCreate(1) [OF g] that by (simp add: tails_only_def)
  show ?thesis
  proof (cases res)
    case (Inl e)
    with h g opened none tails_only_refl [OF assms(1)] show ?thesis by (auto split: if_splits)
  next
    case (Inr t)
    have t: "topic_at ?srv n = Some t" by (rule subs_of_GetOrCreate(2) [OF g Inr])
    have ti: "t_name t = n" "subs_inv t" using server_inv_topic [OF inv t] by auto
    have sub: "subs_of (ad_srv ad) n = set (t_subs t)" using subs_of_topic [OF t] subs_of_GetOrCreate(1) [OF g] by simp
    have "tails_only (ad_srv ad) x (put_topic n t' ?srv)" if "topic_action E inp r n action t = (x, t')" for action x t'
      using topic_action_subs [OF ti(2) that]
    proof (elim disjE conjE)
      assume k: "keeps_subs t t'" "tail_of x = []"
      then have "server_inv (put_topic n t' ?srv)" using ti by (intro server_inv_put [OF inv]) (auto simp: keeps_subs_def)
      with k sub subs_of_GetOrCreate(1) [OF g] show ?thesis by (auto simp: tails_only_def keeps_subs_def)
    next
      assume k: "x = Tail n (t_next t)" "set (t_subs t') = insert (t_next t) (set (t_subs t))" "t_name t' = t_name t" "subs_inv t'"
      then have "server_inv (put_topic n t' ?srv)" using ti by (intro server_inv_put [OF inv]) auto
      with k sub subs_of_GetOrCreate(1) [OF g] fresh_channel [OF ti(2)] show ?thesis
        by (auto simp: tails_only_def tail_of_def)
    qed
    with h g Inr opened none tails_only_refl [OF assms(1)] show ?thesis
      by (auto split: if_splits list.splits prod.splits)
  qed
qed

lemma serve_tails:
  assumes "server_inv (ad_srv ad)" "serve E inp r ad = (resp, ad')"
  shows "tails_only (ad_srv ad) resp (ad_srv ad')"
proof -
  have none: "tail_of (handleState inp ad) = []" "tail_of (handleClients inp ad) = []" "tail_of (handleTopics inp ad) = []"
    "tail_of (handleDB inp ad) = []"
    by (simp_all add: tail_of_def handleState_def handleClients_def handleTopics_def handleDB_def Let_def split: option.split)
  have "tails_only (ad_srv ad) resp (ad_srv ad')" if "mux E inp r ad = (resp, ad')"
    using that handleTopicSub_tails [OF assms(1)] tails_only_refl [OF assms(1)] none
    by (auto simp: mux_def handleRestart_def Let_def tail_of_def split: if_splits)
  with assms(2) tails_only_refl [OF assms(1)] show ?thesis
    by (auto simp: serve_def handleLogin_def tail_of_def split: if_splits option.splits)
qed

lemma broker_inv_serve:
  assumes "broker_inv b" "serve E inp r (bk_admin b) = (resp, ad')"
  shows "broker_inv (b\<lparr>bk_admin := ad', bk_tails := tail_of resp @ bk_tails b\<rparr>)"
proof -
  let ?b = "b\<lparr>bk_admin := ad', bk_tails := tail_of resp @ bk_tails b\<rparr>"
  have t: "tails_only (bk_srv b) resp (ad_srv ad')"
    using serve_tails [OF _ assms(2)] assms(1) by (simp add: broker_inv_def)
  have o: "owned_once b" using assms(1) by (simp add: broker_inv_def)
  have held: "held_by ?b a n = held_by b a n" for a n by (simp add: held_by_def)
  have tld: "tailed_by ?b n = {ch. (n, ch) \<in> set (tail_of resp)} \<union> tailed_by b n" for n by (auto simp: tailed_by_def)
  have new: "ch \<notin> held_by b a n" "ch \<notin> tailed_by b n" if "(n, ch) \<in> set (tail_of resp)" for n ch a
    using t that o by (auto simp: tails_only_def owned_once_def)
  have "distinct (tail_of resp)" by (simp add: tail_of_def split: response.split)
  with new o have "distinct (tail_of resp @ bk_tails b)"
    by (auto simp: owned_once_def tailed_by_def)
  moreover have "held_by b a n \<inter> held_by_others ?b a n = {}" for a n
  proof -
    have "held_by_others ?b a n = held_by_others b a n \<union> {ch. (n, ch) \<in> set (tail_of resp)}"
      by (auto simp: held_by_others_def held tld)
    then show ?thesis using owned_once_disjoint [OF o, of a n] new(1) [of n _ a] by auto
  qed
  moreover have "subs_of (ad_srv ad') n = (\<Union>a. held_by b a n) \<union> tailed_by ?b n" for n
    using t o by (auto simp: tails_only_def owned_once_def tld)
  ultimately have "owned_once ?b" by (simp add: owned_once_def held)
  moreover have "table_ok ?b a" for a
    using t broker_inv_table [OF assms(1), of a]
    by (auto simp: table_ok_def session_ok_def listed_def tails_only_def split: option.splits)
  ultimately show ?thesis using assms(1) t by (simp add: broker_inv_def tails_only_def)
qed

lemma tail_step_subs:
  assumes "subs_inv t" "tail_step fin ch t = (out, t')"
  shows "t_name t' = t_name t \<and> subs_inv t' \<and> set (t_subs t') = (if out = TailEnds then set (t_subs t) - {ch} else set (t_subs t))"
proof -
  have un: "t_name (unsub ch t1) = t_name t1 \<and> subs_inv (unsub ch t1) \<and> set (t_subs (unsub ch t1)) = set (t_subs t1) - {ch}"
    if "subs_inv t1" for t1 :: "'a Topic"
    using that by (simp add: set_unsub subs_inv_unsub)
  obtain x t1 where r: "chan_recv ch t = (x, t1)" by fastforce
  have t1: "subs_inv t1" "t_subs t1 = t_subs t" "t_name t1 = t_name t" using chan_recv_topic [OF r] assms(1) by auto
  have "t' = unsub ch t \<and> out = TailEnds \<or> t' = unsub ch t1 \<and> out = TailEnds \<or> t' = t1 \<and> out \<noteq> TailEnds"
    using assms(2) r unfolding tail_step_def by (cases x) (auto split: if_splits)
  then show ?thesis using un [OF assms(1)] un [OF t1(1)] t1 by (elim disjE conjE) simp_all
qed

lemma broker_inv_tail:
  assumes "broker_inv b" "(n, ch) \<in> set (bk_tails b)" "topic_at (bk_srv b) n = Some t" "tail_step fin ch t = (out, t')"
  shows "broker_inv ((set_srv (put_topic n t' (bk_srv b)) b)\<lparr>bk_tails := (if out = TailEnds then remove1 (n, ch) (bk_tails b) else bk_tails b)\<rparr>)"
    (is "broker_inv ?b")
proof -
  have i: "server_inv (bk_srv b)" "owned_once b" using assms(1) by (simp_all add: broker_inv_def)
  note t = tail_step_subs [OF _ assms(4)] server_inv_topic [OF i(1) assms(3)]
  have inv: "server_inv (put_topic n t' (bk_srv b))" using t by (intro server_inv_put [OF i(1)]) auto
  have f: "bk_srv ?b = put_topic n t' (bk_srv b)" "bk_sessions ?b = bk_sessions b" "bk_crashed ?b = bk_crashed b"
    "held_by ?b = held_by b" by (simp_all add: held_by_def fun_eq_iff)
  have d: "distinct (bk_tails b)" using i(2) by (simp add: owned_once_def)
  have tld: "tailed_by ?b m = (if m = n \<and> out = TailEnds then tailed_by b m - {ch} else tailed_by b m)" for m
    using d by (auto simp: tailed_by_def set_remove1_eq)
  have others: "held_by_others ?b a m \<subseteq> held_by_others b a m" for a m
    by (auto simp: held_by_others_def f tld split: if_splits)
  have sub: "subs_of (bk_srv b) n = set (t_subs t)" by (rule subs_of_topic [OF assms(3)])
  have own: "ch \<notin> held_by b a n" for a
    using owned_once_disjoint [OF i(2), of a n] assms(2) by (auto simp: held_by_others_def tailed_by_def)
  have "subs_of (bk_srv ?b) m = (\<Union>a. held_by ?b a m) \<union> tailed_by ?b m" for m
  proof (cases "m = n")
    case True
    have "(\<Union>a. held_by b a n) - {ch} = (\<Union>a. held_by b a n)" using own by blast
    moreover have "set (t_subs t) = (\<Union>a. held_by b a n) \<union> tailed_by b n" using i(2) sub by (simp add: owned_once_def)
    ultimately show ?thesis unfolding f tld using t True by (auto simp: Un_Diff)
  next
    case False
    then show ?thesis unfolding f tld using i(2) by (simp add: owned_once_def)
  qed
  moreover have "held_by ?b a m \<inter> held_by_others ?b a m = {}" for a m
    using owned_once_disjoint [OF i(2), of a m] others [of a m] by (auto simp: f)
  moreover have "distinct (bk_tails ?b)" using d by simp
  ultimately have "owned_once ?b" by (simp add: owned_once_def)
  moreover have "table_ok ?b a" for a
    using broker_inv_table [OF assms(1), of a]
    by (auto simp: table_ok_def f session_ok_def listed_def split: option.splits)
  ultimately show ?thesis using assms(1) inv by (simp add: broker_inv_def f)
qed

lemma broker_inv_step:
  assumes "broker_inv b" "broker_step E bcrypt b ev b'"
  shows "broker_inv b'"
  using assms(2)
proof cases
  case (accept a c remote now)
  let ?s = "newSession a c remote" and ?srv = "registerSession a (accept_info remote now) (bk_srv b)"
  have "frame a (held_by_others b a) ((srv_sessions (bk_srv b))(a := None)) ?s ?srv"
    unfolding frame_def subs_of_simps using broker_inv_fresh [OF assms(1) accept(4)]
    by (simp add: newSession_def registerSession_def fun_upd_idem)
  moreover have "server_inv ?srv" using assms(1) by (simp add: broker_inv_def registerSession_def server_inv_def)
  moreover have "session_ok ?srv a (Greeting, ?s)"
    by (simp add: session_ok_def listed_def newSession_def registerSession_def accept_info_def)
  ultimately show ?thesis unfolding accept(2) by (rule broker_inv_put [OF assms(1)])
next
  case (connect a s r pkt r' cp err s' srv')
  note f = broker_inv_frame [OF assms(1) connect(4)]
  have "err \<noteq> Some (Panic p)" for p
    using connect(8) by (auto simp: handleConnect_def Let_def dest: session_write_no_panic split: if_splits prod.splits bool.splits option.splits)
  with connect(8) f listed_handleConnect frame_handleConnect [OF f(1) connect(8)] show ?thesis
    unfolding connect(2) by (intro broker_inv_after [OF assms(1)]) auto
next
  case (receive a s r pkt r' inp err s' srv')
  note f = broker_inv_frame [OF assms(1) receive(4)]
  have w: "well_behaved (err, s', srv')"
    by (rule well_behaved_dispatch [OF f(2) ReadPacket_complete [OF receive(5)] receive(6)])
  from frame_dispatch [OF f(1,2) receive(6)] w listed_dispatch [OF f(3)] receive(6) show ?thesis
    unfolding receive(2) by (intro broker_inv_after [OF assms(1)]) (auto simp: well_behaved_def)
next
  case (leave a ph s)
  from broker_inv_frame [OF assms(1) leave(4)] show ?thesis
    unfolding leave(2) by (intro broker_inv_finish [OF assms(1)])
next
  case (deliver a ph s g inp s' srv')
  note f = broker_inv_frame [OF assms(1) deliver(4)] and k = live_step_kept [OF deliver(6)]
  have "session_ok srv' a (ph, s')"
    using broker_inv_table [OF assms(1), of a] deliver(4) k listed_kept [OF _ k] live_step_closed [OF deliver(6)]
    by (auto simp: table_ok_def session_ok_def split: if_splits)
  with frame_live_step [OF f(1,2) deliver(6)] show ?thesis
    unfolding deliver(2) by (intro broker_inv_put [OF assms(1)]) auto
next
  case (tick a ph s order now now2)
  let ?s = "retransmit_tick order now now2 s"
  note f = broker_inv_frame [OF assms(1) tick(4)]
  have "session_ok (bk_srv b) a (ph, ?s)"
    using broker_inv_table [OF assms(1), of a] tick(4) by (auto simp: table_ok_def session_ok_def listed_def split: if_splits)
  moreover have "frame a (held_by_others b a) ((srv_sessions (bk_srv b))(a := None)) ?s (bk_srv b)"
    by (rule frame_cong [OF f(1)]) simp_all
  ultimately show ?thesis
    unfolding tick(2) using f(2) by (intro broker_inv_put [OF assms(1)])
next
  case (kick order c)
  show ?thesis unfolding kick(2) by (rule broker_inv_closing [OF assms(1)]) (rule KickClient_closes)
next
  case (stop order)
  show ?thesis unfolding stop(2) by (rule broker_inv_closing [OF assms(1)]) (rule Shutdown_closes)
next
  case (serve inp r resp ad')
  show ?thesis unfolding serve(2) by (rule broker_inv_serve [OF assms(1) serve(4)])
next
  case (tail n ch t fin out t')
  show ?thesis unfolding tail(2) by (rule broker_inv_tail [OF assms(1) tail(4-6)])
qed

lemma broker_inv_boot:
  assumes "server_inv (ad_srv ad)" "srv_sessions (ad_srv ad) = Map.empty" "\<forall>n. subs_of (ad_srv ad) n = {}"
  shows "broker_inv (boot ad)"
  using assms by (simp add: broker_inv_def owned_once_def boot_def held_by_def held_by_others_def tailed_by_def table_ok_def)

lemma broker_inv_run:
  assumes "broker_run E bcrypt b0 tr b" "broker_inv b0"
  shows "broker_inv b"
  using assms by (induction rule: broker_run.induct) (auto intro: broker_inv_step)

section \<open>One connection alone\<close>

text \<open>
  The goroutine of a connection that runs without interruption, as \<open>serve_conn\<close> has it, is one of the interleavings.
\<close>

lemma broker_run_step: "broker_step E bcrypt b ev b1 \<Longrightarrow> broker_run E bcrypt b1 tr b2 \<Longrightarrow> broker_run E bcrypt b ((b, ev) # tr) b2"
proof (rotate_tac, induction rule: broker_run.induct)
  case start
  then show ?case using broker_run.round [OF broker_run.start] by fastforce
next
  case (round tr b' ev' b'')
  then show ?case using broker_run.round by fastforce
qed

lemma finish_put: "finish_session a s srv (put_session a ph s1 srv1 b) = finish_session a s srv b"
  by (simp add: finish_session_def put_session_def set_srv_def split: prod.split)

lemma after_error: "err = Some e \<Longrightarrow> (\<And>p. err \<noteq> Some (Panic p)) \<Longrightarrow> after_handler a err s srv b = finish_session a s srv b"
  by (cases e) (auto simp: after_handler_def)

lemma packet_loop_run:
  assumes "broker_inv b" "bk_sessions b a = Some (Serving, s)" "packet_loop E inps r s (bk_srv b) = Some (err, s', srv')"
  shows "\<exists>tr. broker_run E bcrypt b tr (finish_session a s' srv' b)"
  using assms
proof (induction inps arbitrary: b r s)
  case Nil
  then have "broker_step E bcrypt b (Leave a) (finish_session a s' srv' b)"
    using broker_step.leave [of b a Serving s E bcrypt] by (simp add: broker_inv_def)
  then show ?case using broker_run_step broker_run.start by blast
next
  case (Cons inp inps)
  have run: "\<not> bk_crashed b" using Cons.prems(1) by (simp add: broker_inv_def)
  show ?case
  proof (cases "ReadPacket r")
    case (Inl e)
    then have "broker_step E bcrypt b (Leave a) (finish_session a s' srv' b)"
      using broker_step.leave [OF run Cons.prems(2), of E bcrypt] Cons.prems(3) by simp
    then show ?thesis using broker_run_step broker_run.start by blast
  next
    case (Inr x)
    obtain pkt r' where x: "ReadPacket r = Inr (pkt, r')" using Inr by (cases x) auto
    obtain e s1 srv1 where d: "dispatch E inp pkt s (bk_srv b) = Some (e, s1, srv1)"
      using Cons.prems(3) x by (cases "dispatch E inp pkt s (bk_srv b)") auto
    note st = broker_step.receive [OF run Cons.prems(2) x d, of bcrypt]
    note inv = broker_inv_step [OF Cons.prems(1) st]
    show ?thesis
    proof (cases e)
      case None
      let ?b = "put_session a Serving s1 srv1 b"
      have b: "after_handler a e s1 srv1 b = ?b" by (simp add: None after_handler_def)
      obtain tr where "broker_run E bcrypt ?b tr (finish_session a s' srv' ?b)"
        using Cons.IH [of ?b s1 r'] inv Cons.prems(3) x d None b by auto
      then show ?thesis using broker_run_step st unfolding b finish_put by blast
    next
      case (Some e')
      have "e \<noteq> Some (Panic p)" for p using inv by (auto simp: broker_inv_def after_handler_def)
      then have "after_handler a e s1 srv1 b = finish_session a s' srv' b"
        using after_error [OF Some, of a s1 srv1 b] Cons.prems(3) x d Some by simp
      then show ?thesis using broker_run_step st broker_run.start by metis
    qed
  qed
qed

lemma Handle_run:
  assumes "broker_inv b" "bk_sessions b a = Some (Greeting, s)" "Handle E bcrypt inps r s (bk_srv b) = Some (s', srv')"
  shows "\<exists>tr. broker_run E bcrypt b tr (put_session a Ended s' (unregisterSession a srv') b)"
proof -
  have run: "\<not> bk_crashed b" using assms(1) by (simp add: broker_inv_def)
  have fin: "finish_session a s1 srv1 b = put_session a Ended s' (unregisterSession a srv') b"
    if "(case cleanupSubs s1 srv1 of (s, srv) \<Rightarrow> Some (session_Close s, srv)) = Some (s', srv')" for s1 srv1
    using that by (auto simp: finish_session_def split: prod.splits)
  show ?thesis
  proof (cases "\<exists>pkt r' cp. ReadPacket r = Inr (pkt, r') \<and> pkt_Type pkt = TypeConnect \<and> pkt_Connect pkt = Some cp")
    case False
    then have "finish_session a s (bk_srv b) b = put_session a Ended s' (unregisterSession a srv') b"
      using assms(3) by (intro fin) (auto simp: Handle_def Let_def split: sum.splits option.splits if_splits)
    then show ?thesis using broker_run_step [OF broker_step.leave [OF run assms(2)] broker_run.start] by auto
  next
    case True
    then obtain pkt r' cp where p: "ReadPacket r = Inr (pkt, r')" "pkt_Type pkt = TypeConnect" "pkt_Connect pkt = Some cp" by blast
    obtain err s1 srv1 where c: "handleConnect bcrypt cp s (bk_srv b) = (err, s1, srv1)" by (metis prod_cases3)
    note st = broker_step.connect [OF run assms(2) p c, of E]
    note inv = broker_inv_step [OF assms(1) st]
    show ?thesis
    proof (cases err)
      case (Some e)
      have "err \<noteq> Some (Panic q)" for q using inv by (auto simp: broker_inv_def after_handler_def)
      then have "after_handler a err s1 srv1 b = put_session a Ended s' (unregisterSession a srv') b"
        using after_error [OF Some, of a s1 srv1 b] fin [of s1 srv1] assms(3) p c Some by (simp add: Handle_def)
      then show ?thesis using broker_run_step st broker_run.start by metis
    next
      case None
      let ?b = "put_session a Serving s1 srv1 b"
      have b: "after_handler a err s1 srv1 b = ?b" by (simp add: None after_handler_def)
      obtain e s2 srv2 where l: "packet_loop E inps r' s1 srv1 = Some (e, s2, srv2)"
        using assms(3) p c None by (auto simp: Handle_def split: option.splits)
      obtain tr where "broker_run E bcrypt ?b tr (finish_session a s2 srv2 ?b)"
        using packet_loop_run [of ?b a s1 E inps r' e s2 srv2 bcrypt] inv b l by auto
      moreover have "finish_session a s2 srv2 ?b = put_session a Ended s' (unregisterSession a srv') b"
        using fin [of s2 srv2] assms(3) p c None l by (simp add: finish_put Handle_def)
      ultimately show ?thesis using broker_run_step st unfolding b by metis
    qed
  qed
qed

section \<open>A sample run\<close>

text \<open>A client connects with the library's default options and publishes one message.\<close>

definition sample_packet :: Packet where
  "sample_packet = (new_packet TypePublish)\<lparr>pkt_Publish := Some (pb_pkt sample_publication)\<rparr>"

definition sample_broker :: "nat \<Rightarrow> mem_db broker" where
  "sample_broker k =
     (let b0 = boot sample_admin;
          s1 = newSession 7 up_conn ''p'';
          b1 = put_session 7 Greeting s1 (registerSession 7 (accept_info ''p'' 0) (bk_srv b0)) b0;
          (e2, s2, srv2) = handleConnect (\<lambda>_ _. False) (connect_packet defaultOptions) s1 (bk_srv b1);
          b2 = after_handler 7 e2 s2 srv2 b1;
          (e3, s3, srv3) = the (dispatch mem_engine sample_inputs sample_packet s2 (bk_srv b2));
          b3 = after_handler 7 e3 s3 srv3 b2
      in [b0, b1, b2, b3] ! k)"

definition sample_trace :: "(mem_db broker \<times> mem_db event) list" where
  "sample_trace = [(sample_broker 0, Accept 7 up_conn ''p'' 0), (sample_broker 1, Connect 7 (connect_packet defaultOptions)),
     (sample_broker 2, Receive 7 sample_inputs sample_packet)]"

lemma sample_admin_start:
  "server_inv (ad_srv sample_admin)" "srv_sessions (ad_srv sample_admin) = Map.empty" "\<forall>n. subs_of (ad_srv sample_admin) n = {}"
  using sample_server_fields(2)
  by (simp_all add: sample_admin_def admin_New_def sample_server_def NewServer_def subs_of_def logged_topic_def)

lemma sample_trace_run:
  "broker_run mem_engine (\<lambda>_ _. False) (boot sample_admin) sample_trace (sample_broker 3)"
  "srv_dedup (bk_srv (sample_broker 2)) = Some (dedup_New None 0 0)"
  "\<exists>s. bk_sessions (sample_broker 2) 7 = Some (Serving, s) \<and> s_user s = None \<and> conn_up s \<and> s_nextPktID s = 1
     \<and> s_inflight s = Map.empty"
  "broker_run mem_engine (\<lambda>_ _. False) (boot sample_admin) (take 2 sample_trace) (sample_broker 2)"
  "topic_at (bk_srv (sample_broker 2)) ''t'' = Some logged_topic" "\<not> bk_crashed (sample_broker 2)"
  "bk_sessions (sample_broker 3) 9 = None" "dom (bk_sessions (sample_broker 2)) = {7}"
  "fst (handleConnect (\<lambda>_ _. False) (connect_packet defaultOptions) (all_sessions (sample_broker 1) 7) (bk_srv (sample_broker 1))) = None"
proof -
  let ?bc = "\<lambda>_ _. False" and ?cp = "connect_packet defaultOptions"
  let ?s1 = "newSession 7 up_conn ''p''"
  define b1 where "b1 = put_session 7 Greeting ?s1 (registerSession 7 (accept_info ''p'' 0) (bk_srv (boot sample_admin))) (boot sample_admin)"
  obtain e2 s2 srv2 where c: "handleConnect ?bc ?cp ?s1 (bk_srv b1) = (e2, s2, srv2)" by (metis prod_cases3)
  have a: "srv_auth (bk_srv b1) = None" 
    by (simp add: b1_def boot_def sample_admin_def admin_New_def sample_server_def NewServer_def registerSession_def)
  have e2: "e2 = None"
    using c a by (auto simp: handleConnect_def Let_def session_write_def conn_Write_def newSession_def up_conn_def)
  define b2 where "b2 = after_handler 7 e2 s2 srv2 b1"
  have srv2: "bk_srv b2 = srv2" "bk_sessions b2 7 = Some (Serving, s2)" "\<not> bk_crashed b2" "\<not> bk_crashed b1" "\<not> bk_crashed (boot sample_admin)"
    by (simp_all add: b2_def e2 after_handler_def b1_def boot_def)
  obtain e3 s3 srv3 where d: "dispatch mem_engine sample_inputs sample_packet s2 srv2 = Some (e3, s3, srv3)"
    by (cases "handlePublish mem_engine sample_inputs (pb_pkt sample_publication) s2 srv2")
      (auto simp: dispatch_def sample_packet_def new_packet_def)
  define b3 where "b3 = after_handler 7 e3 s3 srv3 b2"
  have b: "sample_broker 0 = boot sample_admin" "sample_broker 1 = b1" "sample_broker 2 = b2" "sample_broker 3 = b3"
    unfolding sample_broker_def Let_def b1_def [symmetric] c prod.case b2_def [symmetric] srv2(1) d option.sel b3_def [symmetric]
    by simp_all
  have 1: "broker_step mem_engine ?bc (boot sample_admin) (Accept 7 up_conn ''p'' 0) b1"
    unfolding b1_def by (rule broker_step.accept) (simp_all add: boot_def up_conn_def)
  have 2: "broker_step mem_engine ?bc b1 (Connect 7 ?cp) b2"
    unfolding b2_def
    by (rule broker_step.connect [OF srv2(4) _ ReadPacket_connect_frame [of defaultOptions "[]"] _ _ c])
      (simp_all add: b1_def new_packet_def wf_options_def defaultOptions_def)
  have 3: "broker_step mem_engine ?bc b2 (Receive 7 sample_inputs sample_packet) b3"
    unfolding b3_def
    by (rule broker_step.receive [OF srv2(3,2) ReadPacket_publish_frame [of "pb_pkt sample_publication" "[]", folded sample_packet_def]])
      (simp_all add: srv2(1) d, simp add: wf_publish_def sample_publication_def length_Encode sample_env_def)
  from broker_run.round [OF broker_run.round [OF broker_run.round [OF broker_run.start 1] 2] 3]
  show "broker_run mem_engine ?bc (boot sample_admin) sample_trace (sample_broker 3)" unfolding sample_trace_def b by simp
  from broker_run.round [OF broker_run.round [OF broker_run.start 1] 2]
  show "broker_run mem_engine ?bc (boot sample_admin) (take 2 sample_trace) (sample_broker 2)" unfolding sample_trace_def b by simp
  have srv: "srv_dedup srv2 = srv_dedup (bk_srv b1)" "srv_registry srv2 = srv_registry (bk_srv b1)"
    using c a by (auto simp: handleConnect_def Let_def updateSessionIdentity_def split: prod.splits option.splits)
  have "s_user s2 = None \<and> conn_up s2 \<and> s_nextPktID s2 = 1 \<and> s_inflight s2 = Map.empty"
    using c a by (auto simp: handleConnect_def Let_def newSession_def session_write_def conn_Write_def up_conn_def conn_up_def)
  then show "\<exists>s. bk_sessions (sample_broker 2) 7 = Some (Serving, s) \<and> s_user s = None \<and> conn_up s \<and> s_nextPktID s = 1
     \<and> s_inflight s = Map.empty" by (simp add: b srv2)
  have "bk_srv b1 = registerSession 7 (accept_info ''p'' 0) sample_server"
    by (simp add: b1_def boot_def sample_admin_def admin_New_def)
  with srv show "srv_dedup (bk_srv (sample_broker 2)) = Some (dedup_New None 0 0)"
    "topic_at (bk_srv (sample_broker 2)) ''t'' = Some logged_topic"
    by (simp_all add: b srv2 registerSession_def) (simp_all add: sample_server_def NewServer_def)
  show "\<not> bk_crashed (sample_broker 2)" by (simp add: b srv2)
  show "dom (bk_sessions (sample_broker 2)) = {7}" unfolding b by (simp add: b2_def e2 after_handler_def b1_def boot_def)
  have "all_sessions b1 7 = ?s1" by (simp add: b1_def all_sessions_def)
  then show "fst (handleConnect ?bc ?cp (all_sessions (sample_broker 1) 7) (bk_srv (sample_broker 1))) = None"
    unfolding b by (simp add: c e2)
  show "bk_sessions (sample_broker 3) 9 = None"
    unfolding b by (simp add: b3_def b2_def b1_def boot_def after_handler_def finish_session_def split: option.split go_error.split prod.split)
qed

text \<open>The same client subscribes to the topic with QoS 1 instead and is sent the stored message.\<close>

definition sample_subscription :: Packet where
  "sample_subscription = (new_packet TypeSubscribe)\<lparr>pkt_Subscribe := Some \<lparr>sp_PacketID = 1, sp_Topics = [\<lparr>tf_Filter = ''t'', tf_QoS = 1\<rparr>]\<rparr>\<rparr>"

lemma sample_subscribed:
  obtains s' srv' pid msg where
    "broker_run mem_engine (\<lambda>_ _. False) (boot sample_admin)
       (take 2 sample_trace @ [(sample_broker 2, Receive 7 sample_inputs sample_subscription)]) (put_session 7 Serving s' srv' (sample_broker 2))"
    "dispatch mem_engine sample_inputs sample_subscription (all_sessions (sample_broker 2) 7) (bk_srv (sample_broker 2)) = Some (None, s', srv')"
    "s_inflight s' = [pid \<mapsto> msg]" "\<not> bk_crashed (sample_broker 2)" "dom (bk_sessions (sample_broker 2)) = {7}"
    "fst (handleConnect (\<lambda>_ _. False) (connect_packet defaultOptions) (all_sessions (sample_broker 1) 7) (bk_srv (sample_broker 1))) = None"
    "push_frame sample_inputs 1 pid sample_msg \<in> set (sent s')"
proof -
  let ?E = "mem_engine" and ?bc = "\<lambda>_ _. False" and ?tf = "\<lparr>tf_Filter = ''t'', tf_QoS = 1\<rparr>" and ?b = "sample_broker 2"
  obtain s where s: "bk_sessions ?b 7 = Some (Serving, s)" "s_user s = None" "conn_up s" "s_nextPktID s = 1" "s_inflight s = Map.empty"
    using sample_trace_run(3) by blast
  obtain s' srv' pids where h: "handleSubscribe ?E sample_inputs \<lparr>sp_PacketID = 1, sp_Topics = [?tf]\<rparr> s (bk_srv ?b) = Some (None, s', srv')"
    "length pids = length [sample_msg]" "sent s' = sent s @ [WriteSubAck 1 [1]] @ map2 (push_frame sample_inputs 1) pids [sample_msg]"
    "s_inflight s' = map_of (zip pids (map (inflight_for sample_inputs ''t'') [sample_msg]))"
    using handleSubscribe_qos1 [OF badger_laws_mem _ logged_topic_ok(1), of "bk_srv ?b" ?tf s "[sample_msg]" sample_inputs 1]
      sample_trace_run(5) s by (auto simp: may_subscribe_def)
  then obtain pid where pid: "pids = [pid]" by (auto simp: length_Suc_conv)
  have d: "dispatch ?E sample_inputs sample_subscription s (bk_srv ?b) = Some (None, s', srv')"
    using h(1) by (simp add: dispatch_def new_packet_def sample_subscription_def)
  have read: "ReadPacket (subscribe_frame ''t'' 1 @ []) = Inr (sample_subscription, [])"
    using ReadPacket_subscribe_frame [of "''t''" 1 "[]"] by (simp add: sample_subscription_def)
  have "broker_step ?E ?bc ?b (Receive 7 sample_inputs sample_subscription) (after_handler 7 None s' srv' ?b)"
    by (rule broker_step.receive [OF sample_trace_run(6) s(1) read d])
  from broker_run.round [OF sample_trace_run(4) this] show ?thesis
    using that [of s' srv' pid "inflight_for sample_inputs ''t'' sample_msg"] h(3,4) pid d s(1) sample_trace_run(6,8,9)
    by (simp add: after_handler_def all_sessions_def)
qed

section \<open>Properties\<close>





end
