(* ===== verification/Broker_Logs.thy ===== *)
theory Broker_Logs
  imports Broker_System
begin

text \<open>
  The abstract contract of the whole broker: a family of logs, to which an admitted PUBLISH packet appends one
  message and on which an authenticated administration request acts; no other round of any goroutine changes them. The
  interleaved broker refines it.
\<close>

section \<open>The specification\<close>

text \<open>Whether the deduplication store has not seen the key of a publish.\<close>

definition publish_admitted :: "'d engine \<Rightarrow> 'd inputs \<Rightarrow> PublishPacket \<Rightarrow> 'd Server \<Rightarrow> bool" where
  "publish_admitted E inp pp srv =
     (case srv_dedup srv of
        None \<Rightarrow> True
      | Some d \<Rightarrow> fst (Check E (in_check inp) (in_load inp) (env_IdempotencyID (publish_env inp pp)) d) = None)"

definition spec_packet :: "'d engine \<Rightarrow> 'd inputs \<Rightarrow> Packet \<Rightarrow> session \<Rightarrow> 'd Server \<Rightarrow> (string \<Rightarrow> Message list) \<Rightarrow> (string \<Rightarrow> Message list)" where
  "spec_packet E inp pkt s srv L =
     (case (if pkt_Type pkt = TypePublish then pkt_Publish pkt else None) of
        None \<Rightarrow> L
      | Some pp \<Rightarrow>
          if may_publish s (pp_TopicName pp) \<and> publish_admitted E inp pp srv
          then L(pp_TopicName pp := L (pp_TopicName pp) @ [new_message inp pp (L (pp_TopicName pp))]) else L)"

definition spec_event :: "'d engine \<Rightarrow> 'd broker \<times> 'd event \<Rightarrow> (string \<Rightarrow> Message list) \<Rightarrow> (string \<Rightarrow> Message list)" where
  "spec_event E x L =
     (case x of (b, ev) \<Rightarrow>
      case ev of
        Receive a inp pkt \<Rightarrow>
          (case bk_sessions b a of None \<Rightarrow> L | Some (_, s) \<Rightarrow> spec_packet E inp pkt s (bk_srv b) L)
      | Serve inp r \<Rightarrow> spec_admin inp r (bk_admin b) L
      | _ \<Rightarrow> L)"

text \<open>
  What the environment supplies to a round: directories that were never opened open to what they hold, a fresh UUID is
  not the nil UUID, and the clock is in the range of 64-bit nanoseconds.
\<close>

fun event_ok :: "(path \<Rightarrow> 'd res) \<Rightarrow> 'd event \<Rightarrow> bool" where
  "event_ok opened (Receive a inp pkt) \<longleftrightarrow> in_opened inp = opened \<and> in_newV7 inp \<noteq> uuid_Nil \<and> in_int64 (in_now inp)"
| "event_ok opened (Serve inp r) \<longleftrightarrow> ai_opened inp = opened"
| "event_ok opened _ \<longleftrightarrow> True"

section \<open>The rounds that leave the logs alone\<close>

definition logs_ok :: "'d engine \<Rightarrow> ('d \<Rightarrow> bytes \<rightharpoonup> bytes) \<Rightarrow> (path \<Rightarrow> 'd res) \<Rightarrow> 'd Server \<Rightarrow> (string \<Rightarrow> Message list) \<Rightarrow> bool" where
  "logs_ok E cont opened srv L \<longleftrightarrow>
     badger_laws E cont \<and> writes_commit E \<and> server_logs cont opened srv L \<and> (\<forall>n. length (L n) < 2 ^ 63)"

lemma logs_ok_short: "logs_ok E cont opened srv L \<Longrightarrow> Suc (length (L n)) < 2 ^ 64"
  unfolding logs_ok_def by (elim conjE allE [of _ n]) simp

lemma logs_ok_topic: "logs_ok E cont opened srv L \<Longrightarrow> topic_at srv n = Some t \<Longrightarrow> topic_inv cont n (L n) t"
  using server_logs_at [of cont opened srv L n] by (simp add: logs_ok_def log_of_def)

lemma logs_ok_same_registry: "logs_ok E cont opened srv L \<Longrightarrow> srv_registry srv' = srv_registry srv \<Longrightarrow> logs_ok E cont opened srv' L"
  by (simp add: logs_ok_def server_logs_def)

lemma logs_ok_put: "logs_ok E cont opened srv L \<Longrightarrow> topic_inv cont n (L n) t \<Longrightarrow> logs_ok E cont opened (put_topic n t srv) L"
  using server_logs_put [of cont opened srv L n "L n" t] by (simp add: logs_ok_def)

lemma logs_ok_op:
  assumes "logs_ok E cont opened srv L" "topic_inv cont n (L n) t" "op_ok op" "spec_top n op (L n) = L n"
  shows "topic_inv cont n (L n) (run_top E op t)" "logs_ok E cont opened (put_topic n (run_top E op t) srv) L"
proof -
  have "badger_laws E cont" "writes_commit E" using assms(1) by (simp_all add: logs_ok_def)
  from topic_inv_step [OF this assms(2,3) logs_ok_short [OF assms(1)]] assms(4)
  show "topic_inv cont n (L n) (run_top E op t)" by simp
  then show "logs_ok E cont opened (put_topic n (run_top E op t) srv) L" by (rule logs_ok_put [OF assms(1)])
qed

lemmas logs_ok_quiet =
  logs_ok_op [where op = TSubscribe, simplified] logs_ok_op [where op = "TUnsub a" for a, simplified]
  logs_ok_op [where op = "TRecv a" for a, simplified] logs_ok_op [where op = "TSetOffset g v" for g v, simplified]

lemma logs_ok_GetOrCreate:
  assumes "logs_ok E cont opened srv L"
  obtains t reg where "GetOrCreate E opened n (srv_registry srv) = (Inr t, reg)" "topic_inv cont n (L n) t"
    "srv\<lparr>srv_registry := reg\<rparr> = put_topic n t srv" "logs_ok E cont opened (put_topic n t srv) L"
  using GetOrCreate_logs [of E cont opened srv L n] assms logs_ok_put [OF assms] unfolding logs_ok_def by blast

lemma logs_ok_unsub_topic: "logs_ok E cont opened srv L \<Longrightarrow> logs_ok E cont opened (unsub_topic n a srv) L"
  by (auto simp: unsub_topic_def intro: logs_ok_quiet logs_ok_topic split: option.split)

lemma logs_ok_deliverMessage:
  "logs_ok E cont opened srv L \<Longrightarrow> deliverMessage E inp n m qos s srv = Some (err, s', srv') \<Longrightarrow> logs_ok E cont opened srv' L"
  by (auto simp: deliverMessage_def Let_def intro: logs_ok_quiet logs_ok_topic split: if_splits option.splits prod.splits)

lemma logs_ok_deliver_all:
  "logs_ok E cont opened srv L \<Longrightarrow> deliver_all E inp n qos ms s srv = Some (err, s', srv') \<Longrightarrow> logs_ok E cont opened srv' L"
  by (induction ms arbitrary: s srv) (auto dest: logs_ok_deliverMessage split: option.splits prod.splits)

lemma logs_ok_deliver_pendings:
  "logs_ok E cont opened srv L \<Longrightarrow> deliver_pendings E inp ps s srv = Some (err, s', srv') \<Longrightarrow> logs_ok E cont opened srv' L"
  by (induction ps arbitrary: s srv) (auto dest: logs_ok_deliver_all split: option.splits prod.splits)

lemma logs_ok_handlePubAck:
  "logs_ok E cont opened srv L \<Longrightarrow> handlePubAck E pa s srv = (err, s', srv') \<Longrightarrow> logs_ok E cont opened srv' L"
  by (auto simp: handlePubAck_def intro: logs_ok_quiet logs_ok_topic split: option.splits)

lemma logs_ok_sync: "logs_ok E cont opened srv L \<Longrightarrow> logs_ok E cont opened (syncSessionTopics s srv) L"
  by (erule logs_ok_same_registry) (simp add: syncSessionTopics_def updateSessionTopics_def split: option.split)

lemma logs_ok_unsubscribe_loop:
  "logs_ok E cont opened srv L \<Longrightarrow> unsubscribe_loop ns s srv = (s', srv') \<Longrightarrow> logs_ok E cont opened srv' L"
  by (induction ns s srv rule: unsubscribe_loop.induct) (auto simp: logs_ok_unsub_topic split: option.splits)

lemma logs_ok_handleUnsubscribe:
  "logs_ok E cont opened srv L \<Longrightarrow> handleUnsubscribe up s srv = (err, s', srv') \<Longrightarrow> logs_ok E cont opened srv' L"
  by (auto simp: handleUnsubscribe_def Let_def intro: logs_ok_sync dest: logs_ok_unsubscribe_loop split: prod.splits)

lemma logs_ok_subscribe_topic:
  assumes "logs_ok E cont opened srv L" "topic_inv cont (tf_Filter tf) (L (tf_Filter tf)) t"
    and "subscribe_topic E tf t s srv = (p, s', srv')"
  shows "logs_ok E cont opened srv' L"
  using assms logs_ok_quiet(2) [OF assms(1,2)]
  by (auto simp: subscribe_topic_def Let_def split_beta intro: logs_ok_unsub_topic split: option.splits)

lemma logs_ok_subscribe_loop:
  assumes "logs_ok E cont (in_opened inp) srv L" "subscribe_loop E inp tfs codes ps s srv = (r, s', srv')"
  shows "logs_ok E cont (in_opened inp) srv' L"
  using assms
proof (induction tfs arbitrary: codes ps s srv)
  case (Cons tf tfs)
  obtain t reg where g: "GetOrCreate E (in_opened inp) (tf_Filter tf) (srv_registry srv) = (Inr t, reg)"
    "topic_inv cont (tf_Filter tf) (L (tf_Filter tf)) t" "srv\<lparr>srv_registry := reg\<rparr> = put_topic (tf_Filter tf) t srv"
    "logs_ok E cont (in_opened inp) (put_topic (tf_Filter tf) t srv) L"
    by (rule logs_ok_GetOrCreate [OF Cons.prems(1)])
  obtain p s1 srv1 where st: "subscribe_topic E tf t s (put_topic (tf_Filter tf) t srv) = (p, s1, srv1)" by (metis prod_cases3)
  from logs_ok_subscribe_topic [OF g(4,2) st] Cons.prems Cons.IH show ?case
    by (auto simp: g(1,3) st split: if_splits)
qed simp

lemma logs_ok_handleSubscribe:
  assumes "logs_ok E cont (in_opened inp) srv L" "handleSubscribe E inp sp s srv = Some (err, s', srv')"
  shows "logs_ok E cont (in_opened inp) srv' L"
proof -
  obtain r1 s1 srv1 where l: "subscribe_loop E inp (sp_Topics sp) [] [] s srv = (r1, s1, srv1)" by (metis prod_cases3)
  have "logs_ok E cont (in_opened inp) srv1 L" by (rule logs_ok_subscribe_loop [OF assms(1) l])
  with assms(2) l show ?thesis
    unfolding handleSubscribe_def
    by (auto dest: logs_ok_deliver_pendings [OF logs_ok_sync] split: sum.splits prod.splits option.splits)
qed

lemma logs_ok_live_step:
  assumes "logs_ok E cont opened srv L" "live_step E inp g s srv = Some (s', srv')"
  shows "logs_ok E cont opened srv' L"
proof -
  have r: "logs_ok E cont opened (put_topic n t' srv) L" if "topic_at srv n = Some t" "chan_recv ch t = (x, t')" for n t ch x t'
    using logs_ok_quiet(6) [OF assms(1) logs_ok_topic [OF assms(1) that(1)], of ch] that(2) by simp
  have d: "logs_ok E cont opened srv2 L"
    if "topic_at srv n = Some t" "chan_recv ch t = (x, t')" "deliverMessage E inp n m qos s (put_topic n t' srv) = Some (err, s2, srv2)"
    for n t ch x t' m qos err s2 srv2
    by (rule logs_ok_deliverMessage [OF r [OF that(1,2)] that(3)])
  show ?thesis
    using assms r by (auto simp: live_step_def Let_def dest: d split: prod.splits option.splits received.splits if_splits)
qed

lemma logs_ok_cleanup:
  assumes "logs_ok E cont opened srv L" "cleanupSubs s srv = (s', srv')"
  shows "logs_ok E cont opened srv' L"
proof -
  have un: "topic_inv cont n (L n) (unsub a t)" if "topic_inv cont n (L n) t" for n a t
    by (rule logs_ok_quiet(3) [OF assms(1) that])
  have at: "reg_topics (srv_registry srv') n = (case s_subs s n of
        None \<Rightarrow> topic_at srv n | Some a \<Rightarrow> map_option (unsub a) (topic_at srv n))"
    and dir: "TopicDataDir (srv_registry srv') n = TopicDataDir (srv_registry srv) n" for n
    using assms(2) by (auto simp: cleanupSubs_def syncSessionTopics_def updateSessionTopics_def TopicDataDir_def Let_def split: option.splits)
  have "log_of cont opened (srv_registry srv') n (L n)" for n
    using server_logs_at [of cont opened srv L n] assms(1) un
    by (auto simp: logs_ok_def log_of_def at dir split: option.splits)
  then show ?thesis using assms(1) by (simp add: logs_ok_def server_logs_def)
qed

lemma logs_ok_finish:
  assumes "logs_ok E cont opened srv L"
  shows "logs_ok E cont opened (bk_srv (finish_session a s srv b)) L"
proof -
  obtain s' srv' where c: "cleanupSubs s srv = (s', srv')" by fastforce
  from logs_ok_same_registry [OF logs_ok_cleanup [OF assms c]] c show ?thesis
    by (simp add: finish_session_def unregisterSession_def)
qed

lemma logs_ok_after:
  assumes "logs_ok E cont opened srv L" "\<And>p. err \<noteq> Some (Panic p)"
  shows "logs_ok E cont opened (bk_srv (after_handler a err s srv b)) L"
  using assms logs_ok_finish [OF assms(1)] by (auto simp: after_handler_def split: option.split go_error.split)

section \<open>Publishing\<close>

lemma wf_publish_env: "in_newV7 inp \<noteq> uuid_Nil \<Longrightarrow> in_int64 (in_now inp) \<Longrightarrow> wf_env (publish_env inp pp)"
  by (auto simp: publish_env_def wf_env_NewPublish dest: Decode_canonical split: sum.split)

lemma handlePublish_logs:
  assumes "logs_ok E cont opened srv L" "in_opened inp = opened" "in_newV7 inp \<noteq> uuid_Nil" "in_int64 (in_now inp)"
    and "handlePublish E inp pp s srv = (err, s', srv')" and n: "n = pp_TopicName pp"
  shows "server_logs cont opened srv'
    (if may_publish s n \<and> publish_admitted E inp pp srv then L(n := L n @ [new_message inp pp (L n)]) else L)"
proof -
  let ?env = "publish_env inp pp" and ?m = "new_message inp pp (L n)"
  let ?dup = "map_option (Check E (in_check inp) (in_load inp) (env_IdempotencyID ?env)) (srv_dedup srv)"
  obtain t reg where g: "GetOrCreate E opened n (srv_registry srv) = (Inr t, reg)" "topic_inv cont n (L n) t"
    "srv\<lparr>srv_registry := reg\<rparr> = put_topic n t srv" "logs_ok E cont opened (put_topic n t srv) L"
    by (rule logs_ok_GetOrCreate [OF assms(1)])
  have laws: "badger_laws E cont" "writes_commit E" "server_logs cont opened srv L" using assms(1) by (simp_all add: logs_ok_def)
  have t: "topic_log cont t (L n)" "subs_inv t" "t_name t = n" "t_seq t = word_of_nat (length (L n))"
    using g(2) by (auto simp: topic_inv_def topic_log_def)
  have msg: "published (in_serverV7 inp) ?env t = ?m" by (simp add: new_message_def t n)
  have wf: "wf_env ?env" by (rule wf_publish_env [OF assms(3,4)])
  obtain t' where t': "Publish E (in_serverV7 inp) ?env t = (Inr \<lparr>pr_Msg = ?m, pr_Duplicate = False\<rparr>, t')"
    using topic_log_Publish [OF laws(1,2) t(1,2) wf logs_ok_short [OF assms(1)], of "in_serverV7 inp"]
    unfolding msg by blast
  have inv': "topic_inv cont n (L n @ [?m]) t'"
    using topic_inv_step [OF laws(1,2) g(2), of "TPublish (in_serverV7 inp) ?env"] wf
      logs_ok_short [OF assms(1)] t' by (simp add: new_message_def n [symmetric])
  have put: "put_topic n t' ((put_topic n t srv)\<lparr>srv_dedup := x\<rparr>) = (put_topic n t' srv)\<lparr>srv_dedup := x\<rparr>" for x
    by (simp add: put_topic_def)
  note h = assms(5) [unfolded handlePublish_def n [symmetric] assms(2) g(1) Let_def prod.case sum.case g(3)]
  consider "\<not> may_publish s n" | "may_publish s n" "\<not> publish_admitted E inp pp srv" | "may_publish s n" "publish_admitted E inp pp srv" by blast
  then show ?thesis
  proof cases
    case 1
    then show ?thesis using h laws(3) by (auto simp: may_publish_def split: option.splits)
  next
    case 2
    moreover have "server_logs cont opened (put_topic n t srv) L" using g(4) by (simp add: logs_ok_def)
    ultimately show ?thesis
      using h by (auto simp: may_publish_def publish_admitted_def split: option.splits prod.splits if_splits)
  next
    case 3
    moreover have "server_logs cont opened (put_topic n t' srv) (L(n := L n @ [?m]))"
      by (rule server_logs_put [OF laws(3) inv'])
    ultimately show ?thesis
      using h by (auto simp: may_publish_def publish_admitted_def t' put split: option.splits prod.splits if_splits)
  qed
qed

text \<open>A log changes only by one message at its end.\<close>

lemma spec_packet_grows:
  "prefix (L n) (spec_packet E inp pkt s srv L n)" "length (spec_packet E inp pkt s srv L n) \<le> Suc (length (L n))"
  by (simp_all add: spec_packet_def split: option.split)

lemma dispatch_logs:
  assumes "logs_ok E cont opened srv L" "event_ok opened (Receive a inp pkt)" "dispatch E inp pkt s srv = Some (err, s', srv')"
    and "packet_complete pkt"
  shows "server_logs cont opened srv' (spec_packet E inp pkt s srv L)"
proof (cases "pkt_Type pkt = TypePublish")
  case True
  then obtain pp where pp: "pkt_Publish pkt = Some pp" using assms(4) by (auto simp: packet_complete_def)
  with True assms(3) have "handlePublish E inp pp s srv = (err, s', srv')" by (simp add: dispatch_def)
  from handlePublish_logs [OF assms(1) _ _ _ this refl] assms(2) show ?thesis
    by (simp add: spec_packet_def True pp)
next
  case False
  then have L: "spec_packet E inp pkt s srv L = L" by (simp add: spec_packet_def)
  have o: "in_opened inp = opened" using assms(2) by simp
  have "logs_ok E cont opened srv' L"
    using assms(1,3) False logs_ok_handleSubscribe [of E cont inp srv L] unfolding dispatch_def o
    by (auto dest: logs_ok_handleUnsubscribe logs_ok_handlePubAck split: if_splits option.splits prod.splits)
  then show ?thesis by (simp add: L logs_ok_def)
qed

section \<open>The broker refines the specification\<close>

lemma replayable_spec_packet:
  assumes "\<forall>n. \<forall>m \<in> set (L n). replayable m" "event_ok opened (Receive a inp pkt)"
  shows "\<forall>n. \<forall>m \<in> set (spec_packet E inp pkt s srv L n). replayable m"
proof -
  have "replayable (new_message inp pp ms)" for pp ms
    unfolding new_message_def using assms(2) by (intro replayable_message_of wf_publish_env) auto
  with assms(1) show ?thesis by (auto simp: spec_packet_def split: option.split)
qed

lemma set_sessions_admin [simp]: "bk_admin (set_sessions ss b) = bk_admin b"
  by (simp add: set_sessions_def)

lemma handleConnect_registry: "handleConnect bcrypt cp s srv = (err, s', srv') \<Longrightarrow> srv_registry srv' = srv_registry srv"
  by (auto simp: handleConnect_def Let_def updateSessionIdentity_def split: if_splits prod.splits bool.splits option.splits)

lemma broker_step_logs:
  assumes inv: "broker_inv b" and ok: "logs_ok E cont opened (bk_srv b) L"
    and rep: "\<forall>n. \<forall>m \<in> set (L n). replayable m" and ev: "event_ok opened ev"
    and fits: "\<forall>n. length (spec_event E (b, ev) L n) < 2 ^ 63" and st: "broker_step E bcrypt b ev b'"
  shows "logs_ok E cont opened (bk_srv b') (spec_event E (b, ev) L)"
    and "\<forall>n. \<forall>m \<in> set (spec_event E (b, ev) L n). replayable m"
proof -
  have "logs_ok E cont opened (bk_srv b') (spec_event E (b, ev) L) \<and> (\<forall>n. \<forall>m \<in> set (spec_event E (b, ev) L n). replayable m)"
    using st
  proof cases
    case (accept a c remote now)
    then show ?thesis using logs_ok_same_registry [OF ok] rep by (simp add: spec_event_def registerSession_def)
  next
    case (connect a s r pkt r' cp err s' srv')
    have "err \<noteq> Some (Panic p)" for p
      using broker_inv_step [OF inv st] unfolding connect(2) by (auto simp: broker_inv_def after_handler_def)
    from logs_ok_after [OF logs_ok_same_registry [OF ok handleConnect_registry [OF connect(8)]] this] rep show ?thesis
      by (simp add: connect(1,2) spec_event_def)
  next
    case (receive a s r pkt r' inp err s' srv')
    have np: "err \<noteq> Some (Panic p)" for p
      using broker_inv_step [OF inv st] unfolding receive(2) by (auto simp: broker_inv_def after_handler_def)
    have L: "spec_event E (b, ev) L = spec_packet E inp pkt s (bk_srv b) L"
      by (simp add: receive(1) spec_event_def receive(4))
    have "server_logs cont opened srv' (spec_packet E inp pkt s (bk_srv b) L)"
      by (rule dispatch_logs [OF ok ev [unfolded receive(1)] receive(6) ReadPacket_complete [OF receive(5)]])
    then have "logs_ok E cont opened srv' (spec_event E (b, ev) L)"
      using ok fits unfolding L by (simp add: logs_ok_def)
    from logs_ok_after [OF this np] replayable_spec_packet [OF rep ev [unfolded receive(1)]] show ?thesis
      unfolding receive(2) L by blast
  next
    case (leave a ph s)
    then show ?thesis using logs_ok_finish [OF ok] rep by (simp add: spec_event_def)
  next
    case (deliver a ph s g inp s' srv')
    then show ?thesis using logs_ok_live_step [OF ok deliver(6)] rep by (simp add: spec_event_def)
  next
    case (serve inp r resp ad')
    have o: "ai_opened inp = opened" using ev serve(1) by simp
    have l: "badger_laws E cont" "writes_commit E" "server_logs cont (ai_opened inp) (ad_srv (bk_admin b)) L" "\<forall>n. length (L n) < 2 ^ 63"
      using ok by (simp_all add: logs_ok_def o)
    have L: "spec_event E (b, ev) L = spec_admin inp r (bk_admin b) L" by (simp add: serve(1) spec_event_def)
    show ?thesis
      using serve_logs [OF l(1-3) rep l(4), of r] fits l(1,2) serve(4) unfolding L serve(2) by (simp add: logs_ok_def o)
  next
    case (tail n ch t fin out t')
    have ti: "topic_inv cont n (L n) t" by (rule logs_ok_topic [OF ok tail(5)])
    obtain x t1 where r: "chan_recv ch t = (x, t1)" by fastforce
    have t1: "topic_inv cont n (L n) t1" using logs_ok_quiet(5) [OF ok ti, of ch] r by simp
    have "t' = unsub ch t \<or> t' = unsub ch t1 \<or> t' = t1"
      using tail(6) r unfolding tail_step_def by (cases x) (auto split: if_splits)
    then have "topic_inv cont n (L n) t'" using logs_ok_quiet(3) [OF ok ti] logs_ok_quiet(3) [OF ok t1] t1 by blast
    from logs_ok_put [OF ok this] rep show ?thesis by (simp add: tail(1,2) spec_event_def)
  qed (use ok rep in \<open>simp_all add: spec_event_def\<close>)
  then show "logs_ok E cont opened (bk_srv b') (spec_event E (b, ev) L)"
    and "\<forall>n. \<forall>m \<in> set (spec_event E (b, ev) L n). replayable m" by blast+
qed

text \<open>The logs stay below \<open>2 ^ 63\<close> messages throughout.\<close>

definition logs_fit :: "'d engine \<Rightarrow> ('d broker \<times> 'd event) list \<Rightarrow> (string \<Rightarrow> Message list) \<Rightarrow> bool" where
  "logs_fit E tr L \<longleftrightarrow> (\<forall>k \<le> length tr. \<forall>n. length (fold (spec_event E) (take k tr) L n) < 2 ^ 63)"

lemma logs_fit_snoc:
  "logs_fit E (tr @ [x]) L \<longleftrightarrow> logs_fit E tr L \<and> (\<forall>n. length (fold (spec_event E) (tr @ [x]) L n) < 2 ^ 63)"
  by (auto simp: logs_fit_def le_Suc_eq all_conj_distrib imp_conjR take_Cons' cong: conj_cong imp_cong)

lemma broker_run_logs:
  assumes "broker_run E bcrypt b0 tr b" "broker_inv b0" "badger_laws E cont" "writes_commit E"
    and "server_logs cont opened (bk_srv b0) L" "\<forall>n. \<forall>m \<in> set (L n). replayable m"
  shows "logs_fit E tr L \<Longrightarrow> \<forall>x \<in> set tr. event_ok opened (snd x) \<Longrightarrow>
    logs_ok E cont opened (bk_srv b) (fold (spec_event E) tr L) \<and> (\<forall>n. \<forall>m \<in> set (fold (spec_event E) tr L n). replayable m)"
  using assms(1)
proof induction
  case start
  then show ?case using assms by (simp add: logs_ok_def logs_fit_def)
next
  case (round tr b ev b')
  have fit: "logs_fit E tr L" "\<forall>n. length (fold (spec_event E) (tr @ [(b, ev)]) L n) < 2 ^ 63"
    using round.prems(1) unfolding logs_fit_snoc by blast+
  have IH: "logs_ok E cont opened (bk_srv b) (fold (spec_event E) tr L)" "\<forall>n. \<forall>m \<in> set (fold (spec_event E) tr L n). replayable m"
    using round.IH [OF fit(1)] round.prems(2) by auto
  have inv: "broker_inv b" by (rule broker_inv_run [OF round.hyps(1) assms(2)])
  have ev: "event_ok opened ev" using round.prems(2) by simp
  have f: "\<forall>n. length (spec_event E (b, ev) (fold (spec_event E) tr L) n) < 2 ^ 63" using fit(2) by simp
  from broker_step_logs [OF inv IH ev f round.hyps(2)] show ?case by simp
qed

text \<open>An authenticated POST request, the only event that can shorten a log.\<close>

fun admin_write :: "'d broker \<times> 'd event \<Rightarrow> bool" where
  "admin_write (b, Serve inp r) \<longleftrightarrow> authenticated (ai_now inp) r (bk_admin b) \<and> hr_Method r = ''POST''"
| "admin_write _ \<longleftrightarrow> False"

fun publishes_to :: "string \<Rightarrow> 'd broker \<times> 'd event \<Rightarrow> bool" where
  "publishes_to n (b, Receive a inp pkt) \<longleftrightarrow> pkt_Type pkt = TypePublish \<and> map_option pp_TopicName (pkt_Publish pkt) = Some n"
| "publishes_to n _ \<longleftrightarrow> False"

lemma spec_event_grows:
  assumes "\<not> admin_write x"
  shows "prefix (L n) (spec_event E x L n)"
    "length (spec_event E x L n) \<le> length (L n) + (if publishes_to n x then 1 else 0)"
proof -
  obtain b ev where x: "x = (b, ev)" by fastforce
  have "prefix (L n) (spec_event E x L n) \<and> length (spec_event E x L n) \<le> length (L n) + (if publishes_to n x then 1 else 0)"
  proof (cases ev)
    case (Receive a inp pkt)
    then show ?thesis by (auto simp: x spec_event_def spec_packet_def split: option.split)
  next
    case (Serve inp r)
    with assms have "spec_admin inp r (bk_admin b) L = L"
      by (auto simp: x spec_admin_def request_logs_def action_log_def fun_upd_idem split: list.split)
    then show ?thesis by (simp add: x Serve spec_event_def)
  qed (simp_all add: x spec_event_def)
  then show "prefix (L n) (spec_event E x L n)"
    "length (spec_event E x L n) \<le> length (L n) + (if publishes_to n x then 1 else 0)" by blast+
qed

lemma spec_events_grow:
  "\<forall>x \<in> set tr. \<not> admin_write x \<Longrightarrow> prefix (L n) (fold (spec_event E) tr L n)
    \<and> length (fold (spec_event E) tr L n) \<le> length (L n) + length (filter (publishes_to n) tr)"
proof (induction tr arbitrary: L)
  case (Cons x tr)
  have g: "prefix (L n) (spec_event E x L n)" "length (spec_event E x L n) \<le> length (L n) + (if publishes_to n x then 1 else 0)"
    using spec_event_grows [of x] Cons.prems by auto
  have "prefix (spec_event E x L n) (fold (spec_event E) tr (spec_event E x L) n)"
    "length (fold (spec_event E) tr (spec_event E x L) n) \<le> length (spec_event E x L n) + length (filter (publishes_to n) tr)"
    using Cons.IH [of "spec_event E x L"] Cons.prems by auto
  with g show ?case by (auto intro: prefix_order.trans split: if_splits)
qed simp

section \<open>Properties\<close>



end
