(* ===== verification/Broker_Delivery.thy ===== *)
theory Broker_Delivery
  imports Broker_Logs
begin

text \<open>
  What the clients of the interleaved broker are sent. An invariant over all connections ties every message that waits in a channel, in
  flight or written to a connection to the logs of the topics, and to the permissions of the
  client's user.
\<close>

section \<open>Messages on their way\<close>

text \<open>\<open>H\<close> is the set of messages that a topic's log has held so far.\<close>

type_synonym history = "string \<Rightarrow> Message set"

definition history_ok :: "history \<Rightarrow> bool" where
  "history_ok H \<longleftrightarrow> (\<forall>n. \<forall>m \<in> H n. m_Topic m = n \<and> m_RawWire m \<noteq> [])"

definition is_publish :: "bytes \<Rightarrow> bool" where
  "is_publish f \<longleftrightarrow> f \<noteq> [] \<and> drop_bit 4 (hd f) = (3 :: byte)"

definition pushed :: "history \<Rightarrow> session \<Rightarrow> bytes \<Rightarrow> bool" where
  "pushed H s f \<longleftrightarrow>
     (\<exists>n m qos pid dup. may_subscribe s n \<and> m \<in> H n \<and> f = WritePublish n (m_RawWire m) qos pid dup)"

definition session_safe :: "history \<Rightarrow> session \<Rightarrow> bool" where
  "session_safe H s \<longleftrightarrow>
     (\<forall>f \<in> set (sent s). is_publish f \<longrightarrow> pushed H s f)
     \<and> (\<forall>g \<in> set (s_live s). may_subscribe s (fst g))
     \<and> (\<forall>i \<in> ran (s_inflight s). may_subscribe s (if_topicName i) \<and> (\<exists>m \<in> H (if_topicName i). if_wire i = m_RawWire m))"

definition waiting :: "'d Topic \<Rightarrow> Message set" where
  "waiting t = (\<Union>c \<in> ran (t_chans t). set (ch_buf c))"

definition channels_safe :: "history \<Rightarrow> 'd Server \<Rightarrow> bool" where
  "channels_safe H srv \<longleftrightarrow> (\<forall>n t. topic_at srv n = Some t \<longrightarrow> waiting t \<subseteq> H n)"

definition delivery_inv :: "history \<Rightarrow> 'd broker \<Rightarrow> bool" where
  "delivery_inv H b \<longleftrightarrow> channels_safe H (bk_srv b)
     \<and> (\<forall>a ph s. bk_sessions b a = Some (ph, s) \<longrightarrow> session_safe H s
          \<and> (ph = Greeting \<longrightarrow> sent s = [] \<and> s_live s = [] \<and> s_inflight s = Map.empty))"

lemma may_subscribe_cong: "s_user s' = s_user s \<Longrightarrow> may_subscribe s' = may_subscribe s"
  by (simp add: may_subscribe_def fun_eq_iff)

lemma pushed_cong: "s_user s' = s_user s \<Longrightarrow> pushed H s' = pushed H s"
  by (simp add: pushed_def fun_eq_iff may_subscribe_cong [of s' s])

lemma session_safe_cong:
  "session_safe H s \<Longrightarrow> s_user s' = s_user s \<Longrightarrow> sent s' = sent s \<Longrightarrow> s_live s' = s_live s \<Longrightarrow> s_inflight s' = s_inflight s \<Longrightarrow> session_safe H s'"
  by (simp add: session_safe_def pushed_cong [of s' s] may_subscribe_cong [of s' s])

lemma session_safe_mono: "session_safe H s \<Longrightarrow> (\<And>n. H n \<subseteq> H' n) \<Longrightarrow> session_safe H' s"
  unfolding session_safe_def pushed_def by blast

lemma delivery_inv_mono: "delivery_inv H b \<Longrightarrow> (\<And>n. H n \<subseteq> H' n) \<Longrightarrow> delivery_inv H' b"
  using session_safe_mono unfolding delivery_inv_def channels_safe_def by blast

lemma session_write_out:
  "session_write msg f s = (err, s') \<Longrightarrow> s' = s\<lparr>s_conn := s_conn s'\<rparr> \<and> set (sent s') \<subseteq> insert f (set (sent s))"
  by (auto simp: session_write_def conn_Write_def Let_def split: prod.splits option.splits if_splits)

lemma session_safe_write:
  assumes "session_safe H s" "session_write msg f s = (err, s')" "is_publish f \<Longrightarrow> pushed H s f"
  shows "session_safe H s'"
proof -
  have w: "s' = s\<lparr>s_conn := s_conn s'\<rparr>" "set (sent s') \<subseteq> insert f (set (sent s))"
    using session_write_out [OF assms(2)] by auto
  have e: "s_user s' = s_user s" "s_live s' = s_live s" "s_inflight s' = s_inflight s" by (subst w(1), simp)+
  show ?thesis
    using assms(1,3) w(2) unfolding session_safe_def pushed_cong [OF e(1)] may_subscribe_cong [OF e(1)] e by blast
qed

lemma session_safe_inflight:
  assumes "session_safe H s" "may_subscribe s (if_topicName i)" "m \<in> H (if_topicName i)" "if_wire i = m_RawWire m"
  shows "session_safe H (s\<lparr>s_inflight := (s_inflight s)(pid \<mapsto> i)\<rparr>)"
proof -
  let ?s = "s\<lparr>s_inflight := (s_inflight s)(pid \<mapsto> i)\<rparr>"
  have u: "s_user ?s = s_user s" by simp
  have r: "ran (s_inflight ?s) \<subseteq> insert i (ran (s_inflight s))" by (auto simp: ran_def)
  have f: "sent ?s = sent s" "s_live ?s = s_live s" by simp_all
  show ?thesis
    using assms r unfolding session_safe_def may_subscribe_cong [OF u] pushed_cong [OF u] f by blast
qed

lemma control_frames [simp]:
  "\<not> is_publish (WriteConnAck a c)" "\<not> is_publish (WritePubAck p)" "\<not> is_publish (WriteSubAck p cs)"
  "\<not> is_publish (WriteUnsubAck p)" "\<not> is_publish WritePingResp"
  by (simp_all add: is_publish_def WriteConnAck_def WritePubAck_def WriteSubAck_def WriteUnsubAck_def WritePingResp_def Let_def)

lemma session_safe_control:
  "session_safe H s \<Longrightarrow> session_write msg f s = (err, s') \<Longrightarrow> \<not> is_publish f \<Longrightarrow> session_safe H s'"
  using session_safe_write by blast

section \<open>Delivering\<close>

lemma channels_safe_put: "channels_safe H srv \<Longrightarrow> waiting t \<subseteq> H n \<Longrightarrow> channels_safe H (put_topic n t srv)"
  by (simp add: channels_safe_def)

lemma channels_safe_at: "channels_safe H srv \<Longrightarrow> topic_at srv n = Some t \<Longrightarrow> waiting t \<subseteq> H n"
  by (simp add: channels_safe_def)

lemma channels_safe_same: "channels_safe H srv \<Longrightarrow> reg_topics (srv_registry srv') = reg_topics (srv_registry srv) \<Longrightarrow> channels_safe H srv'"
  by (simp add: channels_safe_def)

lemma waiting_setOffset [simp]: "waiting (topic_setOffset E g v t) = waiting t"
  by (simp add: waiting_def topic_setOffset_def split: prod.splits)

lemma waiting_ops: "waiting (unsub a t) \<subseteq> waiting t" "waiting (snd (chan_recv a t)) \<subseteq> waiting t" "waiting (snd (Subscribe t)) \<subseteq> waiting t"
  by (auto simp: waiting_def unsub_def chan_recv_def Subscribe_def ran_def split: option.splits list.splits if_splits)

lemma chan_recv_waiting: "chan_recv a t = (Got m, t') \<Longrightarrow> m \<in> waiting t"
  by (auto simp: chan_recv_def waiting_def ran_def split: option.splits list.splits if_splits)

lemma channels_safe_unsub: "channels_safe H srv \<Longrightarrow> channels_safe H (unsub_topic n a srv)"
  using waiting_ops(1) by (fastforce simp: unsub_topic_def intro!: channels_safe_put dest: channels_safe_at split: option.splits)

lemma delivery_safe:
  assumes "history_ok H" "session_safe H s" "channels_safe H srv" "may_subscribe s n" "m \<in> H n"
    and "deliverMessage E inp n m qos s srv = Some (err, s', srv')"
  shows "session_safe H s'" "channels_safe H srv'" "s_user s' = s_user s"
proof -
  have m: "m_Topic m = n" "delivery_wire inp m = m_RawWire m"
    using assms(1,5) by (auto simp: history_ok_def delivery_wire_def)
  have p: "pushed H s1 (WritePublish n (m_RawWire m) q pid dup)" if "s_user s1 = s_user s" for s1 q pid dup
    using assms(4,5) unfolding pushed_def may_subscribe_cong [OF that] by blast
  have infl: "session_safe H (s1\<lparr>s_inflight := (s_inflight s1)(pid \<mapsto> i)\<rparr>)"
    if "s1 = s\<lparr>s_nextPktID := x\<rparr>" "if_topicName i = n" "if_wire i = m_RawWire m" for s1 pid i x
  proof (rule session_safe_inflight)
    show "session_safe H s1" by (rule session_safe_cong [OF assms(2)]) (simp_all add: that(1))
    show "may_subscribe s1 (if_topicName i)" "m \<in> H (if_topicName i)" "if_wire i = m_RawWire m"
      using assms(4,5) that by (simp_all add: may_subscribe_def)
  qed
  show "session_safe H s'"
  proof (cases "qos = 1")
    case True
    let ?i = "\<lparr>if_topicName = n, if_seq = m_Seq m, if_wire = m_RawWire m, if_qos = 1, if_sentAt = in_now inp, if_topicRef = n\<rparr>"
    obtain pid s1 where a: "allocPacketID s = Some (pid, s1)"
      "session_write ''write PUBLISH'' (WritePublish n (m_RawWire m) 1 pid False) (s1\<lparr>s_inflight := (s_inflight s1)(pid \<mapsto> ?i)\<rparr>) = (err, s')"
      using assms(6) True by (auto simp: deliverMessage_def Let_def m split: option.splits prod.splits)
    then obtain x where s1: "s1 = s\<lparr>s_nextPktID := x\<rparr>" by (auto simp: allocPacketID_def split: option.splits prod.splits)
    show ?thesis
      by (rule session_safe_write [OF infl [OF s1] a(2) p]) (simp_all add: s1)
  next
    case False
    with assms(2,6) p [of s] show ?thesis
      by (auto simp: deliverMessage_def Let_def m intro: session_safe_write split: option.splits prod.splits)
  qed
  show "channels_safe H srv'"
    using assms(3,6) by (auto simp: deliverMessage_def Let_def intro!: channels_safe_put intro: subsetD [OF channels_safe_at] split: if_splits option.splits prod.splits)
  show "s_user s' = s_user s"
    using assms(6) by (auto simp: deliverMessage_def allocPacketID_def Let_def dest!: session_write_kept split: if_splits option.splits prod.splits)
qed

lemma deliver_all_safe:
  assumes "history_ok H" "session_safe H s" "channels_safe H srv" "may_subscribe s n" "set ms \<subseteq> H n"
    and "deliver_all E inp n qos ms s srv = Some (err, s', srv')"
  shows "session_safe H s' \<and> channels_safe H srv' \<and> s_user s' = s_user s"
  using assms(2-6)
proof (induction ms arbitrary: s srv)
  case (Cons m ms)
  obtain e s1 srv1 where d: "deliverMessage E inp n m qos s srv = Some (e, s1, srv1)"
    using Cons.prems(5) by (cases "deliverMessage E inp n m qos s srv") auto
  have m: "m \<in> H n" "set ms \<subseteq> H n" using Cons.prems(4) by auto
  note f = delivery_safe [OF assms(1) Cons.prems(1-3) m(1) d]
  show ?case
    using Cons.IH [OF f(1,2) _ m(2)] Cons.prems(3,5) d f by (cases e) (auto simp: may_subscribe_cong [OF f(3)])
qed simp

definition pending_safe :: "history \<Rightarrow> session \<Rightarrow> pending \<Rightarrow> bool" where
  "pending_safe H s p \<longleftrightarrow> may_subscribe s (pd_topic p) \<and> set (pd_catchUp p) \<subseteq> H (pd_topic p)"

lemma pending_safe_cong: "s_user s' = s_user s \<Longrightarrow> pending_safe H s' = pending_safe H s"
  by (simp add: pending_safe_def fun_eq_iff may_subscribe_cong [of s' s])

lemma deliver_pendings_safe:
  assumes "history_ok H" "session_safe H s" "channels_safe H srv" "\<forall>p \<in> set ps. pending_safe H s p"
    and "deliver_pendings E inp ps s srv = Some (err, s', srv')"
  shows "session_safe H s' \<and> channels_safe H srv' \<and> s_user s' = s_user s"
  using assms(2-5)
proof (induction ps arbitrary: s srv)
  case (Cons p ps)
  obtain e s1 srv1 where d: "deliver_all E inp (pd_topic p) (pd_qos p) (pd_catchUp p) s srv = Some (e, s1, srv1)"
    using Cons.prems(4) by (cases "deliver_all E inp (pd_topic p) (pd_qos p) (pd_catchUp p) s srv") auto
  have "session_safe H s1" "channels_safe H srv1" and u: "s_user s1 = s_user s"
    using deliver_all_safe [OF assms(1) Cons.prems(1,2) _ _ d] Cons.prems(3) by (auto simp: pending_safe_def)
  with Cons.IH [of s1 srv1] Cons.prems(3,4) d show ?case by (cases e) (auto simp: pending_safe_cong [OF u])
qed simp

text \<open>A round of a delivery goroutine.\<close>

lemma session_safe_live: "session_safe H s \<Longrightarrow> session_safe H (s\<lparr>s_live := remove1 g (s_live s)\<rparr>)"
  using set_remove1_subset [of g "s_live s"] unfolding session_safe_def pushed_def may_subscribe_def by auto

lemma live_step_safe:
  assumes "history_ok H" "session_safe H s" "channels_safe H srv" "g \<in> set (s_live s)"
    and "live_step E inp g s srv = Some (s', srv')"
  shows "session_safe H s' \<and> channels_safe H srv'"
proof -
  obtain n ch qos where g: "g = (n, ch, qos)" by (cases g) auto
  have sub: "may_subscribe s n" using assms(2,4) by (auto simp: session_safe_def g)
  show ?thesis
  proof (cases "topic_at srv n")
    case (Some t)
    obtain x t' where r: "chan_recv ch t = (x, t')" by fastforce
    have w: "waiting t \<subseteq> H n" by (rule channels_safe_at [OF assms(3) Some])
    have c: "channels_safe H (put_topic n t' srv)"
      using channels_safe_put [OF assms(3), of t' n] waiting_ops(2) [of ch t] w r by auto
    show ?thesis
    proof (cases x)
      case (Got m)
      then have "m \<in> H n" using chan_recv_waiting w r by blast
      note del = delivery_safe [OF assms(1,2) c sub this]
      have d: "session_safe H s2 \<and> channels_safe H srv2"
        if "deliverMessage E inp n m qos s (put_topic n t' srv) = Some (err, s2, srv2)" for err s2 srv2
        using del [OF that] by blast
      show ?thesis
        using assms(2,5) Some r Got c by (auto simp: g live_step_def Let_def intro: session_safe_live dest!: d split: option.splits if_splits)
    qed (use assms Some r in \<open>auto simp: g live_step_def intro: session_safe_live\<close>)
  qed (use assms in \<open>simp add: g live_step_def\<close>)
qed

lemma resend_safe:
  assumes "session_safe H s" "may_subscribe s (if_topicName i)" "m \<in> H (if_topicName i)" "if_wire i = m_RawWire m"
  shows "session_safe H (resend now (pid, i) s)" "s_user (resend now (pid, i) s) = s_user s"
proof -
  let ?f = "WritePublish (if_topicName i) (if_wire i) (if_qos i) pid True"
  obtain err s1 where w: "session_write ''write PUBLISH'' ?f s = (err, s1)" by fastforce
  have "pushed H s ?f" using assms(2,3) unfolding pushed_def assms(4) by blast
  then have s1: "session_safe H s1" using session_safe_write [OF assms(1) w] by blast
  have u: "s_user s1 = s_user s" using session_write_kept [OF w] by simp
  have "session_safe H (s1\<lparr>s_inflight := (s_inflight s1)(pid \<mapsto> j\<lparr>if_sentAt := now\<rparr>)\<rparr>)" if "s_inflight s1 pid = Some j" for j
  proof -
    have "j \<in> ran (s_inflight s1)" using that by (auto simp: ran_def)
    with s1 obtain m' where "may_subscribe s1 (if_topicName j)" "m' \<in> H (if_topicName j)" "if_wire j = m_RawWire m'"
      unfolding session_safe_def by blast
    then show ?thesis using session_safe_inflight [OF s1, of "j\<lparr>if_sentAt := now\<rparr>"] by simp
  qed
  with s1 u show "session_safe H (resend now (pid, i) s)" "s_user (resend now (pid, i) s) = s_user s"
    by (auto simp: resend_def w split: option.split)
qed

lemma retransmit_safe:
  assumes "session_safe H s"
  shows "session_safe H (retransmit_tick order now now2 s)"
proof -
  have fold: "session_safe H (fold (resend now2) xs s1)"
    if "session_safe H s1" "\<forall>(pid, i) \<in> set xs. may_subscribe s1 (if_topicName i) \<and> (\<exists>m \<in> H (if_topicName i). if_wire i = m_RawWire m)" for xs s1
    using that
  proof (induction xs arbitrary: s1)
    case (Cons x xs)
    obtain pid i where x: "x = (pid, i)" by fastforce
    obtain m where m: "may_subscribe s1 (if_topicName i)" "m \<in> H (if_topicName i)" "if_wire i = m_RawWire m"
      using Cons.prems(2) by (auto simp: x)
    note r = resend_safe [OF Cons.prems(1) m]
    from Cons.IH [OF r(1)] Cons.prems(2) show ?case by (simp add: x may_subscribe_cong [OF r(2)])
  qed simp
  have "the (s_inflight s pid) \<in> ran (s_inflight s)" if "due now s pid" for pid
    using that by (auto simp: due_def ran_def split: option.splits)
  with assms show ?thesis
    unfolding retransmit_tick_def by (intro fold) (auto simp: session_safe_def)
qed

section \<open>Subscribing\<close>

lemma waiting_GetOrCreate:
  assumes "GetOrCreate E opened n (srv_registry srv) = (res, reg)" "channels_safe H srv"
  shows "channels_safe H (srv\<lparr>srv_registry := reg\<rparr>)"
proof -
  have new: "waiting t = {}" if "topic_New E n o' = (Inr t, x)" for o' t x
    using that by (auto simp: waiting_def topic_New_def newFromDB_def loadSeq_def Let_def split: sum.splits prod.splits option.splits if_splits)
  show ?thesis
    using assms by (auto simp: GetOrCreate_def channels_safe_def Let_def new split: option.splits prod.splits sum.splits if_splits) blast
qed

lemma session_safe_add_live:
  assumes "session_safe H s" "\<forall>g \<in> set gs. may_subscribe s (fst g)"
  shows "session_safe H (s\<lparr>s_live := s_live s @ gs\<rparr>)"
proof -
  have u: "s_user (s\<lparr>s_live := s_live s @ gs\<rparr>) = s_user s" by simp
  show ?thesis using assms unfolding session_safe_def may_subscribe_cong [OF u] pushed_cong [OF u] by auto
qed

lemma subscribe_topic_safe:
  assumes "logs_ok E cont opened srv L" "\<And>n. set (L n) \<subseteq> H n" "channels_safe H srv" "may_subscribe s (tf_Filter tf)"
    and "topic_inv cont (tf_Filter tf) (L (tf_Filter tf)) t" "waiting t \<subseteq> H (tf_Filter tf)"
    and "subscribe_topic E tf t s srv = (p, s', srv')"
  shows "pending_safe H s p" "channels_safe H srv'" "s_user s' = s_user s \<and> sent s' = sent s \<and> s_live s' = s_live s \<and> s_inflight s' = s_inflight s"
proof -
  let ?n = "tf_Filter tf"
  note eff = subscribe_topic_effect [OF assms(7)]
  have "catch_up_messages E (s_clientID s) t = take 500 (drop (unat (offsets_Get (t_offsets t) (s_clientID s))) (L ?n))"
    using assms(1,5) by (intro catch_up_messages_log) (auto simp: logs_ok_def topic_inv_def)
  then have "set (catch_up_messages E (s_clientID s) t) \<subseteq> H ?n"
    using assms(2) [of ?n] by (metis in_set_dropD in_set_takeD subset_iff)
  with assms(4) show "pending_safe H s p" by (simp add: pending_safe_def eff(1))
  have "channels_safe H (put_topic ?n (snd (Subscribe t)) srv)"
    using channels_safe_put [OF assms(3)] waiting_ops(3) assms(6) by blast
  then show "channels_safe H srv'"
    using assms(7) by (auto simp: subscribe_topic_def Let_def split_beta intro: channels_safe_unsub split: option.splits)
  show "s_user s' = s_user s \<and> sent s' = sent s \<and> s_live s' = s_live s \<and> s_inflight s' = s_inflight s" by (simp add: eff(2))
qed

lemma subscribe_loop_safe:
  assumes "\<And>n. set (L n) \<subseteq> H n"
  shows "logs_ok E cont (in_opened inp) srv L \<Longrightarrow> channels_safe H srv \<Longrightarrow> \<forall>p \<in> set ps. pending_safe H s p \<Longrightarrow>
    subscribe_loop E inp tfs codes ps s srv = (r, s', srv') \<Longrightarrow>
    channels_safe H srv' \<and> s_user s' = s_user s \<and> sent s' = sent s \<and> s_live s' = s_live s \<and> s_inflight s' = s_inflight s
    \<and> (\<forall>codes' ps'. r = Inr (codes', ps') \<longrightarrow> (\<forall>p \<in> set ps'. pending_safe H s p))"
proof (induction tfs arbitrary: codes ps s srv)
  case (Cons tf tfs)
  let ?n = "tf_Filter tf"
  obtain t reg where g: "GetOrCreate E (in_opened inp) ?n (srv_registry srv) = (Inr t, reg)"
    "topic_inv cont ?n (L ?n) t" "srv\<lparr>srv_registry := reg\<rparr> = put_topic ?n t srv" "logs_ok E cont (in_opened inp) (put_topic ?n t srv) L"
    by (rule logs_ok_GetOrCreate [OF Cons.prems(1)])
  show ?case
  proof (cases "may_subscribe s ?n")
    case False
    then have d: "(case s_user s of None \<Rightarrow> False | Some u \<Rightarrow> \<not> CanSubscribe u ?n)" by (auto simp: may_subscribe_def split: option.splits)
    with Cons.prems(4) have "subscribe_loop E inp tfs (codes @ [0x80]) ps s srv = (r, s', srv')" by simp
    from Cons.IH [OF Cons.prems(1,2,3) this] show ?thesis .
  next
    case True
    then have d: "\<not> (case s_user s of None \<Rightarrow> False | Some u \<Rightarrow> \<not> CanSubscribe u ?n)" by (auto simp: may_subscribe_def split: option.splits)
    have c: "channels_safe H (put_topic ?n t srv)" using waiting_GetOrCreate [OF g(1) Cons.prems(2)] g(3) by simp
    obtain p s1 srv1 where st: "subscribe_topic E tf t s (put_topic ?n t srv) = (p, s1, srv1)" by (metis prod_cases3)
    have w: "waiting t \<subseteq> H ?n" using channels_safe_at [OF c] by simp
    note f = subscribe_topic_safe [OF g(4) assms c True g(2) w st]
    have u: "s_user s1 = s_user s" using f(3) by simp
    have "\<forall>q \<in> set (ps @ [p]). pending_safe H s1 q" using f(1) Cons.prems(3) by (auto simp: pending_safe_cong [OF u])
    note IH = Cons.IH [OF logs_ok_subscribe_topic [OF g(4,2) st] f(2) this, unfolded pending_safe_cong [OF u]]
    have "subscribe_loop E inp tfs (codes @ [pd_qos p]) (ps @ [p]) s1 srv1 = (r, s', srv')"
      using Cons.prems(4) d by (simp add: g(1,3) st)
    from IH [OF this] f(3) show ?thesis by simp
  qed
qed auto

lemma pendings_then_live_safe:
  assumes "history_ok H" "session_safe H s" "channels_safe H srv" "\<forall>p \<in> set ps. pending_safe H s p"
    and "(case deliver_pendings E inp ps s srv of
            None \<Rightarrow> None
          | Some (Some err, s, srv) \<Rightarrow> Some (Some err, s, srv)
          | Some (None, s, srv) \<Rightarrow> Some (None, s\<lparr>s_live := s_live s @ map (\<lambda>p. (pd_topic p, pd_ch p, pd_qos p)) ps\<rparr>, srv))
        = Some (err, s', srv')"
  shows "session_safe H s' \<and> channels_safe H srv'"
proof -
  obtain e s1 srv1 where d: "deliver_pendings E inp ps s srv = Some (e, s1, srv1)"
    using assms(5) by (cases "deliver_pendings E inp ps s srv") auto
  have f: "session_safe H s1" "channels_safe H srv1" "s_user s1 = s_user s"
    using deliver_pendings_safe [OF assms(1-4) d] by auto
  have "\<forall>p \<in> set ps. may_subscribe s1 (pd_topic p)" using assms(4) by (simp add: pending_safe_def may_subscribe_cong [OF f(3)])
  then have "session_safe H (s1\<lparr>s_live := s_live s1 @ map (\<lambda>p. (pd_topic p, pd_ch p, pd_qos p)) ps\<rparr>)"
    by (intro session_safe_add_live [OF f(1)]) simp
  with f assms(5) d show ?thesis by (cases e) auto
qed

lemma handleSubscribe_safe:
  assumes "history_ok H" "\<And>n. set (L n) \<subseteq> H n" "logs_ok E cont (in_opened inp) srv L"
    and "session_safe H s" "channels_safe H srv" "handleSubscribe E inp sp s srv = Some (err, s', srv')"
  shows "session_safe H s' \<and> channels_safe H srv'"
proof -
  obtain r1 s1 srv1 where l: "subscribe_loop E inp (sp_Topics sp) [] [] s srv = (r1, s1, srv1)" by (metis prod_cases3)
  note loop = subscribe_loop_safe [OF assms(2,3,5) _ l, simplified]
  have f: "channels_safe H srv1" "s_user s1 = s_user s" "session_safe H s1"
    using loop session_safe_cong [OF assms(4), of s1] by auto
  show ?thesis
  proof (cases r1)
    case (Inl e)
    with assms(6) l f show ?thesis by (auto simp: handleSubscribe_def)
  next
    case (Inr x)
    then obtain codes ps where x: "r1 = Inr (codes, ps)" by (cases x) auto
    obtain e2 s2 where w: "session_write ''write SUBACK'' (WriteSubAck (sp_PacketID sp) codes) s1 = (e2, s2)" by fastforce
    have s2: "session_safe H s2" by (rule session_safe_control [OF f(3) w control_frames(3)])
    have u: "s_user s2 = s_user s" using session_write_kept [OF w] f(2) by simp
    have c: "channels_safe H (syncSessionTopics s2 srv1)"
      by (rule channels_safe_same [OF f(1)]) (simp add: syncSessionTopics_def updateSessionTopics_def split: option.split)
    have ps: "\<forall>p \<in> set ps. pending_safe H s2 p" using loop x by (simp add: pending_safe_cong [OF u])
    show ?thesis
    proof (cases e2)
      case (Some e)
      with assms(6) l x w s2 f(1) show ?thesis by (simp add: handleSubscribe_def)
    next
      case None
      show ?thesis
        by (rule pendings_then_live_safe [OF assms(1) s2 c ps, where E = E and inp = inp and err = err])
          (use assms(6) l x w None in \<open>simp add: handleSubscribe_def\<close>)
    qed
  qed
qed

section \<open>The other rounds\<close>

lemma waiting_Publish:
  assumes "subs_inv t"
  shows "waiting (snd (Publish E v env t)) \<subseteq> insert (published v env t) (waiting t)"
  using assms
proof (cases rule: Publish_cases [where E = E and ?newV7.0 = v and env = env])
  case (stored d)
  have "set (ch_buf (offer m c)) \<subseteq> insert m (set (ch_buf c))" for m c by (auto simp: offer_def)
  with stored(2) show ?thesis by (fastforce simp: waiting_def ran_def split: if_splits)
next
  case (failed err d)
  then show ?thesis by (auto simp: waiting_def)
qed

lemma puback_if_safe: "session_safe H s \<Longrightarrow> session_safe H (snd (puback_if pp s))"
  by (cases "session_write ''write PUBACK'' (WritePubAck (pp_PacketID pp)) s") (auto simp: puback_if_def intro: session_safe_control)

lemma handlePublish_session: "handlePublish E inp pp s srv = (err, s', srv') \<Longrightarrow> s' = s \<or> s' = snd (puback_if pp s)"
  by (auto simp: handlePublish_def Let_def split: if_splits option.splits prod.splits sum.splits)

lemma handlePublish_safe:
  assumes "logs_ok E cont (in_opened inp) srv L" "channels_safe H srv"
    and "may_publish s n \<Longrightarrow> publish_admitted E inp pp srv \<Longrightarrow> new_message inp pp (L n) \<in> H n" "n = pp_TopicName pp"
    and "session_safe H s" "handlePublish E inp pp s srv = (err, s', srv')"
  shows "session_safe H s' \<and> channels_safe H srv'"
proof -
  obtain t reg where g: "GetOrCreate E (in_opened inp) n (srv_registry srv) = (Inr t, reg)" "topic_inv cont n (L n) t"
    "srv\<lparr>srv_registry := reg\<rparr> = put_topic n t srv" "logs_ok E cont (in_opened inp) (put_topic n t srv) L"
    by (rule logs_ok_GetOrCreate [OF assms(1)])
  have c: "channels_safe H (put_topic n t srv)" using waiting_GetOrCreate [OF g(1) assms(2)] g(3) by simp
  have t: "subs_inv t" "t_name t = n" "t_seq t = word_of_nat (length (L n))" "waiting t \<subseteq> H n"
    using g(2) channels_safe_at [OF c, of n t] by (auto simp: topic_inv_def topic_log_def)
  have msg: "published (in_serverV7 inp) (publish_env inp pp) t = new_message inp pp (L n)"
    by (simp add: new_message_def t assms(4))
  have pub: "channels_safe H (put_topic n t' ((put_topic n t srv)\<lparr>srv_dedup := x\<rparr>))"
    if "Publish E (in_serverV7 inp) (publish_env inp pp) t = (r, t')" "may_publish s n" "publish_admitted E inp pp srv" for r t' x
  proof (rule channels_safe_put)
    show "channels_safe H ((put_topic n t srv)\<lparr>srv_dedup := x\<rparr>)" by (rule channels_safe_same [OF c]) simp
    show "waiting t' \<subseteq> H n"
      using waiting_Publish [OF t(1), of E "in_serverV7 inp" "publish_env inp pp"] that(1) assms(3) [OF that(2,3)] t(4) msg by auto
  qed
  have dd: "channels_safe H (srv1\<lparr>srv_dedup := x\<rparr>) = channels_safe H srv1" for x and srv1 :: "'a Server"
    by (simp add: channels_safe_def)
  note h = assms(6) [unfolded handlePublish_def assms(4) [symmetric] g(1) Let_def prod.case sum.case g(3)]
  have "channels_safe H srv'"
  proof (cases "may_publish s n \<and> publish_admitted E inp pp srv")
    case True
    with h pub dd c show ?thesis
      by (auto simp: may_publish_def publish_admitted_def split: option.splits prod.splits if_splits sum.splits)
  next
    case False
    with h dd c assms(2) show ?thesis
      by (auto simp: may_publish_def publish_admitted_def split: option.splits prod.splits if_splits sum.splits)
  qed
  with handlePublish_session [OF assms(6)] assms(5) puback_if_safe show ?thesis by blast
qed

lemma handlePubAck_safe:
  assumes "session_safe H s" "channels_safe H srv" "handlePubAck E pa s srv = (err, s', srv')"
  shows "session_safe H s' \<and> channels_safe H srv'"
proof -
  have "session_safe H (s\<lparr>s_inflight := (s_inflight s)(p := None)\<rparr>)" for p
  proof -
    let ?s = "s\<lparr>s_inflight := (s_inflight s)(p := None)\<rparr>"
    have u: "s_user ?s = s_user s" and f: "sent ?s = sent s" "s_live ?s = s_live s" by simp_all
    have "ran (s_inflight ?s) \<subseteq> ran (s_inflight s)" by (auto simp: ran_def split: if_splits)
    then show ?thesis
      using assms(1) unfolding session_safe_def may_subscribe_cong [OF u] pushed_cong [OF u] f by blast
  qed
  with assms show ?thesis
    by (auto simp: handlePubAck_def intro!: channels_safe_put intro: subsetD [OF channels_safe_at] split: option.splits)
qed

lemma unsubscribe_loop_safe:
  "session_safe H s \<Longrightarrow> channels_safe H srv \<Longrightarrow> unsubscribe_loop ns s srv = (s', srv') \<Longrightarrow> session_safe H s' \<and> channels_safe H srv'"
proof (induction ns s srv rule: unsubscribe_loop.induct)
  case (2 n ns s srv)
  have "session_safe H (s\<lparr>s_subs := x, s_subQoS := y\<rparr>)" for x y by (rule session_safe_cong [OF 2(3)]) simp_all
  with 2 show ?case by (auto simp: channels_safe_unsub split: option.splits)
qed simp

lemma handleUnsubscribe_safe:
  assumes "session_safe H s" "channels_safe H srv" "handleUnsubscribe up s srv = (err, s', srv')"
  shows "session_safe H s' \<and> channels_safe H srv'"
proof -
  obtain s1 srv1 where u: "unsubscribe_loop (up_Topics up) s srv = (s1, srv1)" by fastforce
  obtain e s2 where w: "session_write ''write UNSUBACK'' (WriteUnsubAck (up_PacketID up)) s1 = (e, s2)" by fastforce
  have f: "session_safe H s1" "channels_safe H srv1" using unsubscribe_loop_safe [OF assms(1,2) u] by auto
  have "channels_safe H (syncSessionTopics s1 srv1)"
    by (rule channels_safe_same [OF f(2)]) (simp add: syncSessionTopics_def updateSessionTopics_def split: option.split)
  with session_safe_control [OF f(1) w control_frames(4)] assms(3) u w show ?thesis by (simp add: handleUnsubscribe_def Let_def)
qed

lemma dispatch_safe:
  assumes "history_ok H" "\<And>n. set (L n) \<subseteq> H n" "\<And>n. set (spec_packet E inp pkt s srv L n) \<subseteq> H n"
    and "logs_ok E cont (in_opened inp) srv L" "session_safe H s" "channels_safe H srv"
    and "dispatch E inp pkt s srv = Some (err, s', srv')"
  shows "session_safe H s' \<and> channels_safe H srv'"
proof -
  have pub: "session_safe H s' \<and> channels_safe H srv'"
    if "pkt_Type pkt = TypePublish" "pkt_Publish pkt = Some pp" "handlePublish E inp pp s srv = (err, s', srv')" for pp
    using assms(3) [of "pp_TopicName pp"] that(1,2)
    by (intro handlePublish_safe [OF assms(4,6) _ refl assms(5) that(3)]) (simp add: spec_packet_def)
  show ?thesis
    using assms(7) pub handleSubscribe_safe [OF assms(1,2,4-6)] handlePubAck_safe [OF assms(5,6)] handleUnsubscribe_safe [OF assms(5,6)]
      session_safe_control [OF assms(5) _ control_frames(5)] assms(5,6)
    unfolding dispatch_def by (auto split: if_splits option.splits prod.splits)
qed

subsection \<open>Administration requests\<close>

lemma replay_grows: "set ms \<subseteq> set (fold (spec_top n) (replay_ops ids i sel) ms)"
  by (induction sel arbitrary: i ms) (simp, fastforce)

lemma replay_waiting:
  assumes "badger_laws E cont" "writes_commit E"
  shows "topic_inv cont n ms t \<Longrightarrow> \<forall>m \<in> set sel. replayable m \<Longrightarrow> length ms + length sel < 2 ^ 64 \<Longrightarrow>
    waiting (fold (run_top E) (replay_ops ids i sel) t) \<subseteq> waiting t \<union> set (fold (spec_top n) (replay_ops ids i sel) ms)"
proof (induction sel arbitrary: i ms t)
  case (Cons m sel)
  let ?op = "TPublish (ids i) (replay_env m)" and ?env = "replay_env m"
  have ti: "topic_inv cont n (spec_top n ?op ms) (run_top E ?op t)"
    using topic_inv_step [OF assms Cons.prems(1), of ?op] Cons.prems(2,3) by (simp add: replayable_def)
  have t: "subs_inv t" "t_name t = n" "t_seq t = word_of_nat (length ms)" using Cons.prems(1) by (auto simp: topic_inv_def topic_log_def)
  have "waiting (run_top E ?op t) \<subseteq> waiting t \<union> set (spec_top n ?op ms)"
    using waiting_Publish [OF t(1), of E "ids i" ?env] by (auto simp: t(2,3))
  moreover have "set (spec_top n ?op ms) \<subseteq> set (fold (spec_top n) (replay_ops ids (Suc i) sel) (spec_top n ?op ms))"
    by (rule replay_grows)
  moreover note Cons.IH [OF ti, of "Suc i"]
  ultimately show ?case using Cons.prems(2,3) by auto
qed simp

lemma topic_action_waiting:
  assumes "badger_laws E cont" "writes_commit E" "topic_inv cont n ms t" "\<forall>m \<in> set ms. replayable m" "length ms < 2 ^ 63"
    and "topic_action E inp r n action t = (resp, t')"
  shows "waiting t' \<subseteq> waiting t \<union> set (action_log inp r n action ms)"
proof -
  have seq: "t_seq t = word_of_nat (length ms)" using assms(3) by (simp add: topic_inv_def topic_log_def)
  have sel: "\<forall>m \<in> set (replay_selection r ms). replayable m" "length ms + length (replay_selection r ms) < 2 ^ 64"
    using assms(4,5) set_replay_selection [of r ms] length_replay_selection [of r ms] by auto
  note rw = replay_waiting [OF assms(1-3) sel, of "ai_newV7 inp" 0]
  consider "action = ''tail''" "hr_Upgrade r = ''websocket''" | "action = ''replay''" "hr_Method r = ''POST''"
    | "action = ''purge''" "hr_Method r = ''POST''"
    | "\<not> (action = ''tail'' \<and> hr_Upgrade r = ''websocket'')" "\<not> (action = ''replay'' \<and> hr_Method r = ''POST'')"
      "\<not> (action = ''purge'' \<and> hr_Method r = ''POST'')" by blast
  then show ?thesis
  proof cases
    case 1
    obtain ch t1 where s: "Subscribe t = (ch, t1)" by fastforce
    then have "waiting t1 \<subseteq> waiting t" using waiting_ops(3) [of t] by simp
    with 1 assms(6) s waiting_ops(1) [of ch t1] show ?thesis
      by (auto simp: topic_action_def handleTailWS_def split: if_splits)
  next
    case 2
    with assms(6) rw show ?thesis
      by (auto simp: topic_action_def handleReplay_log [OF assms(1-5)] action_log_def seq split: if_splits)
  next
    case 3
    have "waiting t1 = waiting t" if "Purge E t = (x, t1)" for x t1
      using that by (auto simp: Purge_def waiting_def Let_def split: prod.splits option.splits)
    with 3 assms(6) show ?thesis by (auto simp: topic_action_def split: prod.splits option.splits)
  next
    case 4
    then have "t' = t" using assms(6) unfolding topic_action_def by (auto simp: Let_def split: if_splits sum.splits)
    then show ?thesis by simp
  qed
qed

lemma handleTopicSub_safe:
  assumes "logs_ok E cont (ai_opened inp) (ad_srv ad) L" "\<forall>n. \<forall>m \<in> set (L n). replayable m"
    and "channels_safe H (ad_srv ad)" "\<And>n. set (request_logs inp r L n) \<subseteq> H n" "handleTopicSub E inp r ad = (resp, ad')"
  shows "channels_safe H (ad_srv ad')"
proof -
  obtain n rest where parts: "split_levels (drop (length ''/api/topics/'') (hr_Path r)) = n # rest"
    by (meson list.exhaust split_levels_not_Nil)
  obtain t reg where g: "GetOrCreate E (ai_opened inp) n (srv_registry (ad_srv ad)) = (Inr t, reg)" "topic_inv cont n (L n) t"
    "(ad_srv ad)\<lparr>srv_registry := reg\<rparr> = put_topic n t (ad_srv ad)" "logs_ok E cont (ai_opened inp) (put_topic n t (ad_srv ad)) L"
    by (rule logs_ok_GetOrCreate [OF assms(1)])
  have c: "channels_safe H (put_topic n t (ad_srv ad))" using waiting_GetOrCreate [OF g(1) assms(3)] g(3) by simp
  have act: "channels_safe H (put_topic n t' (put_topic n t (ad_srv ad)))"
    if "topic_action E inp r n action t = (x, t')" "rest = action # more" "n \<noteq> ''''" for action x t' more
  proof (rule channels_safe_put [OF c])
    have "waiting t' \<subseteq> waiting t \<union> set (action_log inp r n action (L n))"
      by (rule topic_action_waiting [OF _ _ g(2) _ _ that(1)]) (use assms(1,2) in \<open>simp_all add: logs_ok_def\<close>)
    moreover have "request_logs inp r L n = action_log inp r n action (L n)"
      unfolding request_logs_def parts that(2) using that(3) by simp
    ultimately show "waiting t' \<subseteq> H n" using assms(4) [of n] channels_safe_at [OF c, of n t] by auto
  qed
  note h = assms(5) [unfolded handleTopicSub_def Let_def get_topic_GetOrCreate parts list.sel g(1) prod.case sum.case]
  show ?thesis
  proof (cases "n = ''''")
    case False
    then show ?thesis using h c act by (cases rest) (auto simp: g(3) split: prod.splits)
  qed (use h assms(3) in simp)
qed

lemma serve_safe:
  assumes "logs_ok E cont (ai_opened inp) (ad_srv ad) L" "\<forall>n. \<forall>m \<in> set (L n). replayable m"
    and "channels_safe H (ad_srv ad)" "\<And>n. set (spec_admin inp r ad L n) \<subseteq> H n" "serve E inp r ad = (resp, ad')"
  shows "channels_safe H (ad_srv ad')"
proof (cases "authenticated (ai_now inp) r ad \<and> prefix ''/api/topics/'' (hr_Path r)
    \<and> (hr_Method r = ''CONNECT'' \<or> clean_path (hr_Path r) = hr_Path r)")
  case True
  then have p: "hr_Path r \<noteq> ''/api/login''" "\<not> prefix ''/api/admin/'' (hr_Path r)" "hr_Path r \<noteq> ''/api/state''"
    "hr_Path r \<noteq> ''/api/clients''" "hr_Path r \<noteq> ''/api/topics''"
    by (auto simp: prefix_def)
  with True assms(5) have h: "handleTopicSub E inp r ad = (resp, ad')" by (auto simp: serve_def mux_def Let_def)
  have "set (request_logs inp r L n) \<subseteq> H n" for n using True assms(4) [of n] by (simp add: spec_admin_def)
  then show ?thesis by (rule handleTopicSub_safe [OF assms(1-3) _ h])
next
  case False
  have "ad_srv ad' = ad_srv ad"
  proof (cases "prefix ''/api/topics/'' (hr_Path r)")
    case True
    then have "prefix ''/api/'' (hr_Path r)" "hr_Path r \<noteq> ''/api/login''" "\<not> prefix ''/api/admin/'' (hr_Path r)" by (auto simp: prefix_def)
    with True False assms(5) show ?thesis by (auto simp: serve_def mux_def Let_def split: if_splits)
  next
    case no: False
    with assms(5) show ?thesis
      by (auto simp: serve_def mux_def handleLogin_def handleRestart_def Let_def split: if_splits option.splits)
  qed
  with assms(3) show ?thesis by simp
qed

section \<open>The invariant\<close>

lemma delivery_inv_put:
  assumes "delivery_inv H b" "channels_safe H srv" "session_safe H s"
    and "ph = Greeting \<Longrightarrow> sent s = [] \<and> s_live s = [] \<and> s_inflight s = Map.empty"
  shows "delivery_inv H (put_session a ph s srv b)"
  using assms by (auto simp: delivery_inv_def)

lemma delivery_inv_finish:
  assumes "delivery_inv H b" "channels_safe H srv" "session_safe H s"
  shows "delivery_inv H (finish_session a s srv b)"
proof -
  obtain s' srv' where c: "cleanupSubs s srv = (s', srv')" by fastforce
  have at: "reg_topics (srv_registry srv') n = (case s_subs s n of
      None \<Rightarrow> topic_at srv n | Some x \<Rightarrow> map_option (unsub x) (topic_at srv n))" for n
    using c by (auto simp: cleanupSubs_def syncSessionTopics_def updateSessionTopics_def Let_def split: option.splits)
  have "waiting t \<subseteq> H n" if t: "topic_at srv' n = Some t" for n t
  proof -
    obtain t0 where t0: "topic_at srv n = Some t0" "t = t0 \<or> (\<exists>x. t = unsub x t0)"
      using t unfolding at by (auto split: option.splits)
    then show ?thesis using channels_safe_at [OF assms(2) t0(1)] waiting_ops(1) [of _ t0] by blast
  qed
  then have "channels_safe H (unregisterSession a srv')"
    by (simp add: channels_safe_def unregisterSession_def)
  moreover have "session_safe H (session_Close s')"
  proof -
    have "s' = s\<lparr>s_subs := Map.empty, s_subQoS := Map.empty, s_inflight := Map.empty\<rparr>"
      using c by (simp add: cleanupSubs_def Let_def)
    then have e: "s_user (session_Close s') = s_user s" "sent (session_Close s') = sent s"
      "s_live (session_Close s') = s_live s" "s_inflight (session_Close s') = Map.empty"
      by (simp_all add: session_Close_def)
    show ?thesis
      using assms(3) unfolding session_safe_def e pushed_cong [OF e(1)] may_subscribe_cong [OF e(1)] by simp
  qed
  ultimately have "delivery_inv H (put_session a Ended (session_Close s') (unregisterSession a srv') b)"
    by (rule delivery_inv_put [OF assms(1)]) simp
  with c show ?thesis by (simp add: finish_session_def)
qed

lemma delivery_inv_after:
  assumes "delivery_inv H b" "channels_safe H srv" "session_safe H s"
  shows "delivery_inv H (after_handler a err s srv b)"
proof -
  have "delivery_inv H (b\<lparr>bk_crashed := x\<rparr>)" for x using assms(1) by (simp add: delivery_inv_def)
  with delivery_inv_finish [OF assms] delivery_inv_put [OF assms, of Serving] show ?thesis
    by (auto simp: after_handler_def split: option.split go_error.split)
qed

lemma connack_safe:
  assumes "sent s = []" "s_live s = []" "s_inflight s = Map.empty"
  shows "session_safe H (snd (session_write msg (WriteConnAck x code) s))"
proof -
  have "session_safe H s" by (simp add: session_safe_def assms)
  then show ?thesis using session_safe_control [OF _ surjective_pairing control_frames(1)] by blast
qed

lemma handleConnect_safe:
  assumes "sent s = []" "s_live s = []" "s_inflight s = Map.empty"
  shows "session_safe H (fst (snd (handleConnect bcrypt cp s srv)))"
proof -
  have safe: "session_safe H (snd (session_write msg (WriteConnAck x code) (s\<lparr>s_clientID := c, s_user := u\<rparr>)))"
    "session_safe H (snd (session_write msg (WriteConnAck x code) (s\<lparr>s_clientID := c\<rparr>)))" for msg x code c u
    by (rule connack_safe; simp add: assms)+
  show ?thesis
    unfolding handleConnect_def Let_def by (simp add: split_beta safe split: bool.split prod.split)
qed

lemma delivery_inv_at:
  assumes "delivery_inv H b" "bk_sessions b a = Some (ph, s)"
  shows "session_safe H s" "channels_safe H (bk_srv b)"
    and "ph = Greeting \<Longrightarrow> sent s = [] \<and> s_live s = [] \<and> s_inflight s = Map.empty"
  using assms by (auto simp: delivery_inv_def)

lemma delivery_inv_closing:
  assumes "delivery_inv H b" "\<And>a. ss a = all_sessions b a \<or> ss a = session_Close (all_sessions b a)"
  shows "delivery_inv H (set_sessions ss b)"
proof -
  have "session_safe H s' \<and> (ph = Greeting \<longrightarrow> sent s' = [] \<and> s_live s' = [] \<and> s_inflight s' = Map.empty)"
    if at: "bk_sessions (set_sessions ss b) a = Some (ph, s')" for a ph s'
  proof -
    obtain s where s: "bk_sessions b a = Some (ph, s)" "s' = s \<or> s' = session_Close s"
      using at assms(2) [of a] by (cases "bk_sessions b a") (auto simp: set_sessions_def all_sessions_def)
    have e: "s_user s' = s_user s" "sent s' = sent s" "s_live s' = s_live s" "s_inflight s' = s_inflight s"
      using s(2) by (auto simp: session_Close_def)
    show ?thesis using delivery_inv_at [OF assms(1) s(1)] session_safe_cong [OF _ e] by (simp add: e)
  qed
  then show ?thesis using assms(1) by (simp add: delivery_inv_def)
qed

lemma resend_blank: "retransmit_tick order now now2 s = s" if "s_inflight s = Map.empty"
  using that by (simp add: retransmit_tick_def due_def)

lemma delivery_inv_step:
  assumes inv: "delivery_inv H b" and H: "history_ok H" "\<And>n. set (L n) \<subseteq> H n" "\<And>n. set (spec_event E (b, ev) L n) \<subseteq> H n"
    and ok: "logs_ok E cont opened (bk_srv b) L" "\<forall>n. \<forall>m \<in> set (L n). replayable m" "event_ok opened ev"
    and st: "broker_step E bcrypt b ev b'"
  shows "delivery_inv H b'"
  using st
proof cases
  case (accept a c remote now)
  have "channels_safe H (registerSession a (accept_info remote now) (bk_srv b))"
    using inv by (simp add: delivery_inv_def channels_safe_def registerSession_def)
  then show ?thesis
    unfolding accept(2) by (rule delivery_inv_put [OF inv]) (simp_all add: session_safe_def newSession_def accept(5))
next
  case (connect a s r pkt r' cp err s' srv')
  note f = delivery_inv_at [OF inv connect(4)]
  have "session_safe H s'" using handleConnect_safe [of s H bcrypt cp "bk_srv b"] f(3) connect(8) by simp
  moreover have "channels_safe H srv'"
    by (rule channels_safe_same [OF f(2)]) (simp add: handleConnect_registry [OF connect(8)])
  ultimately show ?thesis unfolding connect(2) by (intro delivery_inv_after [OF inv])
next
  case (receive a s r pkt r' inp err s' srv')
  note f = delivery_inv_at [OF inv receive(4)]
  have o: "in_opened inp = opened" using ok(3) receive(1) by simp
  have "session_safe H s' \<and> channels_safe H srv'"
  proof (rule dispatch_safe [OF H(1,2) _ ok(1) [folded o] f(1,2) receive(6)])
    show "set (spec_packet E inp pkt s (bk_srv b) L n) \<subseteq> H n" for n
      using H(3) [of n] by (simp add: receive(1,4) spec_event_def)
  qed
  then show ?thesis unfolding receive(2) by (intro delivery_inv_after [OF inv]) auto
next
  case (leave a ph s)
  show ?thesis
    unfolding leave(2) using delivery_inv_at [OF inv leave(4)] by (intro delivery_inv_finish [OF inv])
next
  case (deliver a ph s g inp s' srv')
  note f = delivery_inv_at [OF inv deliver(4)]
  have "session_safe H s' \<and> channels_safe H srv'" by (rule live_step_safe [OF H(1) f(1,2) deliver(5,6)])
  then show ?thesis unfolding deliver(2) using f(3) deliver(5) by (intro delivery_inv_put [OF inv]) auto
next
  case (tick a ph s order now now2)
  note f = delivery_inv_at [OF inv tick(4)]
  show ?thesis
    unfolding tick(2) using f(3) resend_blank [of s]
    by (intro delivery_inv_put [OF inv f(2) retransmit_safe [OF f(1)]]) auto
next
  case (kick order c)
  show ?thesis unfolding kick(2) by (rule delivery_inv_closing [OF inv]) (rule KickClient_closes)
next
  case (stop order)
  show ?thesis unfolding stop(2) by (rule delivery_inv_closing [OF inv]) (rule Shutdown_closes)
next
  case (serve inp r resp ad')
  have o: "ai_opened inp = opened" using ok(3) serve(1) by simp
  have "channels_safe H (ad_srv ad')"
  proof (rule serve_safe [OF ok(1) [folded o] ok(2) _ _ serve(4)])
    show "channels_safe H (bk_srv b)" using inv by (simp add: delivery_inv_def)
    show "set (spec_admin inp r (bk_admin b) L n) \<subseteq> H n" for n using H(3) [of n] by (simp add: serve(1) spec_event_def)
  qed
  with inv show ?thesis by (simp add: serve(2) delivery_inv_def)
next
  case (tail n ch t fin out t')
  have c: "channels_safe H (bk_srv b)" using inv by (simp add: delivery_inv_def)
  obtain x t1 where r: "chan_recv ch t = (x, t1)" by fastforce
  have "t' = unsub ch t \<or> t' = unsub ch t1 \<or> t' = t1"
    using tail(6) r unfolding tail_step_def by (cases x) (auto split: if_splits)
  then have "waiting t' \<subseteq> waiting t" using waiting_ops(1) [of ch] waiting_ops(2) [of ch t] r by auto
  with channels_safe_at [OF c tail(5)] have "channels_safe H (put_topic n t' (bk_srv b))"
    by (intro channels_safe_put [OF c]) blast
  with inv show ?thesis by (simp add: tail(2) delivery_inv_def)
qed

section \<open>Runs\<close>

text \<open>Every message that was in the log of a topic before or after some event of a run.\<close>

definition ever_logged :: "'d engine \<Rightarrow> ('d broker \<times> 'd event) list \<Rightarrow> (string \<Rightarrow> Message list) \<Rightarrow> history" where
  "ever_logged E tr L n = (\<Union>k \<in> {..length tr}. set (fold (spec_event E) (take k tr) L n))"

lemma ever_logged_snoc:
  "ever_logged E (tr @ [x]) L n = ever_logged E tr L n \<union> set (fold (spec_event E) (tr @ [x]) L n)"
  by (auto simp: ever_logged_def atMost_Suc)

lemma ever_logged_last: "set (fold (spec_event E) tr L n) \<subseteq> ever_logged E tr L n"
  by (auto simp: ever_logged_def)

lemma server_logs_messages:
  assumes "server_logs cont opened srv L" "m \<in> set (L n)"
  shows "m_Topic m = n \<and> m_RawWire m \<noteq> []"
proof -
  obtain c where c: "db_msgs c n (L n)"
    using server_logs_at [OF assms(1), of n] by (auto simp: log_of_def topic_inv_def topic_log_def db_log_def split: option.splits)
  obtain i where i: "i < length (L n)" "m = L n ! i" using assms(2) by (metis in_set_conv_nth)
  have "unat (word_of_nat (Suc i) :: u64) = Suc i" using c i(1) by (simp add: db_msgs_def unat_of_nat del: of_nat_Suc)
  then have "log_at (L n) (word_of_nat (Suc i)) = Some m" using i by (auto simp: log_at_def simp del: of_nat_Suc)
  then have s: "stored_message n (word_of_nat (Suc i)) (m_RawWire m) = Inr m" using c by (simp add: db_msgs_def)
  have "TryDecode [] = None" using TryDecode_Some_iff [of "[]"] length_Encode
    by (metis add_is_0 length_0_conv not_None_eq zero_neq_numeral)
  then have "decodeStoredMessage n [] = Inl (Err ''decode message: buffer too short'')"
    by (simp add: decodeStoredMessage_def)
  with s have "m_RawWire m \<noteq> []" by (auto simp: stored_message_def)
  moreover have "m_Topic m = n"
    using s by (cases m) (auto simp: stored_message_def decodeStoredMessage_def split: option.splits if_splits sum.splits)
  ultimately show ?thesis by blast
qed

lemma broker_run_delivery:
  assumes "broker_run E bcrypt b0 tr b" "broker_inv b0" "badger_laws E cont" "writes_commit E"
    and "server_logs cont opened (bk_srv b0) L" "\<forall>n. \<forall>m \<in> set (L n). replayable m"
    and "delivery_inv (\<lambda>n. set (L n)) b0"
  shows "logs_fit E tr L \<Longrightarrow> \<forall>x \<in> set tr. event_ok opened (snd x) \<Longrightarrow>
    history_ok (ever_logged E tr L) \<and> delivery_inv (ever_logged E tr L) b"
  using assms(1)
proof induction
  case start
  have "ever_logged E [] L = (\<lambda>n. set (L n))" by (simp add: ever_logged_def fun_eq_iff)
  then show ?case using assms(7) server_logs_messages [OF assms(5)] by (simp add: history_ok_def)
next
  case (round tr b ev b')
  let ?x = "(b, ev)" and ?L = "fold (spec_event E) tr L"
  have fit: "logs_fit E tr L" using round.prems(1) unfolding logs_fit_snoc by blast
  have ok: "\<forall>x \<in> set tr. event_ok opened (snd x)" "event_ok opened ev" using round.prems(2) by simp_all
  have IH: "history_ok (ever_logged E tr L)" "delivery_inv (ever_logged E tr L) b" using round.IH [OF fit ok(1)] by auto
  note logs = broker_run_logs [OF round.hyps(1) assms(2-6) fit ok(1)]
  have run': "broker_run E bcrypt b0 (tr @ [?x]) b'" by (rule broker_run.round [OF round.hyps])
  have logs': "server_logs cont opened (bk_srv b') (fold (spec_event E) (tr @ [?x]) L)"
    using broker_run_logs [OF run' assms(2-6) round.prems] by (simp add: logs_ok_def)
  have hist: "history_ok (ever_logged E (tr @ [?x]) L)"
    using IH(1) server_logs_messages [OF logs'] by (auto simp: history_ok_def ever_logged_snoc)
  have mono: "ever_logged E tr L n \<subseteq> ever_logged E (tr @ [?x]) L n" for n by (auto simp: ever_logged_snoc)
  have "delivery_inv (ever_logged E (tr @ [?x]) L) b'"
  proof (rule delivery_inv_step [OF delivery_inv_mono [OF IH(2) mono] hist, where L = ?L and cont = cont])
    show "set (?L n) \<subseteq> ever_logged E (tr @ [?x]) L n" for n
      using ever_logged_last [of E tr L n] mono [of n] by blast
    show "set (spec_event E ?x ?L n) \<subseteq> ever_logged E (tr @ [?x]) L n" for n by (auto simp: ever_logged_snoc)
  qed (use logs ok(2) round.hyps(2) in auto)
  with hist show ?case by blast
qed

section \<open>Properties\<close>

text \<open>
  C3 (what a client is sent). Take the storage engine's documented laws, and let its writes succeed. However the connections, deliveries, timers and administration
  requests interleave: every PUBLISH frame that the broker has written to any connection, at first, as catch-up or as a
  retransmission, is the stored wire form of a message that was in the log of a topic to which the user of that
  connection may subscribe, under the name of that topic. No client is sent a message that was never logged, nor one of a topic that its access list denies.
\<close>

theorem clients_only_sent_logged_messages:
  assumes "badger_laws E cont" "writes_commit E"
    and "server_inv (ad_srv ad)" "srv_sessions (ad_srv ad) = Map.empty" "\<forall>n. subs_of (ad_srv ad) n = {}"
    and "\<forall>n t. topic_at (ad_srv ad) n = Some t \<longrightarrow> t_chans t = Map.empty"
    and "server_logs cont opened (ad_srv ad) L" "\<forall>n. \<forall>m \<in> set (L n). replayable m"
    and "broker_run E bcrypt (boot ad) tr b" "\<forall>x \<in> set tr. event_ok opened (snd x)" "logs_fit E tr L"
    and "bk_sessions b a = Some (ph, s)" "f \<in> set (sent s)" "is_publish f"
  shows "\<exists>n m k qos pid dup. k \<le> length tr \<and> m \<in> set (fold (spec_event E) (take k tr) L n)
    \<and> may_subscribe s n \<and> f = WritePublish n (m_RawWire m) qos pid dup"
proof -
  have inv: "broker_inv (boot ad)" by (rule broker_inv_boot [OF assms(3-5)])
  have "waiting t \<subseteq> set (L n)" if "topic_at (ad_srv ad) n = Some t" for n t using assms(6) that by (simp add: waiting_def)
  then have "delivery_inv (\<lambda>n. set (L n)) (boot ad)" by (simp add: delivery_inv_def channels_safe_def boot_def)
  from broker_run_delivery [OF assms(9) inv assms(1,2) _ assms(8) this assms(11,10)] assms(7)
  have "delivery_inv (ever_logged E tr L) b" by (simp add: boot_def)
  from delivery_inv_at(1) [OF this assms(12)] assms(13,14) have "pushed (ever_logged E tr L) s f" by (simp add: session_safe_def)
  then show ?thesis unfolding pushed_def ever_logged_def by fastforce
qed

theorem clients_only_sent_logged_messages_witness:
  "\<exists>tr b s f. broker_run mem_engine (\<lambda>_ _. False) (boot sample_admin) tr b \<and> bk_sessions b 7 = Some (Serving, s)
     \<and> f \<in> set (sent s) \<and> is_publish f
     \<and> (\<exists>n (m :: Message) qos pid dup. m_RawWire m \<noteq> [] \<and> may_subscribe s n \<and> f = WritePublish n (m_RawWire m) qos pid dup)"
proof -
  let ?E = "mem_engine" and ?bc = "\<lambda>_ _. False" and ?L = "(\<lambda>_. [])(''t'' := [sample_msg])"
  let ?tr = "take 2 sample_trace @ [(sample_broker 2, Receive 7 sample_inputs sample_subscription)]"
  obtain s' srv' pid msg where run: "broker_run ?E ?bc (boot sample_admin) ?tr (put_session 7 Serving s' srv' (sample_broker 2))"
    and f: "push_frame sample_inputs 1 pid sample_msg \<in> set (sent s')"
    by (rule sample_subscribed)
  let ?b' = "put_session 7 Serving s' srv' (sample_broker 2)"
  have pub: "is_publish (push_frame sample_inputs 1 pid sample_msg)"
    by (simp add: push_frame_def is_publish_def WritePublish_def Let_def)
  have b': "bk_sessions ?b' 7 = Some (Serving, s')" by simp
  have L: "fold (spec_event ?E) (take k ?tr) ?L = ?L" for k
    by (simp add: sample_trace_def take_Cons' spec_event_def spec_packet_def sample_subscription_def new_packet_def split: option.split)
  have fit: "logs_fit ?E ?tr ?L" unfolding logs_fit_def L by simp
  have ok: "\<forall>x \<in> set ?tr. event_ok (\<lambda>_. Inr []) (snd x)"
    by (simp add: sample_trace_def sample_inputs_def in_int64_def)
  have logs: "server_logs map_of (\<lambda>_. Inr []) (ad_srv sample_admin) ?L"
    using sample_server_logs by (simp add: sample_admin_def admin_New_def)
  have rep: "\<forall>n. \<forall>m \<in> set (?L n). replayable m" using replayable_sample by simp
  have ch: "\<forall>n t. topic_at (ad_srv sample_admin) n = Some t \<longrightarrow> t_chans t = Map.empty"
    by (auto simp: sample_admin_def admin_New_def sample_server_def NewServer_def logged_topic_def)
  note only_logged = clients_only_sent_logged_messages [OF badger_laws_mem writes_commit_mem sample_admin_start ch logs rep run ok fit b' f pub]
  then obtain n m qos p dup where c: "m \<in> set (?L n)" "may_subscribe s' n"
    "push_frame sample_inputs 1 pid sample_msg = WritePublish n (m_RawWire m) qos p dup" unfolding L by blast
  have "\<exists>n (m :: Message) qos pid' dup. m_RawWire m \<noteq> [] \<and> may_subscribe s' n
      \<and> push_frame sample_inputs 1 pid sample_msg = WritePublish n (m_RawWire m) qos pid' dup"
    using server_logs_messages [OF logs c(1)] c(2,3) by blast
  then show ?thesis by (intro exI [of _ ?tr] exI [of _ ?b'] exI [of _ s'] exI [of _ "push_frame sample_inputs 1 pid sample_msg"] conjI run b' f pub)
qed

end
