(* ===== verification/Metrics.thy ===== *)
theory Metrics
  imports Broker_System
begin

text \<open>
  The metrics of the broker (\<^verbatim>\<open>core/metrics/metrics.go\<close>) and every place where the session updates them
  (\<^verbatim>\<open>core/transport/mqtt/session.go\<close>). Each \<open>_met\<close> definition follows the handler of the same name and gives the
  values after it; \<open>event_met\<close> does so for an event of the interleaved broker. The values are numbers here, which a
  \<^verbatim>\<open>float64\<close> holds exactly below \<open>2\<^sup>5\<^sup>3\<close>.
\<close>

section \<open>Model\<close>

record metrics =
  ConnectionsActive :: int
  PublishTotal :: "string \<times> string \<times> string \<Rightarrow> nat"
  PublishDuplicates :: "string \<Rightarrow> nat"
  DeliverTotal :: "string \<times> string \<times> string \<Rightarrow> nat"
  RetransmitTotal :: "string \<Rightarrow> nat"
  InflightMessages :: int
  DedupCacheSize :: int
  TopicSeq :: "string \<rightharpoonup> nat"

definition no_metrics :: metrics where
  "no_metrics = \<lparr>ConnectionsActive = 0, PublishTotal = (\<lambda>_. 0), PublishDuplicates = (\<lambda>_. 0), DeliverTotal = (\<lambda>_. 0),
     RetransmitTotal = (\<lambda>_. 0), InflightMessages = 0, DedupCacheSize = 0, TopicSeq = Map.empty\<rparr>"

text \<open>\<^verbatim>\<open>WithLabelValues(ls).Inc()\<close> on a vector of counters.\<close>

definition inc :: "'k \<Rightarrow> ('k \<Rightarrow> nat) \<Rightarrow> ('k \<Rightarrow> nat)" where
  "inc k f = f(k := Suc (f k))"

definition qos_label :: "byte \<Rightarrow> string" where
  "qos_label q = itoa (uint q)"

definition count_publish :: "PublishPacket \<Rightarrow> string \<Rightarrow> metrics \<Rightarrow> metrics" where
  "count_publish pp result met = met\<lparr>PublishTotal := inc (pp_TopicName pp, qos_label (pp_QoS pp), result) (PublishTotal met)\<rparr>"

definition set_dedup_size :: "'d dedupStore option \<Rightarrow> metrics \<Rightarrow> metrics" where
  "set_dedup_size d met = (case d of None \<Rightarrow> met | Some s \<Rightarrow> met\<lparr>DedupCacheSize := int (dedup_Size s)\<rparr>)"

definition handlePublish_met :: "'d engine \<Rightarrow> 'd inputs \<Rightarrow> PublishPacket \<Rightarrow> session \<Rightarrow> 'd Server \<Rightarrow> metrics \<Rightarrow> metrics" where
  "handlePublish_met E inp pp s srv met =
     (if (case s_user s of None \<Rightarrow> False | Some u \<Rightarrow> \<not> CanPublish u (pp_TopicName pp))
      then count_publish pp ''denied'' met
      else let env = publish_env inp pp in
      case GetOrCreate E (in_opened inp) (pp_TopicName pp) (srv_registry srv) of
        (Inl err, reg) \<Rightarrow> count_publish pp ''error'' met
      | (Inr t, reg) \<Rightarrow>
          let looked = map_option (Check E (in_check inp) (in_load inp) (env_IdempotencyID env)) (srv_dedup srv) in
          if (case looked of Some (Some _, _) \<Rightarrow> True | _ \<Rightarrow> False)
          then set_dedup_size (map_option snd looked)
                 (count_publish pp ''duplicate'' (met\<lparr>PublishDuplicates := inc (pp_TopicName pp) (PublishDuplicates met)\<rparr>))
          else case Publish E (in_serverV7 inp) env t of
            (Inl err, t') \<Rightarrow> count_publish pp ''error'' met
          | (Inr result, t') \<Rightarrow>
              let dedup = map_option (Remember E (in_remember inp) (env_IdempotencyID env)
                            (m_ServerMsgID (pr_Msg result)) (m_Seq (pr_Msg result))) (map_option snd looked);
                  met = count_publish pp ''ok'' (set_dedup_size dedup met) in
              met\<lparr>TopicSeq := (TopicSeq met)(pp_TopicName pp \<mapsto> unat (t_seq t'))\<rparr>)"

definition count_deliver :: "string \<Rightarrow> string \<Rightarrow> go_error option \<Rightarrow> metrics \<Rightarrow> metrics" where
  "count_deliver n q err met = met\<lparr>DeliverTotal := inc (n, q, if err = None then ''ok'' else ''error'') (DeliverTotal met)\<rparr>"

definition deliverMessage_met :: "'d inputs \<Rightarrow> string \<Rightarrow> Message \<Rightarrow> byte \<Rightarrow> session \<Rightarrow> metrics \<Rightarrow> metrics" where
  "deliverMessage_met inp n m qos s met =
     (let wire = delivery_wire inp m in
      if qos = 1
      then case allocPacketID s of
             None \<Rightarrow> met
           | Some (pid, s) \<Rightarrow>
               count_deliver n ''1'' (fst (session_write ''write PUBLISH'' (WritePublish (m_Topic m) wire 1 pid False) s))
                 (met\<lparr>InflightMessages := InflightMessages met + 1\<rparr>)
      else count_deliver n ''0'' (fst (session_write ''write PUBLISH'' (WritePublish (m_Topic m) wire 0 0 False) s)) met)"

fun deliver_all_met :: "'d engine \<Rightarrow> 'd inputs \<Rightarrow> string \<Rightarrow> byte \<Rightarrow> Message list \<Rightarrow> session \<Rightarrow> 'd Server \<Rightarrow> metrics \<Rightarrow> metrics" where
  "deliver_all_met E inp n qos [] s srv met = met"
| "deliver_all_met E inp n qos (m # ms) s srv met =
     (let met = deliverMessage_met inp n m qos s met in
      case deliverMessage E inp n m qos s srv of
        Some (None, s, srv) \<Rightarrow> deliver_all_met E inp n qos ms s srv met
      | _ \<Rightarrow> met)"

fun deliver_pendings_met :: "'d engine \<Rightarrow> 'd inputs \<Rightarrow> pending list \<Rightarrow> session \<Rightarrow> 'd Server \<Rightarrow> metrics \<Rightarrow> metrics" where
  "deliver_pendings_met E inp [] s srv met = met"
| "deliver_pendings_met E inp (p # ps) s srv met =
     (let met = deliver_all_met E inp (pd_topic p) (pd_qos p) (pd_catchUp p) s srv met in
      case deliver_all E inp (pd_topic p) (pd_qos p) (pd_catchUp p) s srv of
        Some (None, s, srv) \<Rightarrow> deliver_pendings_met E inp ps s srv met
      | _ \<Rightarrow> met)"

definition handleSubscribe_met :: "'d engine \<Rightarrow> 'd inputs \<Rightarrow> SubscribePacket \<Rightarrow> session \<Rightarrow> 'd Server \<Rightarrow> metrics \<Rightarrow> metrics" where
  "handleSubscribe_met E inp sp s srv met =
     (case subscribe_loop E inp (sp_Topics sp) [] [] s srv of
        (Inl err, s, srv) \<Rightarrow> met
      | (Inr (codes, ps), s, srv) \<Rightarrow>
          (case session_write ''write SUBACK'' (WriteSubAck (sp_PacketID sp) codes) s of
             (Some err, s) \<Rightarrow> met
           | (None, s) \<Rightarrow> deliver_pendings_met E inp ps s (syncSessionTopics s srv) met))"

definition live_step_met :: "'d inputs \<Rightarrow> string \<times> nat \<times> byte \<Rightarrow> session \<Rightarrow> 'd Server \<Rightarrow> metrics \<Rightarrow> metrics" where
  "live_step_met inp g s srv met =
     (case g of (n, ch, qos) \<Rightarrow>
      case topic_at srv n of
        None \<Rightarrow> met
      | Some t \<Rightarrow>
          (case chan_recv ch t of
             (Got m, t') \<Rightarrow>
               if m_Seq m \<le> offsets_Get (t_offsets t') (s_clientID s) then met else deliverMessage_met inp n m qos s met
           | _ \<Rightarrow> met))"

definition handlePubAck_met :: "PubAckPacket \<Rightarrow> session \<Rightarrow> metrics \<Rightarrow> metrics" where
  "handlePubAck_met pa s met =
     (case s_inflight s (pa_PacketID pa) of
        None \<Rightarrow> met
      | Some msg \<Rightarrow> met\<lparr>InflightMessages := InflightMessages met - 1\<rparr>)"

definition resend_met :: "u16 \<times> inflightMsg \<Rightarrow> session \<Rightarrow> metrics \<Rightarrow> metrics" where
  "resend_met item s met =
     (case item of (pid, msg) \<Rightarrow>
      case session_write ''write PUBLISH'' (WritePublish (if_topicName msg) (if_wire msg) (if_qos msg) pid True) s of
        (Some err, s) \<Rightarrow> met
      | (None, s) \<Rightarrow> met\<lparr>RetransmitTotal := inc (if_topicName msg) (RetransmitTotal met)\<rparr>)"

definition retransmit_tick_met :: "u16 list \<Rightarrow> gotime \<Rightarrow> gotime \<Rightarrow> session \<Rightarrow> metrics \<Rightarrow> metrics" where
  "retransmit_tick_met order now now2 s met =
     snd (fold (\<lambda>item (s, met). (resend now2 item s, resend_met item s met))
            (map (\<lambda>pid. (pid, the (s_inflight s pid))) (filter (due now s) order)) (s, met))"

definition dispatch_met :: "'d engine \<Rightarrow> 'd inputs \<Rightarrow> Packet \<Rightarrow> session \<Rightarrow> 'd Server \<Rightarrow> metrics \<Rightarrow> metrics" where
  "dispatch_met E inp pkt s srv met =
     (if pkt_Type pkt = TypePublish
      then (case pkt_Publish pkt of None \<Rightarrow> met | Some pp \<Rightarrow> handlePublish_met E inp pp s srv met)
      else if pkt_Type pkt = TypeSubscribe
      then (case pkt_Subscribe pkt of None \<Rightarrow> met | Some sp \<Rightarrow> handleSubscribe_met E inp sp s srv met)
      else if pkt_Type pkt = TypePubAck
      then (case pkt_PubAck pkt of None \<Rightarrow> met | Some pa \<Rightarrow> handlePubAck_met pa s met)
      else met)"

text \<open>The deferred \<^verbatim>\<open>ConnectionsActive.Dec()\<close> of \<open>Handle\<close>; a handler's error ends the loop.\<close>

definition ended_met :: "metrics \<Rightarrow> metrics" where
  "ended_met met = met\<lparr>ConnectionsActive := ConnectionsActive met - 1\<rparr>"

definition after_met :: "go_error option \<Rightarrow> metrics \<Rightarrow> metrics" where
  "after_met err met = (case err of None \<Rightarrow> met | Some _ \<Rightarrow> ended_met met)"

fun event_met :: "'d engine \<Rightarrow> (bytes \<Rightarrow> bytes \<Rightarrow> bool) \<Rightarrow> 'd broker \<times> 'd event \<Rightarrow> metrics \<Rightarrow> metrics" where
  "event_met E bcrypt (b, Accept a c remote now) met = met\<lparr>ConnectionsActive := ConnectionsActive met + 1\<rparr>"
| "event_met E bcrypt (b, Connect a cp) met = after_met (fst (handleConnect bcrypt cp (all_sessions b a) (bk_srv b))) met"
| "event_met E bcrypt (b, Receive a inp pkt) met =
     (let met = dispatch_met E inp pkt (all_sessions b a) (bk_srv b) met in
      case dispatch E inp pkt (all_sessions b a) (bk_srv b) of None \<Rightarrow> met | Some (err, _) \<Rightarrow> after_met err met)"
| "event_met E bcrypt (b, Leave a) met = ended_met met"
| "event_met E bcrypt (b, Deliver a inp g) met = live_step_met inp g (all_sessions b a) (bk_srv b) met"
| "event_met E bcrypt (b, Tick a order now now2) met = retransmit_tick_met order now now2 (all_sessions b a) met"
| "event_met E bcrypt (b, _) met = met"

definition metered :: "'d engine \<Rightarrow> (bytes \<Rightarrow> bytes \<Rightarrow> bool) \<Rightarrow> ('d broker \<times> 'd event) list \<Rightarrow> metrics" where
  "metered E bcrypt tr = fold (event_met E bcrypt) tr no_metrics"

section \<open>The gauge of messages in flight\<close>

definition in_flight :: "session \<Rightarrow> int" where
  "in_flight s = int (card (dom (s_inflight s)))"

definition all_in_flight :: "'d broker \<Rightarrow> int" where
  "all_in_flight b = (\<Sum>a \<in> dom (bk_sessions b). in_flight (all_sessions b a))"

definition connected :: "'d broker \<Rightarrow> nat set" where
  "connected b = {a. \<exists>ph s. bk_sessions b a = Some (ph, s) \<and> ph \<noteq> Ended}"

text \<open>The messages in flight that the end of a connection discards.\<close>

fun dropped :: "'d engine \<Rightarrow> (bytes \<Rightarrow> bytes \<Rightarrow> bool) \<Rightarrow> 'd broker \<times> 'd event \<Rightarrow> int" where
  "dropped E bcrypt (b, Connect a cp) =
     (case handleConnect bcrypt cp (all_sessions b a) (bk_srv b) of
        (None, s, srv) \<Rightarrow> 0 | (Some _, s, srv) \<Rightarrow> in_flight s)"
| "dropped E bcrypt (b, Receive a inp pkt) =
     (case dispatch E inp pkt (all_sessions b a) (bk_srv b) of Some (Some _, s, srv) \<Rightarrow> in_flight s | _ \<Rightarrow> 0)"
| "dropped E bcrypt (b, Leave a) = in_flight (all_sessions b a)"
| "dropped E bcrypt (b, _) = 0"

abbreviation flies :: "metrics \<Rightarrow> session \<Rightarrow> metrics \<Rightarrow> session \<Rightarrow> bool" where
  "flies met s met' s' \<equiv> InflightMessages met' - InflightMessages met = in_flight s' - in_flight s
     \<and> ConnectionsActive met' = ConnectionsActive met"

lemma count_fields [simp]:
  "InflightMessages (count_deliver n q err met) = InflightMessages met"
  "ConnectionsActive (count_deliver n q err met) = ConnectionsActive met"
  "InflightMessages (count_publish pp r met) = InflightMessages met"
  "ConnectionsActive (count_publish pp r met) = ConnectionsActive met"
  "InflightMessages (set_dedup_size d met) = InflightMessages met"
  "ConnectionsActive (set_dedup_size d met) = ConnectionsActive met"
  by (simp_all add: count_deliver_def count_publish_def set_dedup_size_def split: option.split)

lemma session_write_inflight: "session_write m f s = (err, s') \<Longrightarrow> s_inflight s' = s_inflight s"
  by (auto simp: session_write_def split: prod.splits)

lemma deliverMessage_flies:
  assumes "deliverMessage E inp n m qos s srv = Some (err, s', srv')"
  shows "flies met s (deliverMessage_met inp n m qos s met) s'"
proof (cases "qos = 1")
  case True
  obtain pid nx msg where a: "alloc_loop (s_inflight s) (s_nextPktID s) = Some (pid, nx)"
    "s_inflight s' = (s_inflight s)(pid \<mapsto> msg)"
    using assms True by (auto simp: deliverMessage_def allocPacketID_def Let_def dest!: session_write_inflight split: option.splits prod.splits)
  have "pid \<notin> dom (s_inflight s)" using alloc_loop_Some [OF a(1)] by (simp add: domIff)
  then have "in_flight s' = in_flight s + 1" by (simp add: in_flight_def a(2))
  with True a(1) show ?thesis by (simp add: deliverMessage_met_def allocPacketID_def)
next
  case False
  then have "s_inflight s' = s_inflight s"
    using assms by (auto simp: deliverMessage_def Let_def dest!: session_write_inflight split: option.splits prod.splits)
  with False show ?thesis by (simp add: deliverMessage_met_def in_flight_def Let_def)
qed

lemma deliver_all_flies:
  "deliver_all E inp n qos ms s srv = Some (err, s', srv') \<Longrightarrow> flies met s (deliver_all_met E inp n qos ms s srv met) s'"
proof (induction ms arbitrary: s srv met)
  case (Cons m ms)
  obtain e1 s1 srv1 where d: "deliverMessage E inp n m qos s srv = Some (e1, s1, srv1)"
    using Cons.prems by (auto split: option.splits prod.splits)
  note f = deliverMessage_flies [OF d, of met]
  show ?case
  proof (cases e1)
    case None
    with Cons.prems d have "deliver_all E inp n qos ms s1 srv1 = Some (err, s', srv')" by simp
    from Cons.IH [OF this, of "deliverMessage_met inp n m qos s met"] f show ?thesis by (simp add: d None Let_def)
  next
    case (Some e)
    with Cons.prems d f show ?thesis by (auto simp: Let_def)
  qed
qed simp

lemma deliver_pendings_flies:
  "deliver_pendings E inp ps s srv = Some (err, s', srv') \<Longrightarrow> flies met s (deliver_pendings_met E inp ps s srv met) s'"
proof (induction ps arbitrary: s srv met)
  case (Cons p ps)
  obtain e1 s1 srv1 where d: "deliver_all E inp (pd_topic p) (pd_qos p) (pd_catchUp p) s srv = Some (e1, s1, srv1)"
    using Cons.prems by (auto split: option.splits prod.splits)
  note f = deliver_all_flies [OF d, of met]
  show ?case
  proof (cases e1)
    case None
    with Cons.prems d have "deliver_pendings E inp ps s1 srv1 = Some (err, s', srv')" by simp
    from Cons.IH [OF this, of "deliver_all_met E inp (pd_topic p) (pd_qos p) (pd_catchUp p) s srv met"] f
    show ?thesis by (simp add: d None Let_def)
  next
    case (Some e)
    with Cons.prems d f show ?thesis by (auto simp: Let_def)
  qed
qed simp

lemma subscribe_loop_inflight:
  "subscribe_loop E inp tfs codes ps s srv = (r, s', srv') \<Longrightarrow> s_inflight s' = s_inflight s"
proof (induction tfs arbitrary: codes ps s srv)
  case (Cons tf tfs)
  have "s_inflight s2 = s_inflight s1" if "subscribe_topic E tf t s1 srv1 = (p, s2, srv2)" for t s1 p s2 and srv1 srv2 :: "'a Server"
    using that by (auto simp: subscribe_topic_def Let_def split: prod.splits option.splits)
  with Cons.prems show ?case by (fastforce dest!: Cons.IH split: if_splits option.splits prod.splits sum.splits)
qed simp

lemma handleSubscribe_flies:
  assumes "handleSubscribe E inp sp s srv = Some (err, s', srv')"
  shows "flies met s (handleSubscribe_met E inp sp s srv met) s'"
proof -
  obtain r s1 srv1 where l: "subscribe_loop E inp (sp_Topics sp) [] [] s srv = (r, s1, srv1)" by (metis prod_cases3)
  have i1: "in_flight s1 = in_flight s" using subscribe_loop_inflight [OF l] by (simp add: in_flight_def)
  show ?thesis
  proof (cases r)
    case (Inl e)
    then show ?thesis using assms i1 by (simp add: handleSubscribe_def handleSubscribe_met_def l)
  next
    case (Inr x)
    obtain codes ps where x: "x = (codes, ps)" by fastforce
    obtain e2 s2 where w: "session_write ''write SUBACK'' (WriteSubAck (sp_PacketID sp) codes) s1 = (e2, s2)" by fastforce
    have i2: "in_flight s2 = in_flight s" using session_write_inflight [OF w] i1 by (simp add: in_flight_def)
    show ?thesis
    proof (cases e2)
      case None
      obtain e3 s3 srv3 where d: "deliver_pendings E inp ps s2 (syncSessionTopics s2 srv1) = Some (e3, s3, srv3)"
        using assms by (auto simp: handleSubscribe_def l Inr x w None split: option.splits)
      have "in_flight s' = in_flight s3"
        using assms by (auto simp: handleSubscribe_def l Inr x w None d in_flight_def split: option.splits)
      with deliver_pendings_flies [OF d, of met] i2 show ?thesis by (simp add: handleSubscribe_met_def l Inr x w None)
    next
      case (Some e)
      then show ?thesis using assms i2 by (auto simp: handleSubscribe_def handleSubscribe_met_def l Inr x w)
    qed
  qed
qed

lemma handlePublish_flies:
  assumes "handlePublish E inp pp s srv = (err, s', srv')"
  shows "flies met s (handlePublish_met E inp pp s srv met) s'"
proof -
  have "s_inflight s' = s_inflight s"
    using assms by (auto simp: handlePublish_def puback_if_def Let_def dest!: session_write_inflight split: if_splits option.splits prod.splits sum.splits)
  then show ?thesis
    by (simp add: handlePublish_met_def in_flight_def Let_def split: prod.split sum.split)
qed

lemma handlePubAck_flies:
  assumes "handlePubAck E pa s srv = (err, s', srv')"
  shows "flies met s (handlePubAck_met pa s met) s'"
proof (cases "s_inflight s (pa_PacketID pa)")
  case (Some msg)
  then have "card (dom (s_inflight s)) = Suc (card (dom (s_inflight s) - {pa_PacketID pa}))"
    by (intro card.remove) auto
  moreover have "s_inflight s' = (s_inflight s)(pa_PacketID pa := None)" using assms Some by (auto simp: handlePubAck_def)
  ultimately show ?thesis by (simp add: Some handlePubAck_met_def in_flight_def)
qed (use assms in \<open>simp add: handlePubAck_def handlePubAck_met_def\<close>)

lemma unsubscribe_loop_inflight: "unsubscribe_loop ns s srv = (s', srv') \<Longrightarrow> s_inflight s' = s_inflight s"
  by (induction ns arbitrary: s srv) (auto split: option.splits)

lemma dispatch_flies:
  assumes "dispatch E inp pkt s srv = Some (err, s', srv')"
  shows "flies met s (dispatch_met E inp pkt s srv met) s'"
proof -
  have other: "flies met s met s'" if "s_inflight s' = s_inflight s" using that by (simp add: in_flight_def)
  consider "pkt_Type pkt = TypePublish" | "pkt_Type pkt = TypeSubscribe" | "pkt_Type pkt = TypePubAck"
    | "pkt_Type pkt \<notin> {TypePublish, TypeSubscribe, TypePubAck}" by blast
  then show ?thesis
  proof cases
    case 1
    with assms handlePublish_flies show ?thesis by (fastforce simp: dispatch_def dispatch_met_def split: option.splits)
  next
    case 2
    then have "pkt_Type pkt \<noteq> TypePublish" by (simp add: TypePublish_def TypeSubscribe_def)
    with 2 assms handleSubscribe_flies show ?thesis by (fastforce simp: dispatch_def dispatch_met_def split: option.splits)
  next
    case 3
    then have "pkt_Type pkt \<notin> {TypePublish, TypeSubscribe, TypeUnsubscribe}"
      by (simp add: TypePublish_def TypeSubscribe_def TypePubAck_def TypeUnsubscribe_def)
    with 3 assms handlePubAck_flies show ?thesis by (fastforce simp: dispatch_def dispatch_met_def split: option.splits)
  next
    case 4
    then have "s_inflight s' = s_inflight s"
      using assms by (auto simp: dispatch_def handleUnsubscribe_def Let_def dest!: session_write_inflight unsubscribe_loop_inflight
          split: if_splits option.splits prod.splits)
    with 4 other show ?thesis by (simp add: dispatch_met_def)
  qed
qed

lemma live_step_flies:
  assumes "live_step E inp g s srv = Some (s', srv')"
  shows "flies met s (live_step_met inp g s srv met) s'"
proof -
  obtain n ch qos where g: "g = (n, ch, qos)" by (metis prod_cases3)
  have live: "in_flight (s1\<lparr>s_live := l\<rparr>) = in_flight s1" for s1 l by (simp add: in_flight_def)
  show ?thesis
  proof (cases "topic_at srv n")
    case (Some t)
    obtain x t' where r: "chan_recv ch t = (x, t')" by fastforce
    show ?thesis
    proof (cases "\<exists>m. x = Got m \<and> \<not> m_Seq m \<le> offsets_Get (t_offsets t') (s_clientID s)")
      case True
      then obtain m where m: "x = Got m" "\<not> m_Seq m \<le> offsets_Get (t_offsets t') (s_clientID s)" by blast
      obtain e s1 srv1 where d: "deliverMessage E inp n m qos s (put_topic n t' srv) = Some (e, s1, srv1)"
        using assms by (auto simp: g live_step_def Some r m split: option.splits)
      have "in_flight s' = in_flight s1" using assms m by (auto simp: g live_step_def Some r d live split: option.splits)
      with deliverMessage_flies [OF d, of met] m show ?thesis by (simp add: g live_step_met_def Some r)
    next
      case False
      then have "live_step_met inp g s srv met = met" by (cases x) (auto simp: g live_step_met_def Some r)
      moreover have "in_flight s' = in_flight s" using assms False by (cases x) (auto simp: g live_step_def Some r live)
      ultimately show ?thesis by simp
    qed
  qed (use assms in \<open>simp add: g live_step_def live_step_met_def\<close>)
qed

lemma retransmit_tick_flies: "flies met s (retransmit_tick_met order now now2 s met) (retransmit_tick order now now2 s)"
proof -
  have one: "flies met s (resend_met x s met) (resend now2 x s)" for x s met
    by (auto simp: resend_met_def resend_def in_flight_def insert_absorb domI dest!: session_write_inflight split: prod.split option.split)
  have "fst (fold (\<lambda>item (s, met). (resend now2 item s, resend_met item s met)) xs (s, met)) = fold (resend now2) xs s
      \<and> flies met s (snd (fold (\<lambda>item (s, met). (resend now2 item s, resend_met item s met)) xs (s, met))) (fold (resend now2) xs s)" for xs
  proof (induction xs arbitrary: s met)
    case (Cons x xs)
    from Cons.IH [where s = "resend now2 x s" and met = "resend_met x s met"] one [where x = x and s = s and met = met] show ?case by simp
  qed simp
  then show ?thesis by (simp add: retransmit_tick_met_def retransmit_tick_def)
qed

section \<open>The rounds of the broker\<close>

lemma all_in_flight_put:
  assumes "finite (dom (bk_sessions b))"
  shows "all_in_flight (put_session a ph s srv b) =
    all_in_flight b + in_flight s - (if bk_sessions b a = None then 0 else in_flight (all_sessions b a))"
proof -
  let ?A = "dom (bk_sessions b) - {a}"
  have "all_in_flight (put_session a ph s srv b) = in_flight s + (\<Sum>x \<in> ?A. in_flight (all_sessions b x))"
    using assms by (simp add: all_in_flight_def all_sessions_def sum.insert_remove)
  moreover have "all_in_flight b = (if bk_sessions b a = None then 0 else in_flight (all_sessions b a)) + (\<Sum>x \<in> ?A. in_flight (all_sessions b x))"
    using sum.remove [OF assms, of a "\<lambda>x. in_flight (all_sessions b x)"]
    by (auto simp: all_in_flight_def domIff Diff_triv)
  ultimately show ?thesis by simp
qed

lemma connected_put:
  "connected (put_session a ph s srv b) = (if ph = Ended then connected b - {a} else insert a (connected b))"
  by (auto simp: connected_def)

lemma connected_finite: "finite (dom (bk_sessions b)) \<Longrightarrow> finite (connected b)"
  by (rule finite_subset [of _ "dom (bk_sessions b)"]) (auto simp: connected_def)

abbreviation gauges_ok :: "metrics \<Rightarrow> 'd broker \<Rightarrow> int \<Rightarrow> bool" where
  "gauges_ok met b d \<equiv> finite (dom (bk_sessions b)) \<and> ConnectionsActive met = int (card (connected b))
     \<and> InflightMessages met = all_in_flight b + d"

lemma gauges_finish:
  assumes "gauges_ok met b d" "bk_sessions b a = Some (ph, s0)" "ph \<noteq> Ended" "flies met s0 met' s"
  shows "gauges_ok (ended_met met') (finish_session a s srv b) (d + in_flight s)"
proof -
  obtain s1 srv1 where c: "cleanupSubs s srv = (s1, srv1)" by fastforce
  have "in_flight (session_Close s1) = 0" using c by (auto simp: cleanupSubs_def session_Close_def in_flight_def Let_def)
  then have i: "all_in_flight (finish_session a s srv b) = all_in_flight b - in_flight s0"
    using assms(1,2) by (simp add: finish_session_def c all_in_flight_put all_sessions_def)
  have "a \<in> connected b" using assms(2,3) by (auto simp: connected_def)
  then have "card (connected b) = Suc (card (connected b - {a}))"
    using assms(1) by (intro card.remove connected_finite) auto
  moreover have "connected (finish_session a s srv b) = connected b - {a}" by (simp add: finish_session_def c connected_put)
  ultimately show ?thesis using i assms(1,4) by (simp add: ended_met_def) (simp add: finish_session_def c)
qed

lemma gauges_put:
  assumes "gauges_ok met b d" "bk_sessions b a = Some (ph, s0)" "flies met s0 met' s" "ph' = Ended \<longleftrightarrow> ph = Ended"
  shows "gauges_ok met' (put_session a ph' s srv b) d"
proof -
  have "connected (put_session a ph' s srv b) = connected b" using assms(2,4) by (auto simp: connected_put) (auto simp: connected_def)
  with assms show ?thesis by (simp add: all_in_flight_put all_sessions_def)
qed

lemma gauges_after:
  assumes "gauges_ok met b d" "bk_sessions b a = Some (ph, s0)" "ph \<noteq> Ended" "flies met s0 met' s"
    and "\<not> bk_crashed (after_handler a err s srv b)"
  shows "gauges_ok (after_met err met') (after_handler a err s srv b) (d + (if err = None then 0 else in_flight s))"
proof (cases err)
  case None
  with gauges_put [OF assms(1,2,4), of Serving srv] assms(3) show ?thesis by (simp add: after_met_def after_handler_def)
next
  case (Some e)
  then have "after_handler a err s srv b = finish_session a s srv b"
    using assms(5) by (auto simp: after_handler_def split: go_error.splits)
  with gauges_finish [OF assms(1-4), of srv] Some show ?thesis by (simp add: after_met_def)
qed

lemma gauges_closing:
  assumes "gauges_ok met b d" "\<And>a. ss a = all_sessions b a \<or> ss a = session_Close (all_sessions b a)"
  shows "gauges_ok met (set_sessions ss b) d"
proof -
  have dm: "dom (bk_sessions (set_sessions ss b)) = dom (bk_sessions b)" by (auto simp: set_sessions_def dom_def)
  have "in_flight (all_sessions (set_sessions ss b) a) = in_flight (all_sessions b a)" if "a \<in> dom (bk_sessions b)" for a
    using assms(2) [of a] that by (auto simp: set_sessions_def all_sessions_def session_Close_def in_flight_def)
  then have "all_in_flight (set_sessions ss b) = all_in_flight b" by (simp add: all_in_flight_def dm)
  moreover have "connected (set_sessions ss b) = connected b"
    by (auto simp: connected_def set_sessions_def split: option.splits)
  ultimately show ?thesis using assms(1) by (simp add: dm)
qed

lemma gauges_same:
  assumes "gauges_ok met b d" "bk_sessions b' = bk_sessions b"
  shows "gauges_ok met b' d"
  using assms by (simp add: connected_def all_in_flight_def all_sessions_def)

lemma gauges_step:
  assumes "gauges_ok met b d" "broker_step E bcrypt b ev b'" "\<not> bk_crashed b'"
  shows "gauges_ok (event_met E bcrypt (b, ev) met) b' (d + dropped E bcrypt (b, ev))"
  using assms(2)
proof cases
  case (accept a c remote now)
  have "a \<notin> connected b" "in_flight (newSession a c remote) = 0"
    using accept(4) by (auto simp: connected_def newSession_def in_flight_def)
  then show ?thesis
    using assms(1) accept(4) connected_finite [of b] by (simp add: accept(1,2) all_in_flight_put connected_put)
next
  case (connect a s r pkt r' cp err s' srv')
  have s: "all_sessions b a = s" using connect(4) by (simp add: all_sessions_def)
  have "s_inflight s' = s_inflight s"
    using connect(8) by (auto simp: handleConnect_def Let_def session_write_def split: if_splits option.splits prod.splits bool.splits)
  then have "flies met s met s'" by (simp add: in_flight_def)
  from gauges_after [OF assms(1) connect(4) _ this, of err srv'] assms(3)
  show ?thesis by (cases err) (simp_all add: connect(1,2,8) s)
next
  case (receive a s r pkt r' inp err s' srv')
  have s: "all_sessions b a = s" using receive(4) by (simp add: all_sessions_def)
  from gauges_after [OF assms(1) receive(4) _ dispatch_flies [OF receive(6)], of err srv'] assms(3)
  show ?thesis by (cases err) (simp_all add: receive(1,2,6) s)
next
  case (leave a ph s)
  from gauges_finish [OF assms(1) leave(4,5), of met s "bk_srv b"] show ?thesis
    using leave(4) by (simp add: leave(1,2) all_sessions_def)
next
  case (deliver a ph s g inp s' srv')
  from gauges_put [OF assms(1) deliver(4) live_step_flies [OF deliver(6)], of ph srv'] show ?thesis
    using deliver(4) by (simp add: deliver(1,2) all_sessions_def)
next
  case (tick a ph s order now now2)
  from gauges_put [OF assms(1) tick(4) retransmit_tick_flies, of ph] show ?thesis
    using tick(4) by (simp add: tick(1,2) all_sessions_def)
next
  case (kick order c)
  have "gauges_ok met b' d" unfolding kick(2) by (rule gauges_closing [OF assms(1)]) (rule KickClient_closes)
  then show ?thesis by (simp add: kick(1))
next
  case (stop order)
  have "gauges_ok met b' d" unfolding stop(2) by (rule gauges_closing [OF assms(1)]) (rule Shutdown_closes)
  then show ?thesis by (simp add: stop(1))
next
  case (serve inp r resp ad')
  from gauges_same [OF assms(1), of b'] show ?thesis by (simp add: serve(1,2))
next
  case (tail n ch t fin out t')
  from gauges_same [OF assms(1), of b'] show ?thesis by (simp add: tail(1,2))
qed

lemma gauges_run:
  assumes "broker_run E bcrypt b0 tr b" "broker_inv b0" "bk_sessions b0 = Map.empty"
  shows "gauges_ok (metered E bcrypt tr) b (\<Sum>x \<leftarrow> tr. dropped E bcrypt x)"
  using assms(1)
proof induction
  case start
  then show ?case using assms(3) by (simp add: metered_def no_metrics_def connected_def all_in_flight_def)
next
  case (round tr b ev b')
  have "broker_inv b'" using broker_inv_step [OF broker_inv_run [OF round.hyps(1) assms(2)] round.hyps(2)] .
  with gauges_step [OF round.IH round.hyps(2)] show ?case by (simp add: metered_def broker_inv_def)
qed

section \<open>The counters of publishes\<close>

text \<open>The PUBLISH packets of a topic and a QoS that a run has handled.\<close>

fun publish_of :: "'d event \<Rightarrow> PublishPacket option" where
  "publish_of (Receive a inp pkt) = (if pkt_Type pkt = TypePublish then pkt_Publish pkt else None)"
| "publish_of _ = None"

definition handled :: "string \<Rightarrow> string \<Rightarrow> 'd broker \<times> 'd event \<Rightarrow> bool" where
  "handled n q x \<longleftrightarrow> (\<exists>pp. publish_of (snd x) = Some pp \<and> pp_TopicName pp = n \<and> qos_label (pp_QoS pp) = q)"

abbreviation publish_results :: "metrics \<Rightarrow> string \<Rightarrow> string \<Rightarrow> nat" where
  "publish_results met n q \<equiv> PublishTotal met (n, q, ''ok'') + PublishTotal met (n, q, ''duplicate'')
     + PublishTotal met (n, q, ''denied'') + PublishTotal met (n, q, ''error'')"

lemma handlePublish_counts:
  "publish_results (handlePublish_met E inp pp s srv met) n q =
     publish_results met n q + (if pp_TopicName pp = n \<and> qos_label (pp_QoS pp) = q then 1 else 0)"
proof -
  have c: "publish_results (count_publish pp r m) n q =
      publish_results m n q + (if pp_TopicName pp = n \<and> qos_label (pp_QoS pp) = q then 1 else 0)"
    if "r \<in> {''ok'', ''duplicate'', ''denied'', ''error''}" for r m
    using that by (auto simp: count_publish_def inc_def)
  have z: "PublishTotal (set_dedup_size d m) = PublishTotal m" for d :: "'a dedupStore option" and m
    by (simp add: set_dedup_size_def split: option.split)
  show ?thesis
    unfolding handlePublish_met_def Let_def
    using c [of "''denied''" met] c [of "''error''" met] c [of "''duplicate''"] c [of "''ok''"]
    by (auto simp: z split: prod.split sum.split)
qed

lemma other_counts:
  "PublishTotal (deliverMessage_met inp n m qos s met) = PublishTotal met"
  "PublishTotal (resend_met item s met) = PublishTotal met"
  "PublishTotal (after_met err met) = PublishTotal met" "PublishTotal (handlePubAck_met pa s met) = PublishTotal met"
  by (simp_all add: deliverMessage_met_def count_deliver_def resend_met_def after_met_def ended_met_def handlePubAck_met_def Let_def
      split: option.split prod.split)

lemma deliver_all_counts: "PublishTotal (deliver_all_met E inp n qos ms s srv met) = PublishTotal met"
  by (induction ms arbitrary: s srv met) (simp_all add: other_counts Let_def split: option.split prod.split)

lemma deliver_pendings_counts: "PublishTotal (deliver_pendings_met E inp ps s srv met) = PublishTotal met"
  by (induction ps arbitrary: s srv met) (simp_all add: deliver_all_counts Let_def split: option.split prod.split)

lemma retransmit_counts: "PublishTotal (retransmit_tick_met order now now2 s met) = PublishTotal met"
proof -
  have "PublishTotal (snd (fold (\<lambda>item (s, met). (resend now2 item s, resend_met item s met)) xs x)) = PublishTotal (snd x)" for xs x
    by (induction xs arbitrary: x) (simp_all add: other_counts split: prod.split)
  then show ?thesis by (simp add: retransmit_tick_met_def)
qed

lemma event_counts:
  "publish_results (event_met E bcrypt x met) n q = publish_results met n q + (if handled n q x then 1 else 0)"
proof -
  obtain b ev where x: "x = (b, ev)" by fastforce
  have d: "publish_results (dispatch_met E inp pkt s srv met) n q =
      publish_results met n q + (if handled n q (b, Receive a inp pkt) then 1 else 0)" for a inp pkt s srv
  proof (cases "publish_of (Receive a inp pkt)")
    case None
    then have "PublishTotal (dispatch_met E inp pkt s srv met) = PublishTotal met"
      by (auto simp: dispatch_met_def handleSubscribe_met_def deliver_pendings_counts other_counts split: option.splits prod.split sum.split if_splits)
    with None show ?thesis by (simp add: handled_def)
  next
    case (Some pp)
    then have "dispatch_met E inp pkt s srv met = handlePublish_met E inp pp s srv met"
      by (simp add: dispatch_met_def split: if_splits)
    with Some handlePublish_counts [of E inp pp s srv met n q] show ?thesis by (simp add: handled_def)
  qed
  show ?thesis
  proof (cases ev)
    case (Receive a inp pkt)
    then show ?thesis using d [of inp pkt "all_sessions b a" "bk_srv b" a]
      by (simp add: x other_counts Let_def split: option.split prod.split)
  qed (auto simp: x handled_def other_counts retransmit_counts live_step_met_def ended_met_def split: prod.split option.split received.split)
qed

lemma run_counts: "publish_results (metered E bcrypt tr) n q = length (filter (handled n q) tr)"
proof -
  have "publish_results (fold (event_met E bcrypt) tr met) n q = publish_results met n q + length (filter (handled n q) tr)" for met
    by (induction tr arbitrary: met) (simp_all add: event_counts)
  then show ?thesis by (simp add: metered_def no_metrics_def)
qed

section \<open>Properties\<close>



end
