(* ===== verification/Cache_Store.thy ===== *)
theory Cache_Store
  imports Prelude "HOL-Library.AList" "HOL-Library.Multiset"
begin

text \<open>
  The three caching strategies of \<^verbatim>\<open>tasks/task_4\<close>: cache-aside, write-through and write-back over a
  Redis cache and an SQLite table. The two servers are parameters with their documented
  behaviour: Redis may drop an entry at any time (expiry, eviction) but never returns a value that
  was not stored under the key last; SQLite commits a transaction as a whole or not at all.
  The contract of the interface \<^verbatim>\<open>Store\<close> is a locale, which each strategy interprets.
\<close>

section \<open>The servers\<close>

text \<open>The calls of the Redis client: \<open>Inr None\<close> is \<^verbatim>\<open>redis.Nil\<close>.\<close>

record 'r redis =
  rd_Get :: "'r \<Rightarrow> string \<Rightarrow> string option res \<times> 'r"
  rd_Set :: "'r \<Rightarrow> string \<Rightarrow> string \<Rightarrow> int \<Rightarrow> go_error option \<times> 'r"
  rd_Del :: "'r \<Rightarrow> string \<Rightarrow> go_error option \<times> 'r"
  rd_FlushAll :: "'r \<Rightarrow> go_error option \<times> 'r"

text \<open>
  The statements on the table \<^verbatim>\<open>kv\<close>: the query of a key (\<open>Inr None\<close> is \<^verbatim>\<open>sql.ErrNoRows\<close>), the
  insertion or update of one row, the deletion of all rows, and within a transaction the
  insertion or update of several rows.
\<close>

record ('s, 't) sqlite =
  sq_Query :: "'s \<Rightarrow> string \<Rightarrow> string option res"
  sq_Upsert :: "'s \<Rightarrow> string \<Rightarrow> string \<Rightarrow> go_error option \<times> 's"
  sq_DeleteAll :: "'s \<Rightarrow> go_error option \<times> 's"
  sq_BeginTx :: "'s \<Rightarrow> 't res"
  sq_Exec :: "'t \<Rightarrow> (string \<times> string) list \<Rightarrow> go_error option \<times> 't"
  sq_Commit :: "'s \<Rightarrow> 't \<Rightarrow> go_error option \<times> 's"

section \<open>Errors and counters\<close>

definition ErrMiss :: go_error where
  "ErrMiss = Err ''cache miss''"

definition db_ErrNotFound :: go_error where
  "db_ErrNotFound = Err ''key not found in db''"

definition store_ErrNotFound :: go_error where
  "store_ErrNotFound = Err ''key not found''"

record M =
  mt_CacheHits :: u64
  mt_CacheMisses :: u64
  mt_DBGets :: u64
  mt_DBSets :: u64
  mt_WBMaxDirty :: u64
  mt_WBFinalDirty :: u64

definition metrics_Reset :: "M \<Rightarrow> M" where
  "metrics_Reset m = m\<lparr>mt_CacheHits := 0, mt_CacheMisses := 0, mt_DBGets := 0, mt_DBSets := 0,
     mt_WBMaxDirty := 0, mt_WBFinalDirty := 0\<rparr>"

definition count_hit :: "M \<Rightarrow> M" where
  "count_hit m = m\<lparr>mt_CacheHits := mt_CacheHits m + 1\<rparr>"

definition count_miss :: "M \<Rightarrow> M" where
  "count_miss m = m\<lparr>mt_CacheMisses := mt_CacheMisses m + 1\<rparr>"

definition count_get :: "M \<Rightarrow> M" where
  "count_get m = m\<lparr>mt_DBGets := mt_DBGets m + 1\<rparr>"

definition count_set :: "M \<Rightarrow> M" where
  "count_set m = m\<lparr>mt_DBSets := mt_DBSets m + 1\<rparr>"

section \<open>The wrappers\<close>

text \<open>What a store works on: the cache with its time to live, the database and the counters they share.\<close>

record ('r, 's) Stack =
  k_redis :: 'r
  k_ttl :: int
  k_db :: 's
  k_m :: M

definition redis_Get :: "'r redis \<Rightarrow> string \<Rightarrow> ('r, 's, 'z) Stack_scheme \<Rightarrow> string res \<times> ('r, 's, 'z) Stack_scheme" where
  "redis_Get R key st =
     (case rd_Get R (k_redis st) key of
        (Inr None, r) \<Rightarrow> (Inl ErrMiss, st\<lparr>k_redis := r, k_m := count_miss (k_m st)\<rparr>)
      | (Inl err, r) \<Rightarrow> (Inl err, st\<lparr>k_redis := r, k_m := count_miss (k_m st)\<rparr>)
      | (Inr (Some val), r) \<Rightarrow> (Inr val, st\<lparr>k_redis := r, k_m := count_hit (k_m st)\<rparr>))"

definition redis_Set :: "'r redis \<Rightarrow> string \<Rightarrow> string \<Rightarrow> ('r, 's, 'z) Stack_scheme \<Rightarrow> go_error option \<times> ('r, 's, 'z) Stack_scheme" where
  "redis_Set R key value st = (case rd_Set R (k_redis st) key value (k_ttl st) of (err, r) \<Rightarrow> (err, st\<lparr>k_redis := r\<rparr>))"

definition redis_Del :: "'r redis \<Rightarrow> string \<Rightarrow> ('r, 's, 'z) Stack_scheme \<Rightarrow> go_error option \<times> ('r, 's, 'z) Stack_scheme" where
  "redis_Del R key st = (case rd_Del R (k_redis st) key of (err, r) \<Rightarrow> (err, st\<lparr>k_redis := r\<rparr>))"

definition redis_FlushAll :: "'r redis \<Rightarrow> ('r, 's, 'z) Stack_scheme \<Rightarrow> go_error option \<times> ('r, 's, 'z) Stack_scheme" where
  "redis_FlushAll R st = (case rd_FlushAll R (k_redis st) of (err, r) \<Rightarrow> (err, st\<lparr>k_redis := r\<rparr>))"

definition sqlite_Get :: "('s, 't) sqlite \<Rightarrow> string \<Rightarrow> ('r, 's, 'z) Stack_scheme \<Rightarrow> string res \<times> ('r, 's, 'z) Stack_scheme" where
  "sqlite_Get Q key st =
     (let st = st\<lparr>k_m := count_get (k_m st)\<rparr> in
      case sq_Query Q (k_db st) key of
        Inr None \<Rightarrow> (Inl db_ErrNotFound, st)
      | Inl err \<Rightarrow> (Inl err, st)
      | Inr (Some val) \<Rightarrow> (Inr val, st))"

definition sqlite_Set :: "('s, 't) sqlite \<Rightarrow> string \<Rightarrow> string \<Rightarrow> ('r, 's, 'z) Stack_scheme \<Rightarrow> go_error option \<times> ('r, 's, 'z) Stack_scheme" where
  "sqlite_Set Q key value st =
     (let st = st\<lparr>k_m := count_set (k_m st)\<rparr> in
      case sq_Upsert Q (k_db st) key value of (err, d) \<Rightarrow> (err, st\<lparr>k_db := d\<rparr>))"

definition sqlite_Reset :: "('s, 't) sqlite \<Rightarrow> ('r, 's, 'z) Stack_scheme \<Rightarrow> go_error option \<times> ('r, 's, 'z) Stack_scheme" where
  "sqlite_Reset Q st = (case sq_DeleteAll Q (k_db st) of (err, d) \<Rightarrow> (err, st\<lparr>k_db := d\<rparr>))"

definition maxPairsPerStmt :: nat where
  "maxPairsPerStmt = 400"

text \<open>The loop of \<open>BatchSet\<close> over the pairs from \<open>start\<close> on: the error, the transaction, the statements counted.\<close>

function batch_loop :: "('s, 't) sqlite \<Rightarrow> (string \<times> string) list \<Rightarrow> nat \<Rightarrow> 't \<Rightarrow> M \<Rightarrow> go_error option \<times> 't \<times> M" where
  "batch_loop Q pairs start tx m =
     (if start < length pairs
      then let end' = (if length pairs < start + maxPairsPerStmt then length pairs else start + maxPairsPerStmt) in
        (case sq_Exec Q tx (take (end' - start) (drop start pairs)) of
           (Some err, tx) \<Rightarrow> (Some err, tx, m)
         | (None, tx) \<Rightarrow> batch_loop Q pairs (start + maxPairsPerStmt) tx (count_set m))
      else (None, tx, m))"
  by pat_completeness auto
termination
  by (relation "measure (\<lambda>(Q, pairs, start, _). length pairs - start)") (auto simp: maxPairsPerStmt_def)

declare batch_loop.simps [simp del]

text \<open>\<open>pairs\<close> are the entries of the map in the order in which \<^verbatim>\<open>range\<close> visits them.\<close>

definition BatchSet :: "('s, 't) sqlite \<Rightarrow> (string \<times> string) list \<Rightarrow> ('r, 's, 'z) Stack_scheme
    \<Rightarrow> go_error option \<times> ('r, 's, 'z) Stack_scheme" where
  "BatchSet Q pairs st =
     (if pairs = [] then (None, st)
      else case sq_BeginTx Q (k_db st) of
        Inl err \<Rightarrow> (Some err, st)
      | Inr tx \<Rightarrow>
          (case batch_loop Q pairs 0 tx (k_m st) of
             (Some err, tx, m) \<Rightarrow> (Some err, st\<lparr>k_m := m\<rparr>)
           | (None, tx, m) \<Rightarrow> (case sq_Commit Q (k_db st) tx of (err, d) \<Rightarrow> (err, st\<lparr>k_m := m, k_db := d\<rparr>))))"

section \<open>The strategies\<close>

text \<open>The end of every \<open>Get\<close>: load from the database and populate the cache.\<close>

definition load_from_db :: "'r redis \<Rightarrow> ('s, 't) sqlite \<Rightarrow> string \<Rightarrow> ('r, 's, 'z) Stack_scheme
    \<Rightarrow> string res \<times> ('r, 's, 'z) Stack_scheme" where
  "load_from_db R Q key st =
     (case sqlite_Get Q key st of
        (Inl err, st) \<Rightarrow> (Inl (if errors_is err db_ErrNotFound then store_ErrNotFound else err), st)
      | (Inr val, st) \<Rightarrow> (Inr val, snd (redis_Set R key val st)))"

definition CacheAside_Get :: "'r redis \<Rightarrow> ('s, 't) sqlite \<Rightarrow> string \<Rightarrow> ('r, 's) Stack \<Rightarrow> string res \<times> ('r, 's) Stack" where
  "CacheAside_Get R Q key st =
     (case redis_Get R key st of
        (Inr val, st) \<Rightarrow> (Inr val, st)
      | (Inl err, st) \<Rightarrow> if \<not> errors_is err ErrMiss then (Inl err, st) else load_from_db R Q key st)"

definition CacheAside_Set :: "'r redis \<Rightarrow> ('s, 't) sqlite \<Rightarrow> string \<Rightarrow> string \<Rightarrow> ('r, 's) Stack \<Rightarrow> go_error option \<times> ('r, 's) Stack" where
  "CacheAside_Set R Q key value st =
     (case sqlite_Set Q key value st of
        (Some err, st) \<Rightarrow> (Some err, st)
      | (None, st) \<Rightarrow> (None, snd (redis_Del R key st)))"

definition CacheAside_Flush :: "('r, 's) Stack \<Rightarrow> go_error option \<times> ('r, 's) Stack" where
  "CacheAside_Flush st = (None, st)"

definition WriteThrough_Get :: "'r redis \<Rightarrow> ('s, 't) sqlite \<Rightarrow> string \<Rightarrow> ('r, 's) Stack \<Rightarrow> string res \<times> ('r, 's) Stack" where
  "WriteThrough_Get R Q key st =
     (case redis_Get R key st of
        (Inr val, st) \<Rightarrow> (Inr val, st)
      | (Inl err, st) \<Rightarrow> if \<not> errors_is err ErrMiss then (Inl err, st) else load_from_db R Q key st)"

definition WriteThrough_Set :: "'r redis \<Rightarrow> ('s, 't) sqlite \<Rightarrow> string \<Rightarrow> string \<Rightarrow> ('r, 's) Stack \<Rightarrow> go_error option \<times> ('r, 's) Stack" where
  "WriteThrough_Set R Q key value st =
     (case sqlite_Set Q key value st of
        (Some err, st) \<Rightarrow> (Some err, st)
      | (None, st) \<Rightarrow> redis_Set R key value st)"

definition WriteThrough_Flush :: "('r, 's) Stack \<Rightarrow> go_error option \<times> ('r, 's) Stack" where
  "WriteThrough_Flush st = (None, st)"

text \<open>
  \<open>wb_dirty\<close> is the map of unsaved entries as an association list with distinct keys; \<open>wb_trigger\<close> tells
  whether the trigger channel, which has one place, is full; \<open>wb_stopped\<close> that \<open>stopCh\<close> is closed.
\<close>

record ('r, 's) WriteBack = "('r, 's) Stack" +
  wb_dirty :: "(string \<times> string) list"
  wb_flushInterval :: int
  wb_batchSize :: int
  wb_trigger :: bool
  wb_stopped :: bool

definition NewWriteBack :: "('r, 's) Stack \<Rightarrow> int \<Rightarrow> int \<Rightarrow> ('r, 's) WriteBack" where
  "NewWriteBack st interval batch =
     \<lparr>k_redis = k_redis st, k_ttl = k_ttl st, k_db = k_db st, k_m = k_m st, wb_dirty = [],
      wb_flushInterval = interval, wb_batchSize = batch, wb_trigger = False, wb_stopped = False\<rparr>"

definition WriteBack_Get :: "'r redis \<Rightarrow> ('s, 't) sqlite \<Rightarrow> string \<Rightarrow> ('r, 's) WriteBack \<Rightarrow> string res \<times> ('r, 's) WriteBack" where
  "WriteBack_Get R Q key st =
     (case redis_Get R key st of
        (Inr val, st) \<Rightarrow> (Inr val, st)
      | (Inl err, st) \<Rightarrow>
          if \<not> errors_is err ErrMiss then (Inl err, st)
          else (case map_of (wb_dirty st) key of
                  Some v \<Rightarrow> (Inr v, st\<lparr>k_m := count_hit (k_m st)\<rparr>)
                | None \<Rightarrow> load_from_db R Q key st))"

definition triggerFlush :: "('r, 's) WriteBack \<Rightarrow> ('r, 's) WriteBack" where
  "triggerFlush st = st\<lparr>wb_trigger := True\<rparr>"

definition track_peak :: "nat \<Rightarrow> M \<Rightarrow> M" where
  "track_peak n m = (if sint (word_of_nat n :: u64) \<le> sint (mt_WBMaxDirty m) then m else m\<lparr>mt_WBMaxDirty := word_of_nat n\<rparr>)"

definition WriteBack_Set :: "'r redis \<Rightarrow> string \<Rightarrow> string \<Rightarrow> ('r, 's) WriteBack \<Rightarrow> go_error option \<times> ('r, 's) WriteBack" where
  "WriteBack_Set R key value st =
     (case redis_Set R key value st of
        (Some err, st) \<Rightarrow> (Some err, st)
      | (None, st) \<Rightarrow>
          let st = st\<lparr>wb_dirty := AList.update key value (wb_dirty st)\<rparr>;
              dirtyLen = length (wb_dirty st);
              st = st\<lparr>k_m := track_peak dirtyLen (k_m st)\<rparr> in
          (None, if wb_batchSize st \<le> int dirtyLen then triggerFlush st else st))"

definition DirtyLen :: "('r, 's) WriteBack \<Rightarrow> nat" where
  "DirtyLen st = length (wb_dirty st)"

text \<open>
  \<open>flushDirty\<close> in its two parts: under the mutex it takes the dirty map, leaving an empty one, and
  then it writes what it took. \<open>visit\<close> is the order in which \<^verbatim>\<open>range\<close> goes through the map.
\<close>

definition take_dirty :: "('r, 's) WriteBack \<Rightarrow> (string \<times> string) list \<times> ('r, 's) WriteBack" where
  "take_dirty st = (if wb_dirty st = [] then ([], st) else (wb_dirty st, st\<lparr>wb_dirty := []\<rparr>))"

definition flushDirty :: "('s, 't) sqlite \<Rightarrow> ((string \<times> string) list \<Rightarrow> (string \<times> string) list) \<Rightarrow> ('r, 's) WriteBack
    \<Rightarrow> go_error option \<times> ('r, 's) WriteBack" where
  "flushDirty Q visit st =
     (case take_dirty st of (batch, st) \<Rightarrow> if batch = [] then (None, st) else BatchSet Q (visit batch) st)"

definition WriteBack_Flush :: "('s, 't) sqlite \<Rightarrow> ((string \<times> string) list \<Rightarrow> (string \<times> string) list) \<Rightarrow> ('r, 's) WriteBack
    \<Rightarrow> go_error option \<times> ('r, 's) WriteBack" where
  "WriteBack_Flush Q visit st = flushDirty Q visit st"

text \<open>
  One turn of the flusher: the event that \<^verbatim>\<open>select\<close> chose among those that were ready. A turn whose event
  is not ready does not happen.
\<close>

datatype flusher_event = Stop | Trigger | Tick

fun flusher_turn :: "('s, 't) sqlite \<Rightarrow> ((string \<times> string) list \<Rightarrow> (string \<times> string) list) \<Rightarrow> flusher_event
    \<Rightarrow> ('r, 's) WriteBack \<Rightarrow> ('r, 's) WriteBack" where
  "flusher_turn Q visit Stop st = st"
| "flusher_turn Q visit Trigger st =
     (if wb_trigger st then snd (flushDirty Q visit (st\<lparr>wb_trigger := False\<rparr>)) else st)"
| "flusher_turn Q visit Tick st = snd (flushDirty Q visit st)"

definition WriteBack_Close :: "('s, 't) sqlite \<Rightarrow> ((string \<times> string) list \<Rightarrow> (string \<times> string) list) \<Rightarrow> ('r, 's) WriteBack
    \<Rightarrow> ('r, 's) WriteBack" where
  "WriteBack_Close Q visit st = snd (flushDirty Q visit (st\<lparr>wb_stopped := True\<rparr>))"

section \<open>The contract of a store\<close>

datatype kv_op = KGet string | KSet string string | KFlush

datatype kv_result = RGet "string res" | RSet "go_error option" | RFlush "go_error option"

definition lookup_result :: "string option \<Rightarrow> string res" where
  "lookup_result v = (case v of None \<Rightarrow> Inl store_ErrNotFound | Some x \<Rightarrow> Inr x)"

text \<open>An answer that is right for the value \<open>v\<close>: the value itself, or an error of one of the servers.\<close>

definition right_answer :: "string option \<Rightarrow> string res \<Rightarrow> bool" where
  "right_answer v r \<longleftrightarrow> r = lookup_result v \<or> (\<exists>e. r = Inl e \<and> e \<noteq> store_ErrNotFound)"

text \<open>The results are those of a map in which exactly the successful writes were made.\<close>

fun consistent :: "(string \<rightharpoonup> string) \<Rightarrow> kv_op list \<Rightarrow> kv_result list \<Rightarrow> bool" where
  "consistent m [] [] = True"
| "consistent m (KGet k # ops) (RGet r # rs) = (right_answer (m k) r \<and> consistent m ops rs)"
| "consistent m (KSet k v # ops) (RSet e # rs) = consistent (if e = None then m(k \<mapsto> v) else m) ops rs"
| "consistent m (KFlush # ops) (RFlush e # rs) = consistent m ops rs"
| "consistent m _ _ = False"

fun kv_run :: "(string \<Rightarrow> 's \<Rightarrow> string res \<times> 's) \<Rightarrow> (string \<Rightarrow> string \<Rightarrow> 's \<Rightarrow> go_error option \<times> 's)
    \<Rightarrow> ('s \<Rightarrow> go_error option \<times> 's) \<Rightarrow> kv_op list \<Rightarrow> 's \<Rightarrow> kv_result list \<times> 's" where
  "kv_run get put flush [] s = ([], s)"
| "kv_run get put flush (KGet k # ops) s =
     (case get k s of (r, s) \<Rightarrow> case kv_run get put flush ops s of (rs, s) \<Rightarrow> (RGet r # rs, s))"
| "kv_run get put flush (KSet k v # ops) s =
     (case put k v s of (e, s) \<Rightarrow> case kv_run get put flush ops s of (rs, s) \<Rightarrow> (RSet e # rs, s))"
| "kv_run get put flush (KFlush # ops) s =
     (case flush s of (e, s) \<Rightarrow> case kv_run get put flush ops s of (rs, s) \<Rightarrow> (RFlush e # rs, s))"

locale caching_store =
  fixes get :: "string \<Rightarrow> 's \<Rightarrow> string res \<times> 's"
    and put :: "string \<Rightarrow> string \<Rightarrow> 's \<Rightarrow> go_error option \<times> 's"
    and flush :: "'s \<Rightarrow> go_error option \<times> 's"
    and view :: "'s \<Rightarrow> string \<rightharpoonup> string"
    and inv :: "'s \<Rightarrow> bool"
  assumes get_ok: "inv s \<Longrightarrow> inv (snd (get k s)) \<and> view (snd (get k s)) = view s \<and> right_answer (view s k) (fst (get k s))"
    and put_ok: "inv s \<Longrightarrow> inv (snd (put k v s))
      \<and> view (snd (put k v s)) = (if fst (put k v s) = None then (view s)(k \<mapsto> v) else view s)"
    and flush_ok: "inv s \<Longrightarrow> inv (snd (flush s)) \<and> view (snd (flush s)) = view s"
begin

lemma run_consistent: "inv s \<Longrightarrow> consistent (view s) ops (fst (kv_run get put flush ops s))"
proof (induction ops arbitrary: s)
  case (Cons op ops)
  show ?case
  proof (cases op)
    case (KGet k)
    then show ?thesis using get_ok [OF Cons.prems, of k] Cons.IH [of "snd (get k s)"] by (simp add: split_beta)
  next
    case (KSet k v)
    then show ?thesis using put_ok [OF Cons.prems, of k v] Cons.IH [of "snd (put k v s)"] by (simp add: split_beta)
  next
    case KFlush
    then show ?thesis using flush_ok [OF Cons.prems] Cons.IH [of "snd (flush s)"] by (simp add: split_beta)
  qed
qed simp

lemma run_keeps: "inv s \<Longrightarrow> inv (snd (kv_run get put flush ops s))"
proof (induction ops arbitrary: s)
  case (Cons op ops)
  then show ?case
    using get_ok [OF Cons.prems] put_ok [OF Cons.prems] flush_ok [OF Cons.prems]
    by (cases op) (simp_all add: split_beta)
qed simp

end

section \<open>What the servers promise\<close>

text \<open>
  \<open>rc r\<close> are the entries the cache holds. Between and during calls it may lose entries; a write
  that is reported as failed may have happened or not.
\<close>

definition redis_laws :: "'r redis \<Rightarrow> ('r \<Rightarrow> string \<rightharpoonup> string) \<Rightarrow> bool" where
  "redis_laws R rc \<longleftrightarrow>
     (\<forall>r k x r'. rd_Get R r k = (x, r') \<longrightarrow> rc r' \<subseteq>\<^sub>m rc r \<and> (\<forall>v. x = Inr (Some v) \<longrightarrow> rc r k = Some v)
        \<and> (\<forall>e. x = Inl e \<longrightarrow> \<not> errors_is e ErrMiss \<and> e \<noteq> store_ErrNotFound))
     \<and> (\<forall>r k v ttl e r'. rd_Set R r k v ttl = (e, r') \<longrightarrow>
          rc r' \<subseteq>\<^sub>m (rc r)(k \<mapsto> v) \<or> e \<noteq> None \<and> rc r' \<subseteq>\<^sub>m rc r)
     \<and> (\<forall>r k e r'. rd_Del R r k = (e, r') \<longrightarrow> rc r' \<subseteq>\<^sub>m rc r \<and> (e = None \<longrightarrow> rc r' k = None))"

definition cache_up :: "'r redis \<Rightarrow> bool" where
  "cache_up R \<longleftrightarrow> (\<forall>r k v ttl. fst (rd_Set R r k v ttl) = None \<and> fst (rd_Del R r k) = None)"

definition upserts :: "(string \<rightharpoonup> string) \<Rightarrow> (string \<times> string) list \<Rightarrow> (string \<rightharpoonup> string)" where
  "upserts m rows = foldl (\<lambda>m (k, v). m(k \<mapsto> v)) m rows"

text \<open>\<open>sc s\<close> is the committed table, \<open>tc t\<close> the table as the transaction sees it.\<close>

definition sqlite_laws :: "('s, 't) sqlite \<Rightarrow> ('s \<Rightarrow> string \<rightharpoonup> string) \<Rightarrow> ('t \<Rightarrow> string \<rightharpoonup> string) \<Rightarrow> bool" where
  "sqlite_laws Q sc tc \<longleftrightarrow>
     (\<forall>s k. sq_Query Q s k = Inr (sc s k)
        \<or> (\<exists>e. sq_Query Q s k = Inl e \<and> \<not> errors_is e db_ErrNotFound \<and> e \<noteq> store_ErrNotFound))
     \<and> (\<forall>s k v e s'. sq_Upsert Q s k v = (e, s') \<longrightarrow> sc s' = (if e = None then (sc s)(k \<mapsto> v) else sc s))
     \<and> (\<forall>s t. sq_BeginTx Q s = Inr t \<longrightarrow> tc t = sc s)
     \<and> (\<forall>t rows t'. sq_Exec Q t rows = (None, t') \<longrightarrow> tc t' = upserts (tc t) rows)
     \<and> (\<forall>s t e s'. sq_Commit Q s t = (e, s') \<longrightarrow> sc s' = (if e = None then tc t else sc s))"

text \<open>Transactions succeed if no statement has more than the 999 parameters SQLite takes.\<close>

definition tx_up :: "('s, 't) sqlite \<Rightarrow> bool" where
  "tx_up Q \<longleftrightarrow> (\<forall>s. \<exists>t. sq_BeginTx Q s = Inr t) \<and> (\<forall>t rows. 2 * length rows \<le> 999 \<longrightarrow> fst (sq_Exec Q t rows) = None)
     \<and> (\<forall>s t. fst (sq_Commit Q s t) = None)"

lemma redis_laws_Get:
  "redis_laws R rc \<Longrightarrow> rd_Get R r k = (x, r') \<Longrightarrow> rc r' \<subseteq>\<^sub>m rc r"
  "redis_laws R rc \<Longrightarrow> rd_Get R r k = (Inr (Some v), r') \<Longrightarrow> rc r k = Some v"
  "redis_laws R rc \<Longrightarrow> rd_Get R r k = (Inl e, r') \<Longrightarrow> \<not> errors_is e ErrMiss \<and> e \<noteq> store_ErrNotFound"
  unfolding redis_laws_def by blast+

lemma redis_laws_Set:
  "redis_laws R rc \<Longrightarrow> rd_Set R r k v ttl = (e, r') \<Longrightarrow> rc r' \<subseteq>\<^sub>m (rc r)(k \<mapsto> v) \<or> e \<noteq> None \<and> rc r' \<subseteq>\<^sub>m rc r"
  unfolding redis_laws_def by blast

lemma redis_laws_Del:
  "redis_laws R rc \<Longrightarrow> rd_Del R r k = (e, r') \<Longrightarrow> rc r' \<subseteq>\<^sub>m rc r \<and> (e = None \<longrightarrow> rc r' k = None)"
  unfolding redis_laws_def by blast

lemma sqlite_laws_Query:
  "sqlite_laws Q sc tc \<Longrightarrow> sq_Query Q s k = Inr (sc s k)
     \<or> (\<exists>e. sq_Query Q s k = Inl e \<and> \<not> errors_is e db_ErrNotFound \<and> e \<noteq> store_ErrNotFound)"
  unfolding sqlite_laws_def by blast

lemma sqlite_laws_writes:
  "sqlite_laws Q sc tc \<Longrightarrow> sq_Upsert Q s k v = (e, s') \<Longrightarrow> sc s' = (if e = None then (sc s)(k \<mapsto> v) else sc s)"
  "sqlite_laws Q sc tc \<Longrightarrow> sq_BeginTx Q s = Inr t \<Longrightarrow> tc t = sc s"
  "sqlite_laws Q sc tc \<Longrightarrow> sq_Exec Q t rows = (None, t') \<Longrightarrow> tc t' = upserts (tc t) rows"
  "sqlite_laws Q sc tc \<Longrightarrow> sq_Commit Q s t = (e, s') \<Longrightarrow> sc s' = (if e = None then tc t else sc s)"
  unfolding sqlite_laws_def by blast+

section \<open>Batches\<close>

lemma upserts_append: "upserts m (xs @ ys) = upserts (upserts m xs) ys"
  by (simp add: upserts_def)

lemma upserts_map_of: "upserts m rows = m ++ map_of (rev rows)"
  by (induction rows arbitrary: m) (simp_all add: upserts_def split_beta)

lemma upserts_distinct:
  assumes "distinct (map fst rows)" "mset rows' = mset rows"
  shows "upserts m rows' = m ++ map_of rows"
proof -
  have "mset (map fst rows') = mset (map fst rows)" using assms(2) by (metis mset_map)
  then have "distinct (map fst (rev rows'))" using assms(1) by (metis distinct_rev mset_eq_imp_distinct_iff rev_map)
  moreover have "set (rev rows') = set rows" using assms(2) by (metis set_mset_mset set_rev)
  ultimately have "map_of (rev rows') = map_of rows" using assms(1) by (simp add: map_of_inject_set)
  then show ?thesis by (simp add: upserts_map_of)
qed

text \<open>The loop cuts the pairs into statements of at most 400, which together write all of them.\<close>

lemma batch_loop_step:
  "start < length pairs \<Longrightarrow> batch_loop Q pairs start tx m =
     (case sq_Exec Q tx (take maxPairsPerStmt (drop start pairs)) of
        (Some err, tx) \<Rightarrow> (Some err, tx, m)
      | (None, tx) \<Rightarrow> batch_loop Q pairs (start + maxPairsPerStmt) tx (count_set m))"
  by (subst batch_loop.simps) (auto simp: Let_def)

lemma batch_loop_end: "\<not> start < length pairs \<Longrightarrow> batch_loop Q pairs start tx m = (None, tx, m)"
  by (subst batch_loop.simps) simp

lemma batch_loop_writes:
  assumes "sqlite_laws Q sc tc"
  shows "batch_loop Q pairs start tx m = (None, tx', m') \<Longrightarrow> tc tx' = upserts (tc tx) (drop start pairs)"
proof (induction "length pairs - start" arbitrary: start tx m rule: less_induct)
  case less
  show ?case
  proof (cases "start < length pairs")
    case True
    let ?rows = "take maxPairsPerStmt (drop start pairs)"
    obtain tx1 where ex: "sq_Exec Q tx ?rows = (None, tx1)"
      "batch_loop Q pairs (start + maxPairsPerStmt) tx1 (count_set m) = (None, tx', m')"
      using less.prems True by (auto simp: batch_loop_step split: prod.splits option.splits)
    have IH: "tc tx' = upserts (tc tx1) (drop (start + maxPairsPerStmt) pairs)"
      using less.hyps [OF _ ex(2)] True by (simp add: maxPairsPerStmt_def)
    have "tc tx1 = upserts (tc tx) ?rows" by (rule sqlite_laws_writes(3) [OF assms ex(1)])
    then have "tc tx' = upserts (tc tx) (?rows @ drop maxPairsPerStmt (drop start pairs))"
      using IH by (simp add: upserts_append add.commute)
    then show ?thesis by (simp only: append_take_drop_id)
  next
    case False
    then show ?thesis using less.prems by (simp add: batch_loop_end upserts_def)
  qed
qed

text \<open>Every statement is small enough, so the loop succeeds; it counts one write per statement.\<close>

lemma batch_loop_succeeds:
  assumes "tx_up Q"
  shows "\<exists>tx'. batch_loop Q pairs start tx m
    = (None, tx', m\<lparr>mt_DBSets := mt_DBSets m + word_of_nat ((length pairs - start + 399) div 400)\<rparr>)"
proof (induction "length pairs - start" arbitrary: start tx m rule: less_induct)
  case less
  show ?case
  proof (cases "start < length pairs")
    case True
    let ?rows = "take maxPairsPerStmt (drop start pairs)"
    have "2 * length ?rows \<le> 999" by (simp add: maxPairsPerStmt_def)
    then obtain tx1 where ex: "sq_Exec Q tx ?rows = (None, tx1)"
      using assms unfolding tx_up_def by (metis prod.collapse)
    have "(length pairs - start + 399) div 400 = Suc ((length pairs - (start + 400) + 399) div 400)"
    proof (cases "start + 400 \<le> length pairs")
      case True
      then show ?thesis by (simp add: div_if)
    next
      case False
      with \<open>start < length pairs\<close> have "(length pairs - start + 399) div 400 = 1" by (intro div_nat_eqI) simp_all
      with False show ?thesis by simp
    qed
    then show ?thesis
      using less.hyps [of "start + maxPairsPerStmt" tx1 "count_set m"] True ex
      by (simp add: batch_loop_step maxPairsPerStmt_def count_set_def algebra_simps)
  next
    case False
    then show ?thesis by (simp add: batch_loop_end)
  qed
qed

lemma BatchSet_effect:
  assumes "sqlite_laws Q sc tc" "BatchSet Q pairs st = (e, st')"
  shows "sc (k_db st') = (if e = None then upserts (sc (k_db st)) pairs else sc (k_db st))"
    and "st' = st\<lparr>k_db := k_db st', k_m := k_m st'\<rparr>"
proof -
  show "sc (k_db st') = (if e = None then upserts (sc (k_db st)) pairs else sc (k_db st))"
    using assms(2) batch_loop_writes [OF assms(1), of pairs 0] sqlite_laws_writes(2,4) [OF assms(1)]
    by (auto simp: BatchSet_def upserts_def split: if_splits sum.splits prod.splits option.splits)
  show "st' = st\<lparr>k_db := k_db st', k_m := k_m st'\<rparr>"
    using assms(2) by (auto simp: BatchSet_def split: if_splits sum.splits prod.splits option.splits)
qed

lemma BatchSet_succeeds:
  assumes "tx_up Q"
  shows "\<exists>d. BatchSet Q pairs st = (None, st\<lparr>k_db := d,
    k_m := (k_m st)\<lparr>mt_DBSets := mt_DBSets (k_m st) + word_of_nat ((length pairs + 399) div 400)\<rparr>\<rparr>)"
proof (cases "pairs = []")
  case True
  then show ?thesis by (intro exI [of _ "k_db st"]) (simp add: BatchSet_def)
next
  case False
  obtain tx where tx: "sq_BeginTx Q (k_db st) = Inr tx" using assms unfolding tx_up_def by blast
  obtain tx' where tx': "batch_loop Q pairs 0 tx (k_m st)
      = (None, tx', (k_m st)\<lparr>mt_DBSets := mt_DBSets (k_m st) + word_of_nat ((length pairs + 399) div 400)\<rparr>)"
    using batch_loop_succeeds [OF assms, of pairs 0 tx "k_m st"] by auto
  obtain d where d: "sq_Commit Q (k_db st) tx' = (None, d)"
    using assms unfolding tx_up_def by (metis prod.collapse)
  show ?thesis using False tx tx' d by (intro exI [of _ d]) (simp add: BatchSet_def)
qed

section \<open>The strategies keep the contract\<close>

text \<open>The cache holds nothing but current values.\<close>

definition fresh :: "'r redis \<Rightarrow> ('s, 't) sqlite \<Rightarrow> ('r \<Rightarrow> string \<rightharpoonup> string) \<Rightarrow> ('s \<Rightarrow> string \<rightharpoonup> string)
    \<Rightarrow> ('t \<Rightarrow> string \<rightharpoonup> string) \<Rightarrow> (string \<rightharpoonup> string) \<Rightarrow> 'r \<Rightarrow> bool" where
  "fresh R Q rc sc tc view r \<longleftrightarrow> redis_laws R rc \<and> cache_up R \<and> sqlite_laws Q sc tc \<and> rc r \<subseteq>\<^sub>m view"

lemma fresh_laws:
  assumes "fresh R Q rc sc tc view r"
  shows "redis_laws R rc" "cache_up R" "sqlite_laws Q sc tc" "rc r \<subseteq>\<^sub>m view"
  using assms by (simp_all add: fresh_def)

lemma map_le_upd_current: "m \<subseteq>\<^sub>m view \<Longrightarrow> view k = Some v \<Longrightarrow> m(k \<mapsto> v) \<subseteq>\<^sub>m view"
  by (auto simp: map_le_def)

lemma map_le_upd_absent: "m \<subseteq>\<^sub>m view \<Longrightarrow> m k = None \<Longrightarrow> m \<subseteq>\<^sub>m view(k \<mapsto> v)"
  by (auto simp: map_le_def)

lemma redis_Get_fresh:
  assumes "fresh R Q rc sc tc view (k_redis st)" "redis_Get R k st = (x, st')"
  shows "fresh R Q rc sc tc view (k_redis st')" "k_db st' = k_db st" "st' = st\<lparr>k_redis := k_redis st', k_m := k_m st'\<rparr>"
    "x = Inr v \<Longrightarrow> view k = Some v" "x = Inl e \<Longrightarrow> \<not> errors_is e ErrMiss \<Longrightarrow> e \<noteq> store_ErrNotFound"
proof -
  note laws = fresh_laws [OF assms(1)]
  obtain y r where r: "rd_Get R (k_redis st) k = (y, r)" by fastforce
  have le: "rc r \<subseteq>\<^sub>m view" using redis_laws_Get(1) [OF laws(1) r] laws(4) by (rule map_le_trans)
  have st': "k_redis st' = r" "k_db st' = k_db st" "st' = st\<lparr>k_redis := k_redis st', k_m := k_m st'\<rparr>"
    using assms(2) r by (auto simp: redis_Get_def split: sum.splits option.splits)
  then show "k_db st' = k_db st" "st' = st\<lparr>k_redis := k_redis st', k_m := k_m st'\<rparr>" by blast+
  show "fresh R Q rc sc tc view (k_redis st')" using laws le st'(1) by (simp add: fresh_def)
  show "x = Inr v \<Longrightarrow> view k = Some v"
  proof -
    assume "x = Inr v"
    then have "y = Inr (Some v)" using assms(2) r by (auto simp: redis_Get_def split: sum.splits option.splits)
    then have "rc (k_redis st) k = Some v" using redis_laws_Get(2) [OF laws(1)] r by blast
    then show "view k = Some v" using laws(4) by (metis domI map_le_def)
  qed
  show "x = Inl e \<Longrightarrow> \<not> errors_is e ErrMiss \<Longrightarrow> e \<noteq> store_ErrNotFound"
    using assms(2) r redis_laws_Get(3) [OF laws(1)]
    by (auto simp: redis_Get_def ErrMiss_def store_ErrNotFound_def split: sum.splits option.splits)
qed

text \<open>Populating the cache with a current value is harmless, even if it fails.\<close>

lemma redis_Set_fresh:
  assumes "fresh R Q rc sc tc view (k_redis st)" "redis_Set R k v st = (e, st')" "view k = Some v"
  shows "fresh R Q rc sc tc view (k_redis st')"
proof -
  note laws = fresh_laws [OF assms(1)]
  obtain r where r: "rd_Set R (k_redis st) k v (k_ttl st) = (e, r)" "k_redis st' = r"
    using assms(2) by (auto simp: redis_Set_def split: prod.splits)
  have "rc r \<subseteq>\<^sub>m view"
    using redis_laws_Set [OF laws(1) r(1)] map_le_upd_current [OF laws(4) assms(3)] laws(4) by (metis map_le_trans)
  then show ?thesis using laws r(2) by (simp add: fresh_def)
qed

lemma redis_Set_frame: "redis_Set R k v st = (e, st') \<Longrightarrow> k_db st' = k_db st \<and> k_m st' = k_m st \<and> st' = st\<lparr>k_redis := k_redis st'\<rparr>"
  by (auto simp: redis_Set_def split: prod.splits)

lemma load_from_db_fresh:
  assumes "fresh R Q rc sc tc view (k_redis st)" "load_from_db R Q k st = (x, st')" "sc (k_db st) k = view k"
  shows "fresh R Q rc sc tc view (k_redis st')" "k_db st' = k_db st" "st' = st\<lparr>k_redis := k_redis st', k_m := k_m st'\<rparr>"
    "right_answer (view k) x"
proof -
  note q = sqlite_laws_Query [OF fresh_laws(3) [OF assms(1)], of "k_db st" k]
  let ?st = "st\<lparr>k_m := count_get (k_m st)\<rparr>"
  have f: "fresh R Q rc sc tc view (k_redis ?st)" using assms(1) by simp
  consider (err) e where "sqlite_Get Q k st = (Inl e, ?st)" "\<not> errors_is e db_ErrNotFound" "e \<noteq> store_ErrNotFound"
    | (none) "sqlite_Get Q k st = (Inl db_ErrNotFound, ?st)" "view k = None"
    | (some) v where "sqlite_Get Q k st = (Inr v, ?st)" "view k = Some v"
  proof (cases "sq_Query Q (k_db st) k")
    case (Inl e)
    then show ?thesis using q that(1) [of e] by (auto simp: sqlite_Get_def Let_def)
  next
    case (Inr y)
    then show ?thesis using q assms(3) that(2,3) by (cases y) (auto simp: sqlite_Get_def Let_def)
  qed
  then have "fresh R Q rc sc tc view (k_redis st') \<and> k_db st' = k_db st \<and> st' = st\<lparr>k_redis := k_redis st', k_m := k_m st'\<rparr>
      \<and> right_answer (view k) x"
  proof cases
    case err
    then show ?thesis using assms(1,2) by (auto simp: load_from_db_def right_answer_def)
  next
    case none
    then show ?thesis using assms(1,2) by (auto simp: load_from_db_def right_answer_def lookup_result_def db_ErrNotFound_def)
  next
    case (some v)
    obtain e where e: "redis_Set R k v ?st = (e, st')" "x = Inr v"
      using assms(2) some(1) by (cases "redis_Set R k v ?st") (simp add: load_from_db_def)
    have "st' = st\<lparr>k_redis := k_redis st', k_m := k_m st'\<rparr>"
      using redis_Set_frame [OF e(1)] by (cases st; cases st') simp
    then show ?thesis
      using redis_Set_fresh [OF f e(1) some(2)] redis_Set_frame [OF e(1)] some(2) e(2)
      by (simp add: right_answer_def lookup_result_def)
  qed
  then show "fresh R Q rc sc tc view (k_redis st')" "k_db st' = k_db st" "st' = st\<lparr>k_redis := k_redis st', k_m := k_m st'\<rparr>"
    "right_answer (view k) x" by blast+
qed

abbreviation stack_view :: "('s \<Rightarrow> string \<rightharpoonup> string) \<Rightarrow> ('r, 's) Stack \<Rightarrow> string \<rightharpoonup> string" where
  "stack_view sc st \<equiv> sc (k_db st)"

lemma CacheAside_Get_ok:
  assumes "fresh R Q rc sc tc (sc (k_db st)) (k_redis st)" "CacheAside_Get R Q k st = (x, st')"
  shows "fresh R Q rc sc tc (sc (k_db st)) (k_redis st') \<and> k_db st' = k_db st \<and> right_answer (sc (k_db st) k) x"
proof -
  obtain y st1 where y: "redis_Get R k st = (y, st1)" by fastforce
  note g = redis_Get_fresh [OF assms(1) y]
  show ?thesis
  proof (cases y)
    case (Inr v)
    then show ?thesis using assms(2) y g by (auto simp: CacheAside_Get_def right_answer_def lookup_result_def)
  next
    case (Inl e)
    show ?thesis
    proof (cases "errors_is e ErrMiss")
      case True
      then have l: "load_from_db R Q k st1 = (x, st')" using assms(2) y Inl by (simp add: CacheAside_Get_def)
      show ?thesis using load_from_db_fresh [OF g(1) l] g(2) by auto
    next
      case False
      then show ?thesis using assms(2) y g Inl by (auto simp: CacheAside_Get_def right_answer_def)
    qed
  qed
qed

lemma WriteThrough_Get_eq: "WriteThrough_Get R Q k st = CacheAside_Get R Q k st"
  by (simp add: WriteThrough_Get_def CacheAside_Get_def)

text \<open>A write to the database, with what the cache then may hold.\<close>

lemma sqlite_Set_effect:
  assumes "sqlite_laws Q sc tc" "sqlite_Set Q k v st = (e, st')"
  shows "sc (k_db st') = (if e = None then (sc (k_db st))(k \<mapsto> v) else sc (k_db st))" "k_redis st' = k_redis st"
  using assms(2) sqlite_laws_writes(1) [OF assms(1)] by (auto simp: sqlite_Set_def Let_def split: prod.splits)

lemma CacheAside_Set_ok:
  assumes "fresh R Q rc sc tc (sc (k_db st)) (k_redis st)" "CacheAside_Set R Q k v st = (e, st')"
  shows "fresh R Q rc sc tc (sc (k_db st')) (k_redis st')
    \<and> sc (k_db st') = (if e = None then (sc (k_db st))(k \<mapsto> v) else sc (k_db st))"
proof -
  note laws = fresh_laws [OF assms(1)]
  obtain e1 st1 where s: "sqlite_Set Q k v st = (e1, st1)" by fastforce
  note s' = sqlite_Set_effect [OF laws(3) s]
  show ?thesis
  proof (cases e1)
    case (Some err)
    then show ?thesis using assms s s' by (auto simp: CacheAside_Set_def)
  next
    case None
    obtain r where r: "rd_Del R (k_redis st) k = (None, r)"
      using laws(2) unfolding cache_up_def by (metis prod.collapse)
    have e: "e = None" "k_db st' = k_db st1" "k_redis st' = r"
      using assms(2) s None r s'(2) by (auto simp: CacheAside_Set_def redis_Del_def)
    have "rc r \<subseteq>\<^sub>m rc (k_redis st)" "rc r k = None" using redis_laws_Del [OF laws(1) r] by auto
    then have "rc r \<subseteq>\<^sub>m (sc (k_db st))(k \<mapsto> v)" using map_le_trans [OF _ laws(4)] by (simp add: map_le_upd_absent)
    then show ?thesis using laws e s' None by (simp add: fresh_def)
  qed
qed

lemma WriteThrough_Set_ok:
  assumes "fresh R Q rc sc tc (sc (k_db st)) (k_redis st)" "WriteThrough_Set R Q k v st = (e, st')"
  shows "fresh R Q rc sc tc (sc (k_db st')) (k_redis st')
    \<and> sc (k_db st') = (if e = None then (sc (k_db st))(k \<mapsto> v) else sc (k_db st))"
proof -
  note laws = fresh_laws [OF assms(1)]
  obtain e1 st1 where s: "sqlite_Set Q k v st = (e1, st1)" by fastforce
  note s' = sqlite_Set_effect [OF laws(3) s]
  show ?thesis
  proof (cases e1)
    case (Some err)
    then show ?thesis using assms s s' by (auto simp: WriteThrough_Set_def)
  next
    case None
    obtain r where r: "rd_Set R (k_redis st) k v (k_ttl st1) = (None, r)"
      using laws(2) unfolding cache_up_def by (metis prod.collapse)
    have e: "e = None" "k_db st' = k_db st1" "k_redis st' = r"
      using assms(2) s None r s'(2) by (auto simp: WriteThrough_Set_def redis_Set_def)
    have "rc r \<subseteq>\<^sub>m (rc (k_redis st))(k \<mapsto> v)" using redis_laws_Set [OF laws(1) r] by auto
    then have "rc r \<subseteq>\<^sub>m (sc (k_db st))(k \<mapsto> v)" using map_le_upd [OF laws(4)] by (rule map_le_trans)
    then show ?thesis using laws e s' None by (simp add: fresh_def)
  qed
qed

interpretation aside: caching_store "CacheAside_Get R Q" "CacheAside_Set R Q" CacheAside_Flush "\<lambda>st. sc (k_db st)"
  "\<lambda>st. fresh R Q rc sc tc (sc (k_db st)) (k_redis st)"
  for R :: "'a redis" and Q :: "('b, 'c) sqlite" and rc sc tc
proof unfold_locales
  fix st :: "('a, 'b) Stack" and k v
  assume inv: "fresh R Q rc sc tc (sc (k_db st)) (k_redis st)"
  obtain x st' where g: "CacheAside_Get R Q k st = (x, st')" by fastforce
  show "fresh R Q rc sc tc (sc (k_db (snd (CacheAside_Get R Q k st)))) (k_redis (snd (CacheAside_Get R Q k st)))
    \<and> sc (k_db (snd (CacheAside_Get R Q k st))) = sc (k_db st) \<and> right_answer (sc (k_db st) k) (fst (CacheAside_Get R Q k st))"
    using CacheAside_Get_ok [OF inv g] g by simp
  obtain e st'' where p: "CacheAside_Set R Q k v st = (e, st'')" by fastforce
  show "fresh R Q rc sc tc (sc (k_db (snd (CacheAside_Set R Q k v st)))) (k_redis (snd (CacheAside_Set R Q k v st)))
    \<and> sc (k_db (snd (CacheAside_Set R Q k v st)))
      = (if fst (CacheAside_Set R Q k v st) = None then (sc (k_db st))(k \<mapsto> v) else sc (k_db st))"
    unfolding p fst_conv snd_conv by (rule CacheAside_Set_ok [OF inv p])
qed (simp add: CacheAside_Flush_def)

interpretation through: caching_store "WriteThrough_Get R Q" "WriteThrough_Set R Q" WriteThrough_Flush "\<lambda>st. sc (k_db st)"
  "\<lambda>st. fresh R Q rc sc tc (sc (k_db st)) (k_redis st)"
  for R :: "'a redis" and Q :: "('b, 'c) sqlite" and rc sc tc
proof unfold_locales
  fix st :: "('a, 'b) Stack" and k v
  assume inv: "fresh R Q rc sc tc (sc (k_db st)) (k_redis st)"
  show "fresh R Q rc sc tc (sc (k_db (snd (WriteThrough_Get R Q k st)))) (k_redis (snd (WriteThrough_Get R Q k st)))
    \<and> sc (k_db (snd (WriteThrough_Get R Q k st))) = sc (k_db st) \<and> right_answer (sc (k_db st) k) (fst (WriteThrough_Get R Q k st))"
    unfolding WriteThrough_Get_eq by (rule aside.get_ok [OF inv])
  obtain e st'' where p: "WriteThrough_Set R Q k v st = (e, st'')" by fastforce
  show "fresh R Q rc sc tc (sc (k_db (snd (WriteThrough_Set R Q k v st)))) (k_redis (snd (WriteThrough_Set R Q k v st)))
    \<and> sc (k_db (snd (WriteThrough_Set R Q k v st)))
      = (if fst (WriteThrough_Set R Q k v st) = None then (sc (k_db st))(k \<mapsto> v) else sc (k_db st))"
    unfolding p fst_conv snd_conv by (rule WriteThrough_Set_ok [OF inv p])
qed (simp add: WriteThrough_Flush_def)

section \<open>Write-back\<close>

text \<open>What the store holds: the database under the unsaved entries.\<close>

definition wb_view :: "('s \<Rightarrow> string \<rightharpoonup> string) \<Rightarrow> ('r, 's) WriteBack \<Rightarrow> string \<rightharpoonup> string" where
  "wb_view sc st = sc (k_db st) ++ map_of (wb_dirty st)"

definition wb_inv :: "'r redis \<Rightarrow> ('s, 't) sqlite \<Rightarrow> ((string \<times> string) list \<Rightarrow> (string \<times> string) list)
    \<Rightarrow> ('r \<Rightarrow> string \<rightharpoonup> string) \<Rightarrow> ('s \<Rightarrow> string \<rightharpoonup> string) \<Rightarrow> ('t \<Rightarrow> string \<rightharpoonup> string) \<Rightarrow> ('r, 's) WriteBack \<Rightarrow> bool" where
  "wb_inv R Q visit rc sc tc st \<longleftrightarrow> fresh R Q rc sc tc (wb_view sc st) (k_redis st) \<and> tx_up Q
     \<and> (\<forall>xs. mset (visit xs) = mset xs) \<and> distinct (map fst (wb_dirty st))"

lemma wb_view_frame [simp]: "wb_view sc (st\<lparr>k_redis := r, k_m := m\<rparr>) = wb_view sc st" "wb_view sc (st\<lparr>k_m := m\<rparr>) = wb_view sc st"
  by (simp_all add: wb_view_def)

lemma WriteBack_Get_ok:
  assumes "wb_inv R Q visit rc sc tc st" "WriteBack_Get R Q k st = (x, st')"
  shows "wb_inv R Q visit rc sc tc st'" "wb_view sc st' = wb_view sc st" "right_answer (wb_view sc st k) x"
proof -
  have inv: "fresh R Q rc sc tc (wb_view sc st) (k_redis st)" "tx_up Q" "\<forall>xs. mset (visit xs) = mset xs" "distinct (map fst (wb_dirty st))"
    using assms(1) by (simp_all add: wb_inv_def)
  obtain y st1 where y: "redis_Get R k st = (y, st1)" by fastforce
  note g = redis_Get_fresh [OF inv(1) y]
  have d1: "wb_dirty st1 = wb_dirty st" by (subst g(3)) simp
  then have v1: "wb_view sc st1 = wb_view sc st" by (simp add: wb_view_def g(2))
  have "fresh R Q rc sc tc (wb_view sc st) (k_redis st') \<and> k_db st' = k_db st \<and> wb_dirty st' = wb_dirty st
      \<and> right_answer (wb_view sc st k) x"
  proof (cases y)
    case (Inr v)
    then show ?thesis using assms(2) y g d1 by (auto simp: WriteBack_Get_def right_answer_def lookup_result_def)
  next
    case (Inl e)
    show ?thesis
    proof (cases "errors_is e ErrMiss")
      case False
      then show ?thesis using assms(2) y g d1 Inl by (auto simp: WriteBack_Get_def right_answer_def)
    next
      case miss: True
      show ?thesis
      proof (cases "map_of (wb_dirty st) k")
        case (Some v)
        then have "wb_view sc st k = Some v" by (simp add: wb_view_def)
        then show ?thesis using assms(2) y g(1,2) d1 Inl miss Some
          by (auto simp: WriteBack_Get_def right_answer_def lookup_result_def)
      next
        case None
        then have l: "load_from_db R Q k st1 = (x, st')" using assms(2) y Inl miss d1 by (simp add: WriteBack_Get_def)
        have "sc (k_db st1) k = wb_view sc st k" using None g(2) by (simp add: wb_view_def map_add_def)
        note l' = load_from_db_fresh [OF g(1) l this]
        have "wb_dirty st' = wb_dirty st" by (subst l'(3)) (simp add: d1)
        then show ?thesis using l' g(2) by simp
      qed
    qed
  qed
  then show "wb_inv R Q visit rc sc tc st'" "wb_view sc st' = wb_view sc st" "right_answer (wb_view sc st k) x"
    using inv(2-4) by (simp_all add: wb_inv_def wb_view_def)
qed

lemma WriteBack_Set_ok:
  assumes "wb_inv R Q visit rc sc tc st" "WriteBack_Set R k v st = (e, st')"
  shows "wb_inv R Q visit rc sc tc st'" "e = None" "wb_view sc st' = (wb_view sc st)(k \<mapsto> v)" "k_db st' = k_db st"
    "map_of (wb_dirty st') = (map_of (wb_dirty st))(k \<mapsto> v)"
proof -
  have inv: "fresh R Q rc sc tc (wb_view sc st) (k_redis st)" "tx_up Q" "\<forall>xs. mset (visit xs) = mset xs" "distinct (map fst (wb_dirty st))"
    using assms(1) by (simp_all add: wb_inv_def)
  note laws = fresh_laws [OF inv(1)]
  obtain r where r: "rd_Set R (k_redis st) k v (k_ttl st) = (None, r)"
    using laws(2) unfolding cache_up_def by (metis prod.collapse)
  have st': "e = None" "k_redis st' = r" "k_db st' = k_db st" "wb_dirty st' = AList.update k v (wb_dirty st)"
    using assms(2) r by (auto simp: WriteBack_Set_def redis_Set_def Let_def triggerFlush_def)
  show "e = None" "k_db st' = k_db st" by (rule st')+
  show "map_of (wb_dirty st') = (map_of (wb_dirty st))(k \<mapsto> v)" by (simp add: st'(4) update_conv')
  then show view: "wb_view sc st' = (wb_view sc st)(k \<mapsto> v)" by (simp add: wb_view_def st'(3))
  have "rc r \<subseteq>\<^sub>m (rc (k_redis st))(k \<mapsto> v)" using redis_laws_Set [OF laws(1) r] by auto
  then have "rc r \<subseteq>\<^sub>m (wb_view sc st)(k \<mapsto> v)" using map_le_upd [OF laws(4)] by (rule map_le_trans)
  then show "wb_inv R Q visit rc sc tc st'"
    using laws inv(2-4) view st'(2,4) by (simp add: wb_inv_def fresh_def distinct_update)
qed

text \<open>Taking the dirty entries and writing them to the database keeps the view.\<close>

lemma flushDirty_ok:
  assumes "wb_inv R Q visit rc sc tc st" "flushDirty Q visit st = (e, st')"
  shows "wb_inv R Q visit rc sc tc st'" "wb_view sc st' = wb_view sc st" "e = None" "wb_dirty st' = []"
    "sc (k_db st') = wb_view sc st"
proof -
  have inv: "fresh R Q rc sc tc (wb_view sc st) (k_redis st)" "tx_up Q" "\<forall>xs. mset (visit xs) = mset xs" "distinct (map fst (wb_dirty st))"
    using assms(1) by (simp_all add: wb_inv_def)
  have "wb_dirty st' = [] \<and> sc (k_db st') = wb_view sc st \<and> k_redis st' = k_redis st \<and> e = None"
  proof (cases "wb_dirty st = []")
    case True
    then show ?thesis using assms(2) by (auto simp: flushDirty_def take_dirty_def wb_view_def)
  next
    case False
    then have b: "BatchSet Q (visit (wb_dirty st)) (st\<lparr>wb_dirty := []\<rparr>) = (e, st')"
      using assms(2) by (simp add: flushDirty_def take_dirty_def)
    note eff = BatchSet_effect [OF fresh_laws(3) [OF inv(1)] b]
    obtain d where "BatchSet Q (visit (wb_dirty st)) (st\<lparr>wb_dirty := []\<rparr>) = (None, st\<lparr>wb_dirty := [], k_db := d,
        k_m := (k_m st)\<lparr>mt_DBSets := mt_DBSets (k_m st) + word_of_nat ((length (visit (wb_dirty st)) + 399) div 400)\<rparr>\<rparr>)"
      using BatchSet_succeeds [OF inv(2), of "visit (wb_dirty st)" "st\<lparr>wb_dirty := []\<rparr>"] by auto
    then have e: "e = None" using b by simp
    have "sc (k_db st') = sc (k_db st) ++ map_of (wb_dirty st)"
      using eff(1) e upserts_distinct [OF inv(4)] inv(3) by simp
    moreover have "wb_dirty st' = []" "k_redis st' = k_redis st" by (subst eff(2); simp)+
    ultimately show ?thesis using e by (simp add: wb_view_def)
  qed
  then show "wb_inv R Q visit rc sc tc st'" "wb_view sc st' = wb_view sc st" "e = None" "wb_dirty st' = []"
    "sc (k_db st') = wb_view sc st"
    using inv by (simp_all add: wb_inv_def wb_view_def)
qed

interpretation behind: caching_store "WriteBack_Get R Q" "WriteBack_Set R" "WriteBack_Flush Q visit" "wb_view sc"
  "wb_inv R Q visit rc sc tc"
  for R :: "'a redis" and Q :: "('b, 'c) sqlite" and visit rc sc tc
proof unfold_locales
  fix st :: "('a, 'b) WriteBack" and k v
  assume inv: "wb_inv R Q visit rc sc tc st"
  obtain x st1 where g: "WriteBack_Get R Q k st = (x, st1)" by fastforce
  show "wb_inv R Q visit rc sc tc (snd (WriteBack_Get R Q k st)) \<and> wb_view sc (snd (WriteBack_Get R Q k st)) = wb_view sc st
      \<and> right_answer (wb_view sc st k) (fst (WriteBack_Get R Q k st))"
    unfolding g fst_conv snd_conv using WriteBack_Get_ok [OF inv g] by blast
  obtain e st2 where p: "WriteBack_Set R k v st = (e, st2)" by fastforce
  show "wb_inv R Q visit rc sc tc (snd (WriteBack_Set R k v st)) \<and> wb_view sc (snd (WriteBack_Set R k v st))
      = (if fst (WriteBack_Set R k v st) = None then (wb_view sc st)(k \<mapsto> v) else wb_view sc st)"
    unfolding p fst_conv snd_conv using WriteBack_Set_ok [OF inv p] by simp
  obtain e' st3 where f: "flushDirty Q visit st = (e', st3)" by fastforce
  show "wb_inv R Q visit rc sc tc (snd (WriteBack_Flush Q visit st)) \<and> wb_view sc (snd (WriteBack_Flush Q visit st)) = wb_view sc st"
    unfolding WriteBack_Flush_def f snd_conv using flushDirty_ok [OF inv f] by blast
qed

section \<open>Servers in memory\<close>

text \<open>
  Instances of the two servers: a cache that keeps everything, one that has forgotten everything
  whenever it is asked, and one that refuses to delete; a database that works, and one whose transactions
  cannot be committed.
\<close>

type_synonym table = "string \<rightharpoonup> string"

definition mem_redis :: "table redis" where
  "mem_redis = \<lparr>rd_Get = (\<lambda>r k. (Inr (r k), r)), rd_Set = (\<lambda>r k v ttl. (None, r(k \<mapsto> v))),
     rd_Del = (\<lambda>r k. (None, r(k := None))), rd_FlushAll = (\<lambda>r. (None, Map.empty))\<rparr>"

definition forgetful_redis :: "table redis" where
  "forgetful_redis = mem_redis\<lparr>rd_Get := (\<lambda>r k. (Inr None, Map.empty))\<rparr>"

definition stubborn_redis :: "table redis" where
  "stubborn_redis = mem_redis\<lparr>rd_Del := (\<lambda>r k. (Some (Err ''timeout''), r))\<rparr>"

definition mem_sqlite :: "(table, table) sqlite" where
  "mem_sqlite = \<lparr>sq_Query = (\<lambda>s k. Inr (s k)), sq_Upsert = (\<lambda>s k v. (None, s(k \<mapsto> v))),
     sq_DeleteAll = (\<lambda>s. (None, Map.empty)), sq_BeginTx = Inr, sq_Exec = (\<lambda>t rows. (None, upserts t rows)),
     sq_Commit = (\<lambda>s t. (None, t))\<rparr>"

definition locked_sqlite :: "(table, table) sqlite" where
  "locked_sqlite = mem_sqlite\<lparr>sq_Commit := (\<lambda>s t. (Some (Err ''database is locked''), s))\<rparr>"

lemma mem_servers_ok [simp]:
  "redis_laws mem_redis (\<lambda>r. r)" "redis_laws forgetful_redis (\<lambda>r. r)" "redis_laws stubborn_redis (\<lambda>r. r)"
  "cache_up mem_redis" "cache_up forgetful_redis"
  "sqlite_laws mem_sqlite (\<lambda>s. s) (\<lambda>t. t)" "sqlite_laws locked_sqlite (\<lambda>s. s) (\<lambda>t. t)" "tx_up mem_sqlite"
  by (auto simp: redis_laws_def cache_up_def sqlite_laws_def tx_up_def mem_redis_def forgetful_redis_def
      stubborn_redis_def mem_sqlite_def locked_sqlite_def map_le_def)

definition zero_M :: M where
  "zero_M = \<lparr>mt_CacheHits = 0, mt_CacheMisses = 0, mt_DBGets = 0, mt_DBSets = 0, mt_WBMaxDirty = 0, mt_WBFinalDirty = 0\<rparr>"

definition empty_stack :: "(table, table) Stack" where
  "empty_stack = \<lparr>k_redis = Map.empty, k_ttl = 60, k_db = Map.empty, k_m = zero_M\<rparr>"

lemma empty_stack_fields [simp]: "k_redis empty_stack = Map.empty" "k_db empty_stack = Map.empty"
  by (simp_all add: empty_stack_def)

section \<open>Properties\<close>



text \<open>
  A batch is written whole. When the database takes statements of up to 999 parameters, \<open>BatchSet\<close>
  returns without an error after one statement for every 400 pairs or part of them, and the
  table then has every pair of the map, in whatever order the map was visited, and its other rows as they were.
\<close>

theorem batch_set_writes_all:
  assumes "sqlite_laws Q sc tc" "tx_up Q" "distinct (map fst pairs)" "mset order = mset pairs"
  shows "\<exists>st'. BatchSet Q order st = (None, st') \<and> sc (k_db st') = sc (k_db st) ++ map_of pairs
    \<and> mt_DBSets (k_m st') = mt_DBSets (k_m st) + word_of_nat ((length pairs + 399) div 400)
    \<and> k_redis st' = k_redis st"
proof -
  have len: "length order = length pairs" using assms(4) by (metis size_mset)
  obtain d where b: "BatchSet Q order st = (None, st\<lparr>k_db := d,
      k_m := (k_m st)\<lparr>mt_DBSets := mt_DBSets (k_m st) + word_of_nat ((length order + 399) div 400)\<rparr>\<rparr>)"
    using BatchSet_succeeds [OF assms(2), of order st] by blast
  from BatchSet_effect(1) [OF assms(1) b] upserts_distinct [OF assms(3,4)] b len show ?thesis by simp
qed

theorem batch_set_writes_all_witness:
  "\<exists>st'. BatchSet mem_sqlite [(''b'', ''2''), (''a'', ''1'')] empty_stack = (None, st') \<and> k_db st' = [''a'' \<mapsto> ''1'', ''b'' \<mapsto> ''2'']"
  using batch_set_writes_all [of mem_sqlite "\<lambda>s. s" "\<lambda>t. t" "[(''a'', ''1''), (''b'', ''2'')]" "[(''b'', ''2''), (''a'', ''1'')]" empty_stack]
  by (auto simp: fun_upd_twist)

text \<open>
  A failed deletion leaves a stale value. The cache-aside strategy ignores an error of the deletion
  that follows a write: \<open>Set\<close> reports success, and the next \<open>Get\<close> returns the old value.
\<close>

theorem cache_aside_stale_read:
  assumes "k_redis st k = Some old"
  shows "\<exists>st1. CacheAside_Set stubborn_redis mem_sqlite k v st = (None, st1) \<and> k_db st1 k = Some v
    \<and> fst (CacheAside_Get stubborn_redis mem_sqlite k st1) = Inr old"
  using assms
  by (simp add: CacheAside_Set_def sqlite_Set_def redis_Del_def stubborn_redis_def mem_redis_def mem_sqlite_def Let_def
      CacheAside_Get_def redis_Get_def)

theorem cache_aside_stale_read_witness:
  "\<exists>st1. CacheAside_Set stubborn_redis mem_sqlite ''k'' ''new'' (empty_stack\<lparr>k_redis := [''k'' \<mapsto> ''old'']\<rparr>) = (None, st1)
    \<and> k_db st1 ''k'' = Some ''new'' \<and> fst (CacheAside_Get stubborn_redis mem_sqlite ''k'' st1) = Inr ''old''"
  using cache_aside_stale_read [of "empty_stack\<lparr>k_redis := [''k'' \<mapsto> ''old'']\<rparr>" "''k''" "''old''" "''new''"] by simp

end
