(* ===== verification/Write_Back.thy ===== *)
theory Write_Back
  imports Cache_Store
begin

text \<open>
  The write-back store under concurrency. \<open>flushDirty\<close> takes the dirty entries under the mutex and
  writes them after it has released it, so other operations run in between, and several flushes
  can be on their way at once: the background flusher, a caller of \<open>Flush\<close>, \<open>Close\<close>. A step relation
  interleaves the operations; the reachable states carry the batches that were taken and not
  yet written, and the map of the acknowledged writes.
\<close>

section \<open>Interleavings\<close>

text \<open>
  A state: the store, the batches on their way, oldest first, and the writes acknowledged so far.
  With \<open>fifo\<close>, batches are written in the order in which they were taken, as a single flusher does.
\<close>

type_synonym ('r, 's) wb_state = "('r, 's) WriteBack \<times> (string \<times> string) list list \<times> (string \<rightharpoonup> string)"

inductive wb_reach :: "'r redis \<Rightarrow> ('s, 't) sqlite \<Rightarrow> ((string \<times> string) list \<Rightarrow> (string \<times> string) list) \<Rightarrow> bool
    \<Rightarrow> ('r, 's) wb_state \<Rightarrow> ('r, 's) wb_state \<Rightarrow> bool"
  for R Q visit fifo s0 where
  start: "wb_reach R Q visit fifo s0 s0"
| get: "wb_reach R Q visit fifo s0 (st, bs, m) \<Longrightarrow> WriteBack_Get R Q k st = (x, st')
    \<Longrightarrow> wb_reach R Q visit fifo s0 (st', bs, m)"
| put: "wb_reach R Q visit fifo s0 (st, bs, m) \<Longrightarrow> WriteBack_Set R k v st = (e, st')
    \<Longrightarrow> wb_reach R Q visit fifo s0 (st', bs, if e = None then m(k \<mapsto> v) else m)"
| taken: "wb_reach R Q visit fifo s0 (st, bs, m) \<Longrightarrow> take_dirty st = (b, st') \<Longrightarrow> b \<noteq> []
    \<Longrightarrow> wb_reach R Q visit fifo s0 (st', bs @ [b], m)"
| written: "wb_reach R Q visit fifo s0 (st, bs1 @ b # bs2, m) \<Longrightarrow> (fifo \<longrightarrow> bs1 = []) \<Longrightarrow> BatchSet Q (visit b) st = (e, st')
    \<Longrightarrow> wb_reach R Q visit fifo s0 (st', bs1 @ bs2, m)"

text \<open>What all levels hold together: the database under the batches under the dirty entries.\<close>

definition levels :: "(string \<rightharpoonup> string) \<Rightarrow> (string \<times> string) list list \<Rightarrow> (string \<times> string) list \<Rightarrow> (string \<rightharpoonup> string)" where
  "levels db bs dirty = foldl (\<lambda>m b. m ++ map_of b) db bs ++ map_of dirty"

definition durable_inv :: "('s \<Rightarrow> string \<rightharpoonup> string) \<Rightarrow> ('r, 's) wb_state \<Rightarrow> bool" where
  "durable_inv sc s \<longleftrightarrow> (case s of (st, bs, m) \<Rightarrow>
     levels (sc (k_db st)) bs (wb_dirty st) = m \<and> distinct (map fst (wb_dirty st)) \<and> (\<forall>b \<in> set bs. distinct (map fst b)))"

lemma WriteBack_Get_frame:
  assumes "WriteBack_Get R Q k st = (x, st')"
  shows "k_db st' = k_db st" "wb_dirty st' = wb_dirty st"
proof -
  have load: "k_db st'' = k_db st1 \<and> wb_dirty st'' = wb_dirty st1" if "load_from_db R Q k st1 = (y, st'')"
    for y and st1 st'' :: "('a, 'b) WriteBack"
    using that by (auto simp: load_from_db_def sqlite_Get_def redis_Set_def Let_def
        split: sum.splits option.splits prod.splits)
  show "k_db st' = k_db st" "wb_dirty st' = wb_dirty st"
    using assms by (auto simp: WriteBack_Get_def redis_Get_def split: sum.splits option.splits prod.splits if_splits
        dest!: load)
qed

lemma WriteBack_Set_frame:
  assumes "WriteBack_Set R k v st = (e, st')"
  shows "k_db st' = k_db st" "wb_dirty st' = (if e = None then AList.update k v (wb_dirty st) else wb_dirty st)"
  using assms by (auto simp: WriteBack_Set_def redis_Set_def triggerFlush_def Let_def split: option.splits prod.splits)

lemma levels_update: "levels db bs (AList.update k v d) = (levels db bs d)(k \<mapsto> v)"
  by (simp add: levels_def update_conv')

lemma levels_take: "levels db (bs @ [d]) [] = levels db bs d"
  by (simp add: levels_def)

lemma levels_write: "levels db (b # bs) d = levels (db ++ map_of b) bs d"
  by (simp add: levels_def)

text \<open>Every step of a single flusher keeps the levels equal to the acknowledged writes.\<close>

lemma durable_inv_reach:
  assumes "sqlite_laws Q sc tc" "tx_up Q" "\<forall>xs. mset (visit xs) = mset xs"
    and "durable_inv sc s0" "wb_reach R Q visit True s0 s"
  shows "durable_inv sc s"
  using assms(5)
proof (induction rule: wb_reach.induct)
  case start
  show ?case by (rule assms(4))
next
  case (get st bs m k x st')
  then show ?case by (simp add: durable_inv_def WriteBack_Get_frame)
next
  case (put st bs m k v e st')
  then show ?case
    using WriteBack_Set_frame [OF put.hyps(2)] by (simp add: durable_inv_def levels_update distinct_update)
next
  case (taken st bs m b st')
  then have "b = wb_dirty st" "st' = st\<lparr>wb_dirty := []\<rparr>" by (auto simp: take_dirty_def split: if_splits)
  with taken.IH show ?case by (auto simp: durable_inv_def levels_take)
next
  case (written st bs1 b bs2 m e st')
  then have bs1: "bs1 = []" and d: "distinct (map fst b)" by (auto simp: durable_inv_def)
  obtain d' where "BatchSet Q (visit b) st = (None, st\<lparr>k_db := d',
      k_m := (k_m st)\<lparr>mt_DBSets := mt_DBSets (k_m st) + word_of_nat ((length (visit b) + 399) div 400)\<rparr>\<rparr>)"
    using BatchSet_succeeds [OF assms(2), of "visit b" st] by blast
  then have e: "e = None" using written.hyps(3) by simp
  note eff = BatchSet_effect [OF assms(1) written.hyps(3)]
  have "sc (k_db st') = sc (k_db st) ++ map_of b" using eff(1) e upserts_distinct [OF d] assms(3) by simp
  moreover have "wb_dirty st' = wb_dirty st" by (subst eff(2)) simp
  ultimately show ?case using written.IH bs1 by (simp add: durable_inv_def levels_write)
qed

section \<open>Properties\<close>

text \<open>
  C30 (no acknowledged write is lost with one flusher). However reads, writes and the two halves of the flushes
  are interleaved: as long as batches are written in the order in which they were taken and
  transactions commit, the database, the batches on their way and the dirty entries
  together hold exactly the acknowledged writes. When nothing is dirty or on its way, the
  database holds them.
\<close>

theorem acknowledged_writes_durable:
  assumes "sqlite_laws Q sc tc" "tx_up Q" "\<forall>xs. mset (visit xs) = mset xs"
    and "wb_dirty st0 = []" "wb_reach R Q visit True (st0, [], sc (k_db st0)) (st, bs, m)"
  shows "levels (sc (k_db st)) bs (wb_dirty st) = m
    \<and> (bs = [] \<and> wb_dirty st = [] \<longrightarrow> sc (k_db st) = m)"
proof -
  have "durable_inv sc (st0, [], sc (k_db st0))" by (simp add: durable_inv_def assms(4) levels_def)
  from durable_inv_reach [OF assms(1-3) this assms(5)] show ?thesis
    by (auto simp: durable_inv_def levels_def)
qed

definition new_store :: "(table, table) WriteBack" where
  "new_store = NewWriteBack empty_stack 200 512"

lemma new_store_fields [simp]: "wb_dirty new_store = []" "k_db new_store = Map.empty"
  by (simp_all add: new_store_def NewWriteBack_def)

text \<open>The steps on a store with servers in memory.\<close>

lemma mem_put:
  "WriteBack_Set mem_redis k v st = (None, snd (WriteBack_Set mem_redis k v st))"
  "WriteBack_Set forgetful_redis k v st = (None, snd (WriteBack_Set forgetful_redis k v st))"
  by (simp_all add: WriteBack_Set_def redis_Set_def mem_redis_def forgetful_redis_def Let_def)

lemma mem_put_fields [simp]:
  "wb_dirty (snd (WriteBack_Set mem_redis k v st)) = AList.update k v (wb_dirty st)"
  "k_db (snd (WriteBack_Set R k v st)) = k_db st"
  "wb_dirty (snd (WriteBack_Set forgetful_redis k v st)) = AList.update k v (wb_dirty st)"
  using WriteBack_Set_frame [OF mem_put(1), of k v st] WriteBack_Set_frame [OF mem_put(2), of k v st]
    WriteBack_Set_frame(1) [of R k v st] by (simp_all, metis prod.collapse)

lemma take_dirty_eq: "wb_dirty st = b \<Longrightarrow> take_dirty st = (b, st\<lparr>wb_dirty := []\<rparr>)"
  by (auto simp: take_dirty_def)

lemma wb_reach_put:
  "wb_reach R Q visit fifo s0 (st, bs, m) \<Longrightarrow> WriteBack_Set R k v st = (None, st')
    \<Longrightarrow> wb_reach R Q visit fifo s0 (st', bs, m(k \<mapsto> v))"
  using wb_reach.put [of R Q visit fifo s0 st bs m k v None st'] by simp

lemma wb_reach_take:
  "wb_reach R Q visit fifo s0 (st, bs, m) \<Longrightarrow> wb_dirty st = b \<Longrightarrow> b \<noteq> []
    \<Longrightarrow> wb_reach R Q visit fifo s0 (st\<lparr>wb_dirty := []\<rparr>, bs @ [b], m)"
  by (rule wb_reach.taken) (simp_all add: take_dirty_eq)

theorem acknowledged_writes_durable_witness:
  "levels Map.empty [[(''k'', ''1'')]] [] = [''k'' \<mapsto> ''1'']"
proof -
  let ?s1 = "snd (WriteBack_Set mem_redis ''k'' ''1'' new_store)"
  have "wb_reach mem_redis mem_sqlite (\<lambda>xs. xs) True (new_store, [], Map.empty) (?s1, [], [''k'' \<mapsto> ''1''])"
    by (rule wb_reach_put [OF wb_reach.start mem_put(1)])
  then have "wb_reach mem_redis mem_sqlite (\<lambda>xs. xs) True (new_store, [], Map.empty)
      (?s1\<lparr>wb_dirty := []\<rparr>, [] @ [[(''k'', ''1'')]], [''k'' \<mapsto> ''1''])"
    by (rule wb_reach_take) simp_all
  then show ?thesis
    using acknowledged_writes_durable [of mem_sqlite "\<lambda>s. s" "\<lambda>t. t" "\<lambda>xs. xs" new_store mem_redis
        "?s1\<lparr>wb_dirty := []\<rparr>" "[[(''k'', ''1'')]]" "[''k'' \<mapsto> ''1'']"]
    by simp
qed

text \<open>
  Two flushes can lose an update. A flush that was overtaken by a later one writes its older values
  last: two writes to a key, each followed by the first half of a flush, then the second halves in the
  opposite order. Both writes were acknowledged and nothing is dirty or on its way, but the
  database holds the first value.
\<close>

theorem concurrent_flushes_lose_update:
  "\<exists>st. wb_reach mem_redis mem_sqlite (\<lambda>xs. xs) False (new_store, [], Map.empty) (st, [], [k \<mapsto> v2])
    \<and> wb_dirty st = [] \<and> k_db st k = Some v1"
proof -
  let ?reach = "wb_reach mem_redis mem_sqlite (\<lambda>xs. xs) False (new_store, [], Map.empty)"
  define s1 where "s1 = snd (WriteBack_Set mem_redis k v1 new_store)"
  define s2 where "s2 = s1\<lparr>wb_dirty := []\<rparr>"
  define s3 where "s3 = snd (WriteBack_Set mem_redis k v2 s2)"
  define s4 where "s4 = s3\<lparr>wb_dirty := []\<rparr>"
  define s5 where "s5 = snd (BatchSet mem_sqlite [(k, v2)] s4)"
  define s6 where "s6 = snd (BatchSet mem_sqlite [(k, v1)] s5)"
  have batch: "BatchSet mem_sqlite [(a, b)] st = (None, st\<lparr>k_db := (k_db st)(a \<mapsto> b), k_m := count_set (k_m st)\<rparr>)"
    for a b and st :: "(table, table) WriteBack"
    by (simp add: BatchSet_def mem_sqlite_def batch_loop_step batch_loop_end maxPairsPerStmt_def upserts_def)
  have "?reach (s1, [], [k \<mapsto> v1])" unfolding s1_def by (rule wb_reach_put [OF wb_reach.start mem_put(1)])
  then have "?reach (s2, [] @ [[(k, v1)]], [k \<mapsto> v1])" unfolding s2_def by (rule wb_reach_take) (simp_all add: s1_def)
  then have "?reach (s3, [] @ [[(k, v1)]], [k \<mapsto> v1](k \<mapsto> v2))" unfolding s3_def by (rule wb_reach_put [OF _ mem_put(1)])
  then have "?reach (s4, ([] @ [[(k, v1)]]) @ [[(k, v2)]], [k \<mapsto> v1](k \<mapsto> v2))"
    unfolding s4_def by (rule wb_reach_take) (simp_all add: s3_def s2_def)
  then have "?reach (s4, [[(k, v1)]] @ [(k, v2)] # [], [k \<mapsto> v2])" by simp
  then have "?reach (s5, [[(k, v1)]] @ [], [k \<mapsto> v2])"
    by (rule wb_reach.written [where e = None]) (simp_all add: s5_def batch)
  then have "?reach (s5, [] @ [(k, v1)] # [], [k \<mapsto> v2])" by simp
  then have "?reach (s6, [] @ [], [k \<mapsto> v2])"
    by (rule wb_reach.written [where e = None]) (simp_all add: s6_def batch)
  moreover have "wb_dirty s6 = []" "k_db s6 k = Some v1" by (simp_all add: s6_def s5_def s4_def batch)
  ultimately show ?thesis by auto
qed

text \<open>
  An acknowledged write can be unreadable. Between the two halves of a flush a value is neither
  dirty nor in the database. If the cache has dropped it, a read of the key is
  answered with "key not found", although the write was acknowledged.
\<close>

theorem flush_hides_write:
  "\<exists>st. wb_reach forgetful_redis mem_sqlite (\<lambda>xs. xs) True (new_store, [], Map.empty) (st, [[(k, v)]], [k \<mapsto> v])
    \<and> fst (WriteBack_Get forgetful_redis mem_sqlite k st) = Inl store_ErrNotFound"
proof -
  let ?reach = "wb_reach forgetful_redis mem_sqlite (\<lambda>xs. xs) True (new_store, [], Map.empty)"
  define s1 where "s1 = snd (WriteBack_Set forgetful_redis k v new_store)"
  have "?reach (s1, [], [k \<mapsto> v])" unfolding s1_def by (rule wb_reach_put [OF wb_reach.start mem_put(2)])
  then have "?reach (s1\<lparr>wb_dirty := []\<rparr>, [] @ [[(k, v)]], [k \<mapsto> v])" by (rule wb_reach_take) (simp_all add: s1_def)
  moreover have "k_db (s1\<lparr>wb_dirty := []\<rparr>) = Map.empty" by (simp add: s1_def)
  then have "fst (WriteBack_Get forgetful_redis mem_sqlite k (s1\<lparr>wb_dirty := []\<rparr>)) = Inl store_ErrNotFound"
    by (simp add: WriteBack_Get_def redis_Get_def forgetful_redis_def mem_redis_def mem_sqlite_def ErrMiss_def
        load_from_db_def sqlite_Get_def db_ErrNotFound_def Let_def)
  ultimately show ?thesis by auto
qed

text \<open>
  A failed flush loses its entries. \<open>flushDirty\<close> empties the dirty map before it writes. If the
  transaction fails, the entries are in neither: they are lost from the database for good, and no later
  flush writes them.
\<close>

theorem failed_flush_loses_writes:
  assumes "sqlite_laws Q sc tc" "flushDirty Q visit st = (Some err, st')"
  shows "wb_dirty st' = [] \<and> sc (k_db st') = sc (k_db st) \<and> flushDirty Q visit st' = (None, st')"
proof -
  have b: "wb_dirty st \<noteq> []" "BatchSet Q (visit (wb_dirty st)) (st\<lparr>wb_dirty := []\<rparr>) = (Some err, st')"
    using assms(2) by (auto simp: flushDirty_def take_dirty_def split: if_splits)
  note eff = BatchSet_effect [OF assms(1) b(2)]
  have "wb_dirty st' = []" by (subst eff(2)) simp
  then show ?thesis using eff(1) by (simp add: flushDirty_def take_dirty_def)
qed

theorem failed_flush_loses_writes_witness:
  "\<exists>st'. flushDirty locked_sqlite (\<lambda>xs. xs) (snd (WriteBack_Set mem_redis ''k'' ''1'' new_store)) = (Some (Err ''database is locked''), st')
    \<and> wb_dirty st' = [] \<and> k_db st' ''k'' = None"
proof -
  let ?st = "snd (WriteBack_Set mem_redis ''k'' ''1'' new_store)"
  have "fst (flushDirty locked_sqlite (\<lambda>xs. xs) ?st) = Some (Err ''database is locked'')"
    by (simp add: flushDirty_def take_dirty_eq [OF refl] BatchSet_def locked_sqlite_def mem_sqlite_def batch_loop_step batch_loop_end
        maxPairsPerStmt_def)
  then obtain st' where f: "flushDirty locked_sqlite (\<lambda>xs. xs) ?st = (Some (Err ''database is locked''), st')"
    by (metis prod.collapse)
  then show ?thesis using failed_flush_loses_writes [OF mem_servers_ok(7) f] by auto
qed

end
