(* ===== verification/Queue_Adapters.thy ===== *)
theory Queue_Adapters
  imports Strconv
begin

text \<open>
  The queue clients of the benchmark in \<^verbatim>\<open>tasks/task_3\<close>: publishing over RabbitMQ with confirmations, publishing to
  a Redis stream, and the two loops that consume. What the client libraries return, and what arrives on their channels, are
  inputs; the calls the adapters make are recorded in order.
\<close>

section \<open>Errors\<close>

definition context_Canceled :: go_error where
  "context_Canceled = Err ''context canceled''"

definition context_DeadlineExceeded :: go_error where
  "context_DeadlineExceeded = Err ''context deadline exceeded''"

definition redis_Nil :: go_error where
  "redis_Nil = Err ''redis: nil''"

section \<open>RabbitMQ: opening\<close>

text \<open>The calls of \<^verbatim>\<open>dial\<close> and of the constructor, with the error of each. The result names the handles left open.\<close>

datatype handle = Connection | Channel

record dial_input =
  op_dial :: "go_error option"
  op_channel :: "go_error option"
  op_confirm :: "go_error option"
  op_declare :: "go_error option"

text \<open>
  A confirmation carries the number of the message on its channel. The channel of confirmations holds those that
  arrived and were not taken; \<open>r_sent\<close> are the messages published, the \<open>n\<close>-th of them having the number \<open>n\<close>.
\<close>

record confirmation =
  DeliveryTag :: nat
  Ack :: bool

record Rabbit =
  r_queue :: string
  r_open :: "handle list"
  r_sent :: "(string \<times> bytes) list"
  r_confirms :: "confirmation list"
  r_confirms_closed :: bool

definition rabbit_dial :: "dial_input \<Rightarrow> handle list \<times> unit res" where
  "rabbit_dial inp =
     (case op_dial inp of
        Some err \<Rightarrow> ([], Inl (wrapf_error ''amqp dial: %w'' [] err))
      | None \<Rightarrow>
          (case op_channel inp of
             Some err \<Rightarrow> (remove1 Connection [Connection], Inl (wrapf_error ''amqp channel: %w'' [] err))
           | None \<Rightarrow>
               (case op_confirm inp of
                  Some err \<Rightarrow> (remove1 Connection (remove1 Channel [Connection, Channel]), Inl (wrapf_error ''amqp confirm: %w'' [] err))
                | None \<Rightarrow> ([Connection, Channel], Inr ()))))"

definition NewRabbit :: "dial_input \<Rightarrow> string \<Rightarrow> handle list \<times> Rabbit res" where
  "NewRabbit inp queue =
     (case rabbit_dial inp of
        (hs, Inl err) \<Rightarrow> (hs, Inl err)
      | (hs, Inr _) \<Rightarrow>
          (case op_declare inp of
             Some err \<Rightarrow> (hs, Inl (wrapf_error ''queue declare: %w'' [] err))
           | None \<Rightarrow> (hs, Inr \<lparr>r_queue = queue, r_open = hs, r_sent = [], r_confirms = [], r_confirms_closed = False\<rparr>)))"

definition rabbit_Close :: "go_error option \<Rightarrow> Rabbit \<Rightarrow> unit res \<times> Rabbit" where
  "rabbit_Close err r =
     (let r = r\<lparr>r_open := remove1 Channel (r_open r)\<rparr> in
      if Connection \<in> set (r_open r)
      then ((case err of Some e \<Rightarrow> Inl e | None \<Rightarrow> Inr ()), r\<lparr>r_open := remove1 Connection (r_open r)\<rparr>)
      else (Inr (), r))"

definition rabbit_Reset :: "(string \<Rightarrow> 's \<Rightarrow> unit res \<times> 's) \<Rightarrow> Rabbit \<Rightarrow> 's \<Rightarrow> unit res \<times> 's" where
  "rabbit_Reset QueuePurge r s = QueuePurge (r_queue r) s"

section \<open>RabbitMQ: publishing\<close>

text \<open>
  \<open>pi_arrived\<close> are the confirmations that arrive while the call waits, \<open>pi_case\<close> the case the \<^verbatim>\<open>select\<close> takes.
  Without a confirmation, and with the channel open, the first case is not ready and the wait ends after five seconds.
\<close>

datatype select_case = ConfirmCase | DoneCase go_error | TimeoutCase

record publish_input =
  pi_publish :: "go_error option"
  pi_arrived :: "confirmation list"
  pi_case :: select_case

definition confirm_timeout :: go_error where
  "confirm_timeout = Err ''publish confirm timeout''"

definition await_confirm :: "select_case \<Rightarrow> Rabbit \<Rightarrow> unit res \<times> Rabbit" where
  "await_confirm c r =
     (case c of
        DoneCase err \<Rightarrow> (Inl err, r)
      | TimeoutCase \<Rightarrow> (Inl confirm_timeout, r)
      | ConfirmCase \<Rightarrow>
          (case r_confirms r of
             [] \<Rightarrow> (Inl (if r_confirms_closed r then Err ''confirm channel closed'' else confirm_timeout), r)
           | cf # rest \<Rightarrow> ((if Ack cf then Inr () else Inl (Err ''publish nack'')), r\<lparr>r_confirms := rest\<rparr>)))"

definition rabbit_Publish :: "publish_input \<Rightarrow> bytes \<Rightarrow> Rabbit \<Rightarrow> unit res \<times> Rabbit" where
  "rabbit_Publish inp payload r =
     (case pi_publish inp of
        Some err \<Rightarrow> (Inl err, r)
      | None \<Rightarrow> await_confirm (pi_case inp) (r\<lparr>r_sent := r_sent r @ [(r_queue r, payload)], r_confirms := r_confirms r @ pi_arrived inp\<rparr>))"

section \<open>Consuming\<close>

text \<open>What a consumer does: it calls the handler, acknowledges, and removes entries of a stream.\<close>

datatype action = Handle string bytes | AckIds "string list" | DelIds "string list"

text \<open>RabbitMQ: the events a turn of the loop selects from; a delivery is known by its tag on the channel.\<close>

datatype rabbit_event = Done go_error | Delivery string bytes | Deliveries_closed

record consume_input =
  co_channel :: "go_error option"
  co_qos :: "go_error option"
  co_consume :: "go_error option"

fun rabbit_loop :: "rabbit_event list \<Rightarrow> action list \<times> unit res option" where
  "rabbit_loop [] = ([], None)"
| "rabbit_loop (Done err # evs) = ([], Some (Inl err))"
| "rabbit_loop (Deliveries_closed # evs) = ([], Some (Inr ()))"
| "rabbit_loop (Delivery tag body # evs) =
     (let (acts, r) = rabbit_loop evs in (Handle tag body # AckIds [tag] # acts, r))"

definition rabbit_Consume :: "consume_input \<Rightarrow> rabbit_event list \<Rightarrow> action list \<times> unit res option" where
  "rabbit_Consume inp evs =
     (case co_channel inp of
        Some err \<Rightarrow> ([], Some (Inl (wrapf_error ''consume channel: %w'' [] err)))
      | None \<Rightarrow>
          (case co_qos inp of
             Some err \<Rightarrow> ([], Some (Inl (wrapf_error ''qos: %w'' [] err)))
           | None \<Rightarrow>
               (case co_consume inp of
                  Some err \<Rightarrow> ([], Some (Inl (wrapf_error ''consume: %w'' [] err)))
                | None \<Rightarrow> rabbit_loop evs)))"

text \<open>Redis: a reply holds streams of messages, a message has an id and fields.\<close>

datatype field = VString string | VBytes bytes | VOther

record XMessage =
  x_ID :: string
  x_Values :: "(string \<times> field) list"

record redis_turn =
  rt_ctx :: "go_error option"
  rt_reply :: "XMessage list list res"

definition handle_message :: "XMessage \<Rightarrow> action list" where
  "handle_message m =
     (case map_of (x_Values m) ''d'' of
        Some (VString s) \<Rightarrow> [Handle (x_ID m) (bytes_of s)]
      | Some (VBytes b) \<Rightarrow> [Handle (x_ID m) b]
      | _ \<Rightarrow> [])"

definition handle_stream :: "XMessage list \<Rightarrow> action list" where
  "handle_stream ms =
     (let ackIDs = map x_ID ms in
      concat (map handle_message ms) @ (if ackIDs \<noteq> [] then [AckIds ackIDs, DelIds ackIDs] else []))"

fun redis_Consume :: "redis_turn list \<Rightarrow> action list \<times> go_error option" where
  "redis_Consume [] = ([], None)"
| "redis_Consume (t # ts) =
     (case rt_ctx t of
        Some err \<Rightarrow> ([], Some err)
      | None \<Rightarrow>
          (case rt_reply t of
             Inl err \<Rightarrow>
               if errors_is err redis_Nil \<or> errors_is err context_DeadlineExceeded then redis_Consume ts
               else if errors_is err context_Canceled then ([], Some err)
               else ([], Some err)
           | Inr res \<Rightarrow> (let (acts, r) = redis_Consume ts in (concat (map handle_stream res) @ acts, r))))"

section \<open>Redis: opening, emptying and publishing\<close>

record Redis =
  rd_stream :: string
  rd_group :: string
  rd_consume :: string

definition NewRedis :: "go_error option \<Rightarrow> go_error option \<Rightarrow> gotime \<Rightarrow> string \<Rightarrow> Redis res" where
  "NewRedis parse ping now stream =
     (case parse of
        Some err \<Rightarrow> Inl (wrapf_error ''parse url: %w'' [] err)
      | None \<Rightarrow>
          (case ping of
             Some err \<Rightarrow> Inl (wrapf_error ''ping: %w'' [] err)
           | None \<Rightarrow> Inr \<lparr>rd_stream = stream, rd_group = ''bench-group'', rd_consume = ''bench-'' @ itoa now\<rparr>))"

definition isBusyGroup :: "go_error option \<Rightarrow> bool" where
  "isBusyGroup err \<longleftrightarrow> (case err of None \<Rightarrow> False
     | Some e \<Rightarrow> errors_is e redis_Nil \<or> e = Err ''BUSYGROUP Consumer Group name already exists'')"

definition redis_Reset :: "go_error option \<Rightarrow> go_error option \<Rightarrow> unit res" where
  "redis_Reset del create =
     (case del of
        Some err \<Rightarrow> Inl err
      | None \<Rightarrow>
          (case create of
             Some err \<Rightarrow> if \<not> isBusyGroup create then Inl (wrapf_error ''xgroup create: %w'' [] err) else Inr ()
           | None \<Rightarrow> Inr ()))"

definition xadd_values :: "bytes \<Rightarrow> (string \<times> field) list" where
  "xadd_values payload = [(''d'', VBytes payload)]"

definition redis_Publish :: "(string \<Rightarrow> (string \<times> field) list \<Rightarrow> 's \<Rightarrow> unit res \<times> 's) \<Rightarrow> Redis \<Rightarrow> bytes \<Rightarrow> 's \<Rightarrow> unit res \<times> 's" where
  "redis_Publish XAdd r payload s = XAdd (rd_stream r) (xadd_values payload) s"

section \<open>What a call of Publish learns\<close>

definition fresh_rabbit :: "string \<Rightarrow> Rabbit" where
  "fresh_rabbit q = \<lparr>r_queue = q, r_open = [Connection, Channel], r_sent = [], r_confirms = [], r_confirms_closed = False\<rparr>"

primrec publish_run :: "(publish_input \<times> bytes) list \<Rightarrow> Rabbit \<Rightarrow> Rabbit" where
  "publish_run [] r = r"
| "publish_run (c # cs) r = publish_run cs (snd (rabbit_Publish (fst c) (snd c) r))"

text \<open>A call is abandoned when its message was sent and it returned without a confirmation.\<close>

definition abandoned :: "publish_input \<Rightarrow> Rabbit \<Rightarrow> bool" where
  "abandoned inp r \<longleftrightarrow> pi_publish inp = None \<and> (pi_case inp \<noteq> ConfirmCase \<or> r_confirms r @ pi_arrived inp = [])"

primrec abandoned_calls :: "(publish_input \<times> bytes) list \<Rightarrow> Rabbit \<Rightarrow> nat" where
  "abandoned_calls [] r = 0"
| "abandoned_calls (c # cs) r =
     (if abandoned (fst c) r then 1 else 0) + abandoned_calls cs (snd (rabbit_Publish (fst c) (snd c) r))"

primrec arrived :: "(publish_input \<times> bytes) list \<Rightarrow> confirmation list" where
  "arrived [] = []"
| "arrived (c # cs) = (if pi_publish (fst c) = None then pi_arrived (fst c) else []) @ arrived cs"

lemma arrived_append [simp]: "arrived (cs @ ds) = arrived cs @ arrived ds"
  by (induction cs) simp_all

lemma rabbit_Publish_queue [simp]: "r_queue (snd (rabbit_Publish inp p r)) = r_queue r"
  by (auto simp: rabbit_Publish_def await_confirm_def split: option.splits select_case.splits list.splits)

lemma rabbit_Publish_sent:
  "r_sent (snd (rabbit_Publish inp p r)) = r_sent r @ (if pi_publish inp = None then [(r_queue r, p)] else [])"
  by (auto simp: rabbit_Publish_def await_confirm_def split: option.splits select_case.splits list.splits)

lemma rabbit_Publish_confirms:
  "r_confirms (snd (rabbit_Publish inp p r)) =
     (if pi_publish inp \<noteq> None then r_confirms r
      else if abandoned inp r then r_confirms r @ pi_arrived inp else tl (r_confirms r @ pi_arrived inp))"
  by (auto simp: rabbit_Publish_def await_confirm_def abandoned_def split: option.splits select_case.splits list.splits)

text \<open>
  After any calls the confirmations in the channel are those that arrived, less one for each call that was not
  abandoned.
\<close>

lemma publish_run_confirms:
  "\<exists>k. r_confirms (publish_run cs r) = drop k (r_confirms r @ arrived cs)
     \<and> k \<le> length (r_confirms r @ arrived cs)
     \<and> k + abandoned_calls cs r + length (r_sent r) = length (r_sent (publish_run cs r))"
proof (induction cs arbitrary: r)
  case (Cons c cs)
  let ?r = "snd (rabbit_Publish (fst c) (snd c) r)"
  obtain k where k: "r_confirms (publish_run cs ?r) = drop k (r_confirms ?r @ arrived cs)"
    "k \<le> length (r_confirms ?r @ arrived cs)" "k + abandoned_calls cs ?r + length (r_sent ?r) = length (r_sent (publish_run cs ?r))"
    using Cons.IH [of ?r] by blast
  show ?case
  proof (cases "pi_publish (fst c) = None \<and> \<not> abandoned (fst c) r")
    case True
    then have "r_confirms r @ pi_arrived (fst c) \<noteq> []" by (auto simp: abandoned_def)
    then obtain x xs where x: "r_confirms r @ pi_arrived (fst c) = x # xs" by (cases "r_confirms r @ pi_arrived (fst c)") auto
    have all: "r_confirms r @ arrived (c # cs) = x # xs @ arrived cs" using True x by simp
    have "r_confirms ?r = xs" using True x by (simp add: rabbit_Publish_confirms)
    with k True show ?thesis
      unfolding all by (intro exI [of _ "Suc k"]) (simp add: rabbit_Publish_sent)
  next
    case False
    then have "r_confirms ?r @ arrived cs = r_confirms r @ arrived (c # cs)"
      by (auto simp: rabbit_Publish_confirms)
    with k False show ?thesis
      by (intro exI [of _ k]) (auto simp: rabbit_Publish_sent abandoned_def)
  qed
qed simp

text \<open>
  C20 (a confirmation answers the oldest open call). Suppose the server confirms in the order of publishing. A call of Publish
  that gets a confirmation reports the confirmation of the message sent as many messages earlier as calls were
  abandoned before it: its own if none was, otherwise that of an earlier message.
\<close>

theorem rabbit_confirmation_lag:
  assumes "map DeliveryTag (arrived (calls @ [(inp, payload)])) = [1..<n]"
    and "pi_publish inp = None" "\<not> abandoned inp (publish_run calls (fresh_rabbit q))"
    and "rabbit_Publish inp payload (publish_run calls (fresh_rabbit q)) = (res, r')"
  shows "\<exists>c \<in> set (arrived (calls @ [(inp, payload)])).
      DeliveryTag c + abandoned_calls calls (fresh_rabbit q) = length (r_sent r')
    \<and> res = (if Ack c then Inr () else Inl (Err ''publish nack''))"
proof -
  let ?r = "publish_run calls (fresh_rabbit q)" and ?all = "arrived (calls @ [(inp, payload)])"
  obtain k where k: "r_confirms ?r = drop k (arrived calls)" "k \<le> length (arrived calls)"
    "k + abandoned_calls calls (fresh_rabbit q) = length (r_sent ?r)"
    using publish_run_confirms [of calls "fresh_rabbit q"] by (auto simp: fresh_rabbit_def)
  have rest: "r_confirms ?r @ pi_arrived inp = drop k ?all" using k(1,2) assms(2) by simp
  with assms(2,3) have lt: "k < length ?all" and cf: "pi_case inp = ConfirmCase" by (auto simp: abandoned_def)
  have "DeliveryTag (?all ! k) = map DeliveryTag ?all ! k" using lt by (rule nth_map [symmetric])
  also have "\<dots> = Suc k"
    using lt arg_cong [OF assms(1), of length, unfolded length_map length_upt] unfolding assms(1) by simp
  finally have tag: "DeliveryTag (?all ! k) = Suc k" .
  have "drop k ?all = ?all ! k # drop (Suc k) ?all" using lt by (rule Cons_nth_drop_Suc [symmetric])
  then have "res = (if Ack (?all ! k) then Inr () else Inl (Err ''publish nack''))"
    using assms(2,4) cf rest by (auto simp: rabbit_Publish_def await_confirm_def)
  moreover have "length (r_sent r') = Suc (length (r_sent ?r))"
    using rabbit_Publish_sent [of inp payload ?r] assms(2,4) by simp
  ultimately show ?thesis using tag k(3) nth_mem [OF lt] by (intro bexI [of _ "?all ! k"] conjI) simp_all
qed

text \<open>
  Witness: the first call runs into its timeout; the second gets the confirmation of the first message and
  reports success, although its own message is refused.
\<close>

theorem rabbit_confirmation_lag_witness:
  "let first = \<lparr>pi_publish = None, pi_arrived = [], pi_case = TimeoutCase\<rparr>;
       second = \<lparr>pi_publish = None, pi_arrived = [\<lparr>DeliveryTag = 1, Ack = True\<rparr>, \<lparr>DeliveryTag = 2, Ack = False\<rparr>], pi_case = ConfirmCase\<rparr>;
       r = publish_run [(first, [1])] (fresh_rabbit ''bench'')
   in fst (rabbit_Publish second [2] r) = Inr () \<and>
      (\<exists>c \<in> set (arrived ([(first, [1])] @ [(second, [2])])). DeliveryTag c + 1 = 2 \<and> Ack c)"
proof -
  let ?first = "\<lparr>pi_publish = None, pi_arrived = [], pi_case = TimeoutCase\<rparr>"
  let ?second = "\<lparr>pi_publish = None, pi_arrived = [\<lparr>DeliveryTag = 1, Ack = True\<rparr>, \<lparr>DeliveryTag = 2, Ack = False\<rparr>], pi_case = ConfirmCase\<rparr>"
  let ?r = "publish_run [(?first, [1])] (fresh_rabbit ''bench'')"
  obtain r' where p: "rabbit_Publish ?second [2] ?r = (Inr (), r')" "length (r_sent r') = 2"
    by (simp add: rabbit_Publish_def await_confirm_def fresh_rabbit_def)
  have "\<exists>c \<in> set (arrived ([(?first, [1])] @ [(?second, [2])])).
      DeliveryTag c + abandoned_calls [(?first, [1])] (fresh_rabbit ''bench'') = length (r_sent r')
    \<and> Inr () = (if Ack c then Inr () else Inl (Err ''publish nack''))"
    by (rule rabbit_confirmation_lag [where n = 3, OF _ _ _ p(1)]) (simp_all add: abandoned_def upt_rec)
  then have "\<exists>c \<in> set (arrived ([(?first, [1])] @ [(?second, [2])])). DeliveryTag c + 1 = 2 \<and> Ack c"
    unfolding p(2) by (simp add: abandoned_def)
  with p(1) show ?thesis unfolding Let_def by (intro conjI) (simp, assumption)
qed

section \<open>The contract of a consumer\<close>

primrec handled :: "action list \<Rightarrow> (string \<times> bytes) list" where
  "handled [] = []"
| "handled (a # as) = (case a of Handle i p \<Rightarrow> [(i, p)] | _ \<Rightarrow> []) @ handled as"

primrec acked :: "action list \<Rightarrow> string list" where
  "acked [] = []"
| "acked (a # as) = (case a of AckIds is \<Rightarrow> is | _ \<Rightarrow> []) @ acked as"

lemma handled_append [simp]: "handled (as @ bs) = handled as @ handled bs"
  by (induction as) simp_all

lemma acked_append [simp]: "acked (as @ bs) = acked as @ acked bs"
  by (induction as) simp_all

lemma handled_prefix: "prefix as bs \<Longrightarrow> prefix (handled as) (handled bs)"
  by (auto simp: prefix_def)

text \<open>
  A consumer meets each unit of work, a delivery or a batch, by handing over what it holds, in order, before it
  acknowledges anything, and acknowledges nothing that is not in the unit. Then, wherever it is interrupted, what was
  acknowledged has been handled.
\<close>

locale queue_consumer =
  fixes act :: "'e \<Rightarrow> action list"
    and ids :: "'e \<Rightarrow> string list"
    and payloads :: "'e \<Rightarrow> (string \<times> bytes) list"
  assumes ids_payloads: "fst ` set (payloads e) \<subseteq> set (ids e)"
    and act_handles: "handled (act e) = payloads e"
    and act_order: "prefix tr (act e) \<Longrightarrow> acked tr \<noteq> [] \<Longrightarrow> handled tr = payloads e"
    and act_acks: "set (acked (act e)) \<subseteq> set (ids e)"
begin

lemma handles_all: "handled (concat (map act es)) = concat (map payloads es)"
  by (induction es) (simp_all add: act_handles)

lemma acks_known: "set (acked (concat (map act es))) \<subseteq> set (concat (map ids es))"
  using act_acks by (induction es) auto

lemma acked_was_handled:
  assumes "distinct (concat (map ids es))" "prefix tr (concat (map act es))"
    "(i, p) \<in> set (concat (map payloads es))" "i \<in> set (acked tr)"
  shows "(i, p) \<in> set (handled tr)"
  using assms
proof (induction es arbitrary: tr)
  case (Cons e es)
  have apart: "set (ids e) \<inter> set (concat (map ids es)) = {}" and d: "distinct (concat (map ids es))"
    using Cons.prems(1) by auto
  have later: "i \<in> set (concat (map ids es))" if "(i, p) \<in> set (concat (map payloads es))"
    using that ids_payloads by fastforce
  have now: "i \<in> set (ids e)" if "(i, p) \<in> set (payloads e)"
    using that ids_payloads by force
  from Cons.prems(2) consider (inside) "prefix tr (act e)" | (past) tr' where "tr = act e @ tr'" "prefix tr' (concat (map act es))"
    by (auto simp: prefix_append)
  then show ?case
  proof cases
    case inside
    have "set (acked tr) \<subseteq> set (ids e)" using inside act_acks [of e] by (auto simp: prefix_def)
    then have "(i, p) \<in> set (payloads e)" using Cons.prems(3,4) later apart by auto
    moreover have "acked tr \<noteq> []" using Cons.prems(4) by auto
    ultimately show ?thesis using act_order [OF inside] by simp
  next
    case past
    show ?thesis
    proof (cases "(i, p) \<in> set (payloads e)")
      case True
      then show ?thesis using past(1) by (simp add: act_handles)
    next
      case False
      then have p: "(i, p) \<in> set (concat (map payloads es))" using Cons.prems(3) by simp
      then have "i \<notin> set (acked (act e))" using later apart act_acks [of e] by auto
      then have "i \<in> set (acked tr')" using Cons.prems(4) past(1) by simp
      from Cons.IH [OF d past(2) p this] past(1) show ?thesis by simp
    qed
  qed
qed simp

end

primrec rabbit_act :: "rabbit_event \<Rightarrow> action list" where
  "rabbit_act (Done err) = []"
| "rabbit_act (Delivery tag body) = [Handle tag body, AckIds [tag]]"
| "rabbit_act Deliveries_closed = []"

primrec delivery :: "rabbit_event \<Rightarrow> (string \<times> bytes) list" where
  "delivery (Done err) = []"
| "delivery (Delivery tag body) = [(tag, body)]"
| "delivery Deliveries_closed = []"

interpretation rabbit: queue_consumer rabbit_act "\<lambda>e. map fst (delivery e)" delivery
proof unfold_locales
  fix e and tr :: "action list"
  show "fst ` set (delivery e) \<subseteq> set (map fst (delivery e))" by simp
  show "handled (rabbit_act e) = delivery e" "set (acked (rabbit_act e)) \<subseteq> set (map fst (delivery e))"
    by (cases e; simp)+
  show "handled tr = delivery e" if "prefix tr (rabbit_act e)" "acked tr \<noteq> []"
    using that by (cases e) (auto simp: prefix_Cons)
qed

definition entries :: "XMessage list \<Rightarrow> (string \<times> bytes) list" where
  "entries ms = handled (concat (map handle_message ms))"

lemma handle_message_cases: "handle_message m = [] \<or> (\<exists>p. handle_message m = [Handle (x_ID m) p])"
  by (auto simp: handle_message_def split: option.splits field.splits)

lemma handle_messages_quiet: "acked (concat (map handle_message ms)) = []"
proof (induction ms)
  case (Cons m ms)
  with handle_message_cases [of m] show ?case by auto
qed simp

lemma entries_Cons: "entries (m # ms) = handled (handle_message m) @ entries ms"
  by (simp add: entries_def)

lemma entries_ids: "fst ` set (entries ms) \<subseteq> x_ID ` set ms"
proof (induction ms)
  case (Cons m ms)
  with handle_message_cases [of m] show ?case by (auto simp: entries_Cons)
qed (simp add: entries_def)

interpretation redis: queue_consumer handle_stream "map x_ID" entries
proof unfold_locales
  fix e and tr :: "action list"
  show "fst ` set (entries e) \<subseteq> set (map x_ID e)" using entries_ids by simp
  show "handled (handle_stream e) = entries e" by (simp add: handle_stream_def entries_def Let_def)
  show "set (acked (handle_stream e)) \<subseteq> set (map x_ID e)"
    by (simp add: handle_stream_def handle_messages_quiet Let_def)
  show "handled tr = entries e" if tr: "prefix tr (handle_stream e)" "acked tr \<noteq> []"
  proof -
    have "\<not> prefix tr (concat (map handle_message e))"
      using tr(2) handle_messages_quiet [of e] by (auto simp: prefix_def)
    then obtain us where "tr = concat (map handle_message e) @ us" "prefix us [AckIds (map x_ID e), DelIds (map x_ID e)]"
      using tr(1) by (auto simp: handle_stream_def prefix_append Let_def split: if_splits)
    then show ?thesis by (auto simp: entries_def prefix_Cons)
  qed
qed

text \<open>The loops do the work of a first part of what they are given.\<close>

lemma rabbit_loop_prefix: "prefix (fst (rabbit_loop evs)) (concat (map rabbit_act evs))"
  by (induction evs rule: rabbit_loop.induct) (simp_all add: split_beta)

lemma rabbit_Consume_prefix: "prefix (fst (rabbit_Consume inp evs)) (concat (map rabbit_act evs))"
  using rabbit_loop_prefix by (auto simp: rabbit_Consume_def split: option.splits)

definition replied :: "redis_turn \<Rightarrow> XMessage list list" where
  "replied t = (case rt_reply t of Inl err \<Rightarrow> [] | Inr res \<Rightarrow> res)"

lemma redis_Consume_prefix: "prefix (fst (redis_Consume ts)) (concat (map handle_stream (concat (map replied ts))))"
  by (induction ts) (auto simp: replied_def split_beta split: option.splits sum.splits)

lemma entries_mem: "m \<in> set ms \<Longrightarrow> handle_message m = [Handle (x_ID m) p] \<Longrightarrow> (x_ID m, p) \<in> set (entries ms)"
  by (induction ms) (auto simp: entries_Cons)

text \<open>
  RabbitMQ: acknowledged means handled. Wherever the consumer is interrupted, a delivery that it acknowledged has been
  given to the handler, with its body.
\<close>

theorem rabbit_acked_was_handled:
  assumes "distinct (map fst (concat (map delivery evs)))" "prefix tr (fst (rabbit_Consume inp evs))"
    "Delivery tag body \<in> set evs" "tag \<in> set (acked tr)"
  shows "(tag, body) \<in> set (handled tr)"
proof (rule rabbit.acked_was_handled [of evs])
  show "distinct (concat (map (\<lambda>e. map fst (delivery e)) evs))" using assms(1) by (simp add: map_concat comp_def)
  show "prefix tr (concat (map rabbit_act evs))" using assms(2) rabbit_Consume_prefix prefix_order.trans by blast
  show "(tag, body) \<in> set (concat (map delivery evs))" using assms(3) by force
qed (rule assms(4))

theorem rabbit_acked_was_handled_witness:
  "(''1'', [7]) \<in> set (handled [Handle ''1'' [7], AckIds [''1''], Handle ''2'' [8]])"
  by (rule rabbit_acked_was_handled
      [of "[Delivery ''1'' [7], Delivery ''2'' [8], Deliveries_closed]" _ "\<lparr>co_channel = None, co_qos = None, co_consume = None\<rparr>"])
    (simp_all add: rabbit_Consume_def)



lemma NewRabbit_leaks:
  "NewRabbit inp q = (hs, Inl e) \<Longrightarrow> hs = (if snd (rabbit_dial inp) = Inr () then [Connection, Channel] else [])"
  by (auto simp: NewRabbit_def rabbit_dial_def split: option.splits)

end
