(* ===== verification/Cache_Bench.thy ===== *)
theory Cache_Bench
  imports Cache_Store Strconv "HOL-Library.Signed_Division"
begin

text \<open>
  The benchmark of the caching strategies, \<^verbatim>\<open>tasks/task_4/cmd/bench\<close>: the state it starts from, the strategy chosen
  by name, the prefill, the operations of the workers in the order in which they happen, and the summary of the
  latencies. Random choices, the value written and what the clock shows are inputs; a flush is one step here, its
  interleavings are the subject of \<open>Write_Back\<close>. Printing is left out.
\<close>

section \<open>A store by the name of its strategy\<close>

datatype ('r, 's) store =
    Aside "('r, 's) Stack"
  | Through "('r, 's) Stack"
  | Behind "('r, 's) WriteBack"

record cliFlags =
  fl_Strategy :: string
  fl_Keys :: int
  fl_WBInterval :: int
  fl_WBBatch :: int

definition choose_store :: "cliFlags \<Rightarrow> ('r, 's) Stack \<Rightarrow> ('r, 's) store res" where
  "choose_store f st =
     (if fl_Strategy f = ''cache_aside'' then Inr (Aside st)
      else if fl_Strategy f = ''write_through'' then Inr (Through st)
      else if fl_Strategy f = ''write_back'' then Inr (Behind (NewWriteBack st (fl_WBInterval f) (fl_WBBatch f)))
      else Inl (Errorf ''unknown strategy %q'' [FStr (fl_Strategy f)]))"

text \<open>The calls through the interface \<^verbatim>\<open>Store\<close>.\<close>

fun store_Get :: "'r redis \<Rightarrow> ('s, 't) sqlite \<Rightarrow> string \<Rightarrow> ('r, 's) store \<Rightarrow> string res \<times> ('r, 's) store" where
  "store_Get R Q k (Aside st) = map_prod id Aside (CacheAside_Get R Q k st)"
| "store_Get R Q k (Through st) = map_prod id Through (WriteThrough_Get R Q k st)"
| "store_Get R Q k (Behind st) = map_prod id Behind (WriteBack_Get R Q k st)"

fun store_Set :: "'r redis \<Rightarrow> ('s, 't) sqlite \<Rightarrow> string \<Rightarrow> string \<Rightarrow> ('r, 's) store \<Rightarrow> go_error option \<times> ('r, 's) store" where
  "store_Set R Q k v (Aside st) = map_prod id Aside (CacheAside_Set R Q k v st)"
| "store_Set R Q k v (Through st) = map_prod id Through (WriteThrough_Set R Q k v st)"
| "store_Set R Q k v (Behind st) = map_prod id Behind (WriteBack_Set R k v st)"

fun store_Flush :: "('s, 't) sqlite \<Rightarrow> ((string \<times> string) list \<Rightarrow> (string \<times> string) list) \<Rightarrow> ('r, 's) store
    \<Rightarrow> go_error option \<times> ('r, 's) store" where
  "store_Flush Q visit (Aside st) = map_prod id Aside (CacheAside_Flush st)"
| "store_Flush Q visit (Through st) = map_prod id Through (WriteThrough_Flush st)"
| "store_Flush Q visit (Behind st) = map_prod id Behind (WriteBack_Flush Q visit st)"

text \<open>The background flusher, which only the write-back store has.\<close>

fun store_turn :: "('s, 't) sqlite \<Rightarrow> ((string \<times> string) list \<Rightarrow> (string \<times> string) list) \<Rightarrow> flusher_event
    \<Rightarrow> ('r, 's) store \<Rightarrow> ('r, 's) store" where
  "store_turn Q visit ev (Behind st) = Behind (flusher_turn Q visit ev st)"
| "store_turn Q visit ev s = s"

fun store_stack :: "('r, 's) store \<Rightarrow> ('r, 's) Stack" where
  "store_stack (Aside st) = st"
| "store_stack (Through st) = st"
| "store_stack (Behind st) = Stack.truncate st"

fun store_metrics_Reset :: "('r, 's) store \<Rightarrow> ('r, 's) store" where
  "store_metrics_Reset (Aside st) = Aside (st\<lparr>k_m := metrics_Reset (k_m st)\<rparr>)"
| "store_metrics_Reset (Through st) = Through (st\<lparr>k_m := metrics_Reset (k_m st)\<rparr>)"
| "store_metrics_Reset (Behind st) = Behind (st\<lparr>k_m := metrics_Reset (k_m st)\<rparr>)"

section \<open>Preparation\<close>

text \<open>\<^verbatim>\<open>fmt.Sprintf("key:%08d", i)\<close>\<close>

definition bench_key :: "nat \<Rightarrow> string" where
  "bench_key i = ''key:'' @ replicate (8 - length (decimal i)) (CHR ''0'') @ decimal i"

definition bench_keys :: "int \<Rightarrow> string list res" where
  "bench_keys n = (if n < 0 then Inl (Panic ''makeslice: len out of range'') else Inr (map bench_key [0..<nat n]))"

text \<open>After each write the flusher may have had its turns.\<close>

fun prefill :: "(string \<Rightarrow> string \<Rightarrow> 's \<Rightarrow> go_error option \<times> 's) \<Rightarrow> (string \<Rightarrow> 's \<Rightarrow> 's) \<Rightarrow> string \<Rightarrow> string list \<Rightarrow> 's
    \<Rightarrow> go_error option \<times> 's" where
  "prefill put turns value [] s = (None, s)"
| "prefill put turns value (k # ks) s =
     (case put k value s of
        (Some err, s) \<Rightarrow> (Some err, s)
      | (None, s) \<Rightarrow> prefill put turns value ks (turns k s))"

definition fatal :: "string \<Rightarrow> go_error \<Rightarrow> go_error" where
  "fatal msg err = wrapf_error msg [] err"

definition prepare :: "'r redis \<Rightarrow> ('s, 't) sqlite \<Rightarrow> ((string \<times> string) list \<Rightarrow> (string \<times> string) list) \<Rightarrow> (string \<Rightarrow> flusher_event list)
    \<Rightarrow> cliFlags \<Rightarrow> string \<Rightarrow> ('r, 's) Stack \<Rightarrow> (string list \<times> ('r, 's) store) res" where
  "prepare R Q visit turns f value st =
     (case redis_FlushAll R st of
        (Some err, st) \<Rightarrow> Inl (fatal ''redis flush: %v'' err)
      | (None, st) \<Rightarrow>
          (case sqlite_Reset Q st of
             (Some err, st) \<Rightarrow> Inl (fatal ''sqlite reset: %v'' err)
           | (None, st) \<Rightarrow>
               rbind (choose_store f st) (\<lambda>s.
               rbind (bench_keys (fl_Keys f)) (\<lambda>keys.
                 case prefill (store_Set R Q) (\<lambda>k s. fold (store_turn Q visit) (turns k) s) value keys s of
                   (Some err, s) \<Rightarrow> Inl (fatal ''prefill set: %v'' err)
                 | (None, s) \<Rightarrow>
                     (case store_Flush Q visit s of
                        (Some err, s) \<Rightarrow> Inl (fatal ''prefill flush: %v'' err)
                      | (None, s) \<Rightarrow> Inr (keys, store_metrics_Reset s))))))"

section \<open>Workers\<close>

record totals =
  totalOps :: u64
  totalReads :: u64
  totalWrites :: u64

definition latency_capacity :: nat where
  "latency_capacity = 2 ^ 17"

text \<open>One turn of a worker: the index of the key, whether it reads, the value it writes and how long the call took.\<close>

record worker_op =
  wo_key :: nat
  wo_read :: bool
  wo_value :: string
  wo_latency :: int

definition worker_step :: "'r redis \<Rightarrow> ('s, 't) sqlite \<Rightarrow> string list \<Rightarrow> worker_op \<Rightarrow> ('r, 's) store \<times> totals \<times> int list
    \<Rightarrow> (('r, 's) store \<times> totals \<times> int list) res" where
  "worker_step R Q keys op w =
     (case w of (s, tot, lats) \<Rightarrow>
        if keys = [] then Inl (Panic ''invalid argument to Intn'')
        else rbind (go_index keys (wo_key op)) (\<lambda>key.
          let (s, tot) =
                (if wo_read op then (snd (store_Get R Q key s), tot\<lparr>totalReads := totalReads tot + 1\<rparr>)
                 else (snd (store_Set R Q key (wo_value op) s), tot\<lparr>totalWrites := totalWrites tot + 1\<rparr>));
              tot = tot\<lparr>totalOps := totalOps tot + 1\<rparr>;
              lats = (if length lats < latency_capacity then lats @ [wo_latency op] else lats) in
          Inr (s, tot, lats)))"

datatype bench_event = Worker worker_op | Flusher flusher_event

fun bench_run :: "'r redis \<Rightarrow> ('s, 't) sqlite \<Rightarrow> ((string \<times> string) list \<Rightarrow> (string \<times> string) list) \<Rightarrow> string list
    \<Rightarrow> bench_event list \<Rightarrow> ('r, 's) store \<times> totals \<times> int list \<Rightarrow> (('r, 's) store \<times> totals \<times> int list) res" where
  "bench_run R Q visit keys [] w = Inr w"
| "bench_run R Q visit keys (Worker op # evs) w = rbind (worker_step R Q keys op w) (bench_run R Q visit keys evs)"
| "bench_run R Q visit keys (Flusher ev # evs) (s, tot, lats) = bench_run R Q visit keys evs (store_turn Q visit ev s, tot, lats)"

section \<open>The summary\<close>

text \<open>
  The percentiles of the sorted latencies; \<open>trunc n\<close> is \<^verbatim>\<open>int(float64(n) * p)\<close>. Durations are nanoseconds; a sum
  of fewer than \<open>2 ^ 17\<close> of them that stay below \<open>2 ^ 46\<close>, nineteen hours, fits 64 bits.
\<close>

definition pct :: "int list \<Rightarrow> (nat \<Rightarrow> nat) \<Rightarrow> int res" where
  "pct lats trunc = (if lats = [] then Inr 0 else go_index (sort lats) (trunc (length lats - 1)))"

definition avg :: "int list \<Rightarrow> int" where
  "avg lats = (if lats = [] then 0 else sum_list lats sdiv int (length lats))"

section \<open>The chosen store keeps the contract of a store\<close>

fun store_view :: "('s \<Rightarrow> string \<rightharpoonup> string) \<Rightarrow> ('r, 's) store \<Rightarrow> string \<rightharpoonup> string" where
  "store_view sc (Aside st) = sc (k_db st)"
| "store_view sc (Through st) = sc (k_db st)"
| "store_view sc (Behind st) = wb_view sc st"

fun store_ok :: "'r redis \<Rightarrow> ('s, 't) sqlite \<Rightarrow> ((string \<times> string) list \<Rightarrow> (string \<times> string) list)
    \<Rightarrow> ('r \<Rightarrow> string \<rightharpoonup> string) \<Rightarrow> ('s \<Rightarrow> string \<rightharpoonup> string) \<Rightarrow> ('t \<Rightarrow> string \<rightharpoonup> string) \<Rightarrow> ('r, 's) store \<Rightarrow> bool" where
  "store_ok R Q visit rc sc tc (Aside st) = fresh R Q rc sc tc (sc (k_db st)) (k_redis st)"
| "store_ok R Q visit rc sc tc (Through st) = fresh R Q rc sc tc (sc (k_db st)) (k_redis st)"
| "store_ok R Q visit rc sc tc (Behind st) = wb_inv R Q visit rc sc tc st"

interpretation chosen: caching_store "store_Get R Q" "store_Set R Q" "store_Flush Q visit" "store_view sc" "store_ok R Q visit rc sc tc"
  for R :: "'a redis" and Q :: "('b, 'c) sqlite" and visit rc sc tc
proof unfold_locales
  fix s :: "('a, 'b) store" and k v
  assume ok: "store_ok R Q visit rc sc tc s"
  show "store_ok R Q visit rc sc tc (snd (store_Get R Q k s)) \<and> store_view sc (snd (store_Get R Q k s)) = store_view sc s
      \<and> right_answer (store_view sc s k) (fst (store_Get R Q k s))"
  proof (cases s)
    case (Aside st)
    with ok have "fresh R Q rc sc tc (sc (k_db st)) (k_redis st)" by simp
    from aside.get_ok [OF this, of k] show ?thesis unfolding Aside store_Get.simps store_ok.simps store_view.simps fst_map_prod snd_map_prod id_apply .
  next
    case (Through st)
    with ok have "fresh R Q rc sc tc (sc (k_db st)) (k_redis st)" by simp
    from through.get_ok [OF this, of k] show ?thesis unfolding Through store_Get.simps store_ok.simps store_view.simps fst_map_prod snd_map_prod id_apply .
  qed (use ok in \<open>simp add: behind.get_ok\<close>)
  show "store_ok R Q visit rc sc tc (snd (store_Set R Q k v s))
      \<and> store_view sc (snd (store_Set R Q k v s)) = (if fst (store_Set R Q k v s) = None then (store_view sc s)(k \<mapsto> v) else store_view sc s)"
  proof (cases s)
    case (Aside st)
    with ok have "fresh R Q rc sc tc (sc (k_db st)) (k_redis st)" by simp
    from aside.put_ok [OF this, of k v] show ?thesis unfolding Aside store_Set.simps store_ok.simps store_view.simps fst_map_prod snd_map_prod id_apply .
  next
    case (Through st)
    with ok have "fresh R Q rc sc tc (sc (k_db st)) (k_redis st)" by simp
    from through.put_ok [OF this, of k v] show ?thesis unfolding Through store_Set.simps store_ok.simps store_view.simps fst_map_prod snd_map_prod id_apply .
  qed (use ok in \<open>simp add: behind.put_ok\<close>)
  show "store_ok R Q visit rc sc tc (snd (store_Flush Q visit s)) \<and> store_view sc (snd (store_Flush Q visit s)) = store_view sc s"
    using ok by (cases s) (simp_all add: CacheAside_Flush_def WriteThrough_Flush_def behind.flush_ok)
qed

context caching_store
begin

lemma prefill_view:
  assumes "\<And>k s. inv s \<Longrightarrow> inv (turns k s) \<and> view (turns k s) = view s"
  shows "inv s \<Longrightarrow> prefill put turns v ks s = (None, s') \<Longrightarrow>
    inv s' \<and> view s' = (\<lambda>k. if k \<in> set ks then Some v else view s k)"
proof (induction ks arbitrary: s)
  case (Cons k ks)
  let ?s = "turns k (snd (put k v s))"
  have ok: "fst (put k v s) = None" "prefill put turns v ks ?s = (None, s')"
    using Cons.prems(2) by (auto split: prod.splits option.splits)
  have "inv ?s" "view ?s = (view s)(k \<mapsto> v)"
    using put_ok [OF Cons.prems(1), of k v] ok(1) assms by auto
  with Cons.IH [OF _ ok(2)] show ?case by (auto simp: fun_eq_iff)
qed simp

end

lemma flusher_turn_ok:
  assumes "wb_inv R Q visit rc sc tc st"
  shows "wb_inv R Q visit rc sc tc (flusher_turn Q visit ev st) \<and> wb_view sc (flusher_turn Q visit ev st) = wb_view sc st"
proof -
  have fl: "wb_inv R Q visit rc sc tc (snd (flushDirty Q visit s)) \<and> wb_view sc (snd (flushDirty Q visit s)) = wb_view sc s"
    if "wb_inv R Q visit rc sc tc s" for s
    using flushDirty_ok [OF that] by (metis prod.collapse)
  have "wb_inv R Q visit rc sc tc (st\<lparr>wb_trigger := False\<rparr>)" "wb_view sc (st\<lparr>wb_trigger := False\<rparr>) = wb_view sc st"
    using assms by (simp_all add: wb_inv_def wb_view_def)
  then show ?thesis using assms fl by (cases ev) auto
qed

lemma store_turn_ok:
  "store_ok R Q visit rc sc tc s \<Longrightarrow> store_ok R Q visit rc sc tc (store_turn Q visit ev s) \<and> store_view sc (store_turn Q visit ev s) = store_view sc s"
  by (cases s) (simp_all add: flusher_turn_ok)

lemma store_turns_ok:
  "store_ok R Q visit rc sc tc s \<Longrightarrow>
   store_ok R Q visit rc sc tc (fold (store_turn Q visit) evs s) \<and> store_view sc (fold (store_turn Q visit) evs s) = store_view sc s"
  by (induction evs arbitrary: s) (simp_all add: store_turn_ok)

text \<open>After a flush the database itself holds what the store holds.\<close>

lemma store_Flush_db:
  assumes "store_ok R Q visit rc sc tc s" "store_Flush Q visit s = (e, s')"
  shows "sc (k_db (store_stack s')) = store_view sc s"
proof (cases s)
  case (Behind st)
  obtain e' st' where f: "flushDirty Q visit st = (e', st')" by fastforce
  have "s' = Behind st'" using assms(2) Behind f by (simp add: WriteBack_Flush_def)
  then show ?thesis using flushDirty_ok(5) [OF _ f] assms(1) Behind by (simp add: Stack.truncate_def)
qed (use assms in \<open>auto simp: CacheAside_Flush_def WriteThrough_Flush_def\<close>)

lemma store_metrics_Reset_stack [simp]:
  "k_db (store_stack (store_metrics_Reset s)) = k_db (store_stack s)" "k_redis (store_stack (store_metrics_Reset s)) = k_redis (store_stack s)"
  by (cases s; simp add: Stack.truncate_def)+

section \<open>Keys\<close>

lemma digits_value_pad: "digits_value (replicate n (CHR ''0'') @ ds) = digits_value ds"
proof -
  have "foldl (\<lambda>n c. 10 * n + (of_char c - 48)) 0 (replicate n (CHR ''0'')) = (0 :: nat)"
    by (induction n) simp_all
  then show ?thesis by (simp add: digits_value_def)
qed

lemma bench_key_inj: "bench_key i = bench_key j \<Longrightarrow> i = j"
proof -
  have "digits_value (drop 4 (bench_key n)) = n" for n
    unfolding bench_key_def by (simp add: digits_value_pad decimal_value)
  then show "bench_key i = bench_key j \<Longrightarrow> i = j" by metis
qed

lemma bench_keys_distinct: "bench_keys n = Inr keys \<Longrightarrow> distinct keys \<and> length keys = nat n"
  by (auto simp: bench_keys_def distinct_map inj_on_def dest: bench_key_inj split: if_splits)

section \<open>Properties\<close>

text \<open>The servers forget everything when told to.\<close>

definition reset_laws :: "'r redis \<Rightarrow> ('r \<Rightarrow> string \<rightharpoonup> string) \<Rightarrow> ('s, 't) sqlite \<Rightarrow> ('s \<Rightarrow> string \<rightharpoonup> string) \<Rightarrow> bool" where
  "reset_laws R rc Q sc \<longleftrightarrow> (\<forall>r r'. rd_FlushAll R r = (None, r') \<longrightarrow> rc r' = Map.empty)
     \<and> (\<forall>s s'. sq_DeleteAll Q s = (None, s') \<longrightarrow> sc s' = Map.empty)"

lemma prepare_parts:
  assumes "prepare R Q visit turns f v st = Inr (keys, s)" "reset_laws R rc Q sc"
  obtains st0 s0 s1 s2 where "rc (k_redis st0) = Map.empty" "sc (k_db st0) = Map.empty" "choose_store f st0 = Inr s0"
    "bench_keys (fl_Keys f) = Inr keys"
    "prefill (store_Set R Q) (\<lambda>k s. fold (store_turn Q visit) (turns k) s) v keys s0 = (None, s1)"
    "store_Flush Q visit s1 = (None, s2)" "s = store_metrics_Reset s2"
proof -
  obtain r where r: "redis_FlushAll R st = (None, st\<lparr>k_redis := r\<rparr>)" "rd_FlushAll R (k_redis st) = (None, r)"
    using assms(1) by (auto simp: prepare_def redis_FlushAll_def split: prod.splits option.splits)
  obtain d where d: "sqlite_Reset Q (st\<lparr>k_redis := r\<rparr>) = (None, st\<lparr>k_redis := r, k_db := d\<rparr>)" "sq_DeleteAll Q (k_db st) = (None, d)"
    using assms(1) r by (auto simp: prepare_def sqlite_Reset_def split: prod.splits option.splits)
  obtain s0 where s0: "choose_store f (st\<lparr>k_redis := r, k_db := d\<rparr>) = Inr s0"
    using assms(1) r d by (cases "choose_store f (st\<lparr>k_redis := r, k_db := d\<rparr>)") (auto simp: prepare_def)
  obtain ks where ks: "bench_keys (fl_Keys f) = Inr ks"
    using assms(1) r d s0 by (cases "bench_keys (fl_Keys f)") (auto simp: prepare_def)
  obtain s1 s2 where s1: "prefill (store_Set R Q) (\<lambda>k s. fold (store_turn Q visit) (turns k) s) v ks s0 = (None, s1)"
      "store_Flush Q visit s1 = (None, s2)" "keys = ks" "s = store_metrics_Reset s2"
    using assms(1) r d s0 ks by (auto simp: prepare_def split: prod.splits option.splits)
  show thesis
    using that [of "st\<lparr>k_redis := r, k_db := d\<rparr>" s0 s1 s2] s0 ks s1 r(2) d(2) assms(2) by (simp add: reset_laws_def)
qed

lemma choose_store_ok:
  assumes "choose_store f st = Inr s" "rc (k_redis st) = Map.empty" "redis_laws R rc" "cache_up R" "sqlite_laws Q sc tc" "tx_up Q"
    "\<forall>xs. mset (visit xs) = mset xs"
  shows "store_ok R Q visit rc sc tc s \<and> store_view sc s = sc (k_db st)"
proof -
  have "fresh R Q rc sc tc (sc (k_db st)) (k_redis st)" using assms(2-5) by (simp add: fresh_def)
  moreover from this have "wb_inv R Q visit rc sc tc (NewWriteBack st i b)" "wb_view sc (NewWriteBack st i b) = sc (k_db st)" for i b
    using assms(6,7) by (simp_all add: wb_inv_def wb_view_def NewWriteBack_def)
  ultimately show ?thesis using assms(1) by (auto simp: choose_store_def split: if_splits)
qed


lemma mem_reset_laws [simp]: "reset_laws mem_redis (\<lambda>r. r) mem_sqlite (\<lambda>s. s)"
  by (simp add: reset_laws_def mem_redis_def mem_sqlite_def)

definition sample_flags :: "string \<Rightarrow> cliFlags" where
  "sample_flags strategy = \<lparr>fl_Strategy = strategy, fl_Keys = 2, fl_WBInterval = 200000000, fl_WBBatch = 512\<rparr>"

lemma sample_keys: "bench_keys 2 = Inr [''key:00000000'', ''key:00000001'']"
proof -
  have "decimal 0 = ''0''" "decimal 1 = ''1''" by (simp_all add: decimal.simps char_of_def bit_simps)
  moreover have "[0..<nat 2] = [0, 1]" by (simp add: upt_rec)
  ultimately show ?thesis unfolding bench_keys_def by (simp add: bench_key_def numeral_eq_Suc)
qed


text \<open>
  The prefill leaves the cache of cache-aside empty. With cache-aside, the benchmark starts with an empty cache,
  although the prefill is meant to put every key into both the database and the cache.
\<close>

theorem aside_starts_cold:
  assumes "redis_laws R rc" "reset_laws R rc Q sc" "fl_Strategy f = ''cache_aside''"
    and "prepare R Q visit turns f v st = Inr (keys, s)"
  shows "rc (k_redis (store_stack s)) = Map.empty"
proof -
  from assms(4,2) obtain st0 s0 s1 s2 where p: "rc (k_redis st0) = Map.empty" "sc (k_db st0) = Map.empty" "choose_store f st0 = Inr s0"
    "bench_keys (fl_Keys f) = Inr keys"
    "prefill (store_Set R Q) (\<lambda>k s. fold (store_turn Q visit) (turns k) s) v keys s0 = (None, s1)"
    "store_Flush Q visit s1 = (None, s2)" "s = store_metrics_Reset s2" by (rule prepare_parts)
  have del: "rc (k_redis (snd (CacheAside_Set R Q k v t))) = Map.empty" if "rc (k_redis t) = Map.empty" for k t
  proof -
    obtain e t1 where t1: "sqlite_Set Q k v t = (e, t1)" "k_redis t1 = k_redis t"
      by (simp add: sqlite_Set_def split_beta Let_def)
    obtain e' r where r: "rd_Del R (k_redis t) k = (e', r)" by fastforce
    then have "rc r = Map.empty" using redis_laws_Del [OF assms(1) r] that map_le_antisym map_le_empty by metis
    then show ?thesis using t1 r that by (cases e) (auto simp: CacheAside_Set_def redis_Del_def)
  qed
  have turn: "fold (store_turn Q visit) evs (Aside t) = Aside t" for evs t
    by (induction evs) simp_all
  have "\<exists>t'. s1 = Aside t' \<and> rc (k_redis t') = Map.empty"
    if "prefill (store_Set R Q) (\<lambda>k s. fold (store_turn Q visit) (turns k) s) v ks (Aside t) = (None, s1)" "rc (k_redis t) = Map.empty" for ks t
    using that
  proof (induction ks arbitrary: t)
    case (Cons k ks)
    obtain e t1 where t1: "CacheAside_Set R Q k v t = (e, t1)" by fastforce
    then have "rc (k_redis t1) = Map.empty" using del [OF Cons.prems(2), of k] by simp
    with Cons t1 show ?case by (auto simp: turn split: option.splits)
  qed auto
  moreover have "s0 = Aside st0" using p(3) assms(3) by (simp add: choose_store_def)
  ultimately obtain t' where "s1 = Aside t'" "rc (k_redis t') = Map.empty" using p(1,5) by blast
  then show ?thesis using p(6,7) by (auto simp: CacheAside_Flush_def)
qed

theorem aside_starts_cold_witness:
  "\<exists>keys s. prepare mem_redis mem_sqlite (\<lambda>xs. xs) (\<lambda>k. []) (sample_flags ''cache_aside'') ''v'' empty_stack = Inr (keys, s)
     \<and> k_redis (store_stack s) ''key:00000001'' = None"
proof -
  obtain keys s where p: "prepare mem_redis mem_sqlite (\<lambda>xs. xs) (\<lambda>k. []) (sample_flags ''cache_aside'') ''v'' empty_stack = Inr (keys, s)"
    by (simp add: prepare_def redis_FlushAll_def sqlite_Reset_def choose_store_def sample_flags_def sample_keys mem_redis_def
        mem_sqlite_def CacheAside_Set_def CacheAside_Flush_def sqlite_Set_def redis_Del_def Let_def)
  from aside_starts_cold [OF mem_servers_ok(1) mem_reset_laws _ p] p show ?thesis by (auto simp: sample_flags_def)
qed

section \<open>Counters and latencies\<close>

primrec worker_turns :: "bench_event list \<Rightarrow> nat" where
  "worker_turns [] = 0"
| "worker_turns (ev # evs) = (case ev of Worker op \<Rightarrow> 1 | Flusher fe \<Rightarrow> 0) + worker_turns evs"

lemma worker_step_counts:
  assumes "worker_step R Q keys op (s, tot, lats) = Inr (s', tot', lats')"
  shows "totalOps tot' = totalOps tot + 1" "totalReads tot' + totalWrites tot' = totalReads tot + totalWrites tot + 1"
    "lats' = (if length lats < latency_capacity then lats @ [wo_latency op] else lats)"
  using assms by (auto simp: worker_step_def go_index_def Let_def split: if_splits)

text \<open>Every turn of a worker is counted once, as a read or a write; latencies beyond the capacity are dropped.\<close>

lemma bench_run_counts:
  "bench_run R Q visit keys evs (s, tot, lats) = Inr (s', tot', lats') \<Longrightarrow> length lats \<le> latency_capacity \<Longrightarrow>
   totalOps tot' = totalOps tot + word_of_nat (worker_turns evs)
   \<and> totalReads tot' + totalWrites tot' = totalReads tot + totalWrites tot + word_of_nat (worker_turns evs)
   \<and> length lats' = min latency_capacity (length lats + worker_turns evs)"
proof (induction evs arbitrary: s tot lats)
  case (Cons ev evs)
  show ?case
  proof (cases ev)
    case (Worker op)
    then obtain s1 tot1 lats1 where w: "worker_step R Q keys op (s, tot, lats) = Inr (s1, tot1, lats1)"
      "bench_run R Q visit keys evs (s1, tot1, lats1) = Inr (s', tot', lats')"
      using Cons.prems(1) by (cases "worker_step R Q keys op (s, tot, lats)") auto
    note c = worker_step_counts [OF w(1)]
    have "length lats1 \<le> latency_capacity" using c(3) Cons.prems(2) by auto
    from Cons.IH [OF w(2) this] c Worker Cons.prems(2) show ?thesis by (simp add: algebra_simps)
  next
    case (Flusher fe)
    with Cons show ?thesis by simp
  qed
qed simp

lemma pct_measured:
  assumes "lats \<noteq> []" "trunc (length lats - 1) \<le> length lats - 1"
  shows "\<exists>x \<in> set lats. pct lats trunc = Inr x"
proof -
  have lt: "trunc (length lats - 1) < length lats" using assms by (cases lats) auto
  then have "sort lats ! trunc (length lats - 1) \<in> set lats" by (metis length_sort nth_mem set_sort)
  with assms(1) lt show ?thesis by (simp add: pct_def go_index_def)
qed

lemma pct_mono:
  assumes "f (length lats - 1) \<le> g (length lats - 1)" "pct lats f = Inr x" "pct lats g = Inr y"
  shows "x \<le> y"
  using assms sorted_nth_mono [OF sorted_sort [of lats]] by (auto simp: pct_def go_index_def split: if_splits)

end
