(* ===== verification/Bench_Report.thy ===== *)
theory Bench_Report
  imports Queue_Bench Cache_Bench
begin

text \<open>
  What the two benchmarks (\<^verbatim>\<open>tasks/task_3/cmd/bench\<close>, \<^verbatim>\<open>tasks/task_4/cmd/bench\<close>) do around their measurements: the flags and their
  defaults, the rate of a producer, the producers' loop, the progress, the summary that is printed and the line that is appended to a CSV
  file. Floating-point arithmetic and the rendering of floats and durations are parameters.
\<close>

section \<open>Floats\<close>

text \<open>\<open>fx n x\<close> is the verb \<^verbatim>\<open>%.nf\<close>, \<open>secs\<close> is \<^verbatim>\<open>Duration.Seconds\<close> and \<open>dur\<close> the rendering of a duration.\<close>

record 'f float_fmt =
  ff_of_int :: "int \<Rightarrow> 'f"
  ff_mult :: "'f \<Rightarrow> 'f \<Rightarrow> 'f"
  ff_div :: "'f \<Rightarrow> 'f \<Rightarrow> 'f"
  ff_secs :: "int \<Rightarrow> 'f"
  ff_fix :: "nat \<Rightarrow> 'f \<Rightarrow> string"
  ff_dur :: "int \<Rightarrow> string"

definition percent :: "'f float_fmt \<Rightarrow> int \<Rightarrow> int \<Rightarrow> 'f" where
  "percent F part whole =
     (if whole = 0 then ff_of_int F 0
      else ff_div F (ff_mult F (ff_of_int F 100) (ff_of_int F part)) (ff_of_int F whole))"

definition ms_float :: "'f float_fmt \<Rightarrow> int \<Rightarrow> 'f" where
  "ms_float F d = ff_div F (ff_of_int F (d sdiv 1000)) (ff_of_int F 1000)"

definition hit_rate :: "'f float_fmt \<Rightarrow> u64 \<Rightarrow> u64 \<Rightarrow> 'f" where
  "hit_rate F hits misses =
     (if 0 < sint (hits + misses)
      then ff_mult F (ff_div F (ff_of_int F (sint hits)) (ff_of_int F (sint (hits + misses)))) (ff_of_int F 100)
      else ff_of_int F 0)"

definition HitRate :: "'f float_fmt \<Rightarrow> M \<Rightarrow> 'f" where
  "HitRate F m =
     (if mt_CacheHits m + mt_CacheMisses m = 0 then ff_of_int F 0
      else ff_div F (ff_of_int F (sint (mt_CacheHits m))) (ff_of_int F (sint (mt_CacheHits m + mt_CacheMisses m))))"

section \<open>The queue benchmark\<close>

record queue_cli = queue_flags +
  qf_Queue :: string
  qf_Rate :: int
  qf_Duration :: int
  qf_Producers :: int
  qf_Consumers :: int
  qf_Warmup :: int
  qf_OutCSV :: string
  qf_Label :: string

definition queue_defaults :: queue_cli where
  "queue_defaults = \<lparr>qf_Broker = ''rabbitmq'', qf_URL = '''', qf_Size = 128, qf_Queue = ''bench'', qf_Rate = 1000,
     qf_Duration = 20 * 1000000000, qf_Producers = 1, qf_Consumers = 1, qf_Warmup = 2 * 1000000000, qf_OutCSV = '''', qf_Label = ''''\<rparr>"

text \<open>\<open>cmdline\<close> is what \<^verbatim>\<open>flag.Parse\<close> sets.\<close>

definition queue_parseFlags :: "(queue_cli \<Rightarrow> queue_cli) \<Rightarrow> queue_cli" where
  "queue_parseFlags cmdline =
     (let f = cmdline queue_defaults in f\<lparr>qf_URL := qf_URL (default_url (queue_flags.truncate f))\<rparr>)"

text \<open>The limiter of one of \<open>n\<close> workers: its rate and its burst. \<open>Inl\<close> is the panic of a division by zero.\<close>

definition limiter_for :: "int \<Rightarrow> int \<Rightarrow> (int \<times> int) option res" where
  "limiter_for rate n =
     (if 0 < rate then
        if n = 0 then Inl (Panic ''integer divide by zero'')
        else let per = rate sdiv n; per = (if per < 1 then 1 else per) in Inr (Some (per, per sdiv 2 + 1))
      else Inr None)"

text \<open>
  One round of a producer: whether the deadline is still ahead, whether the context is done, what waiting for the limiter returns, the time of the stamp
  and the result of \<^verbatim>\<open>Publish\<close>. The messages handed to \<^verbatim>\<open>Publish\<close> come first in the result.
\<close>

record producer_round =
  pr_before :: bool
  pr_done :: bool
  pr_wait :: "go_error option"
  pr_now :: gotime
  pr_publish :: "unit res"

fun producer_loop :: "bool \<Rightarrow> producer_round list \<Rightarrow> bytes \<Rightarrow> counters \<Rightarrow> bytes list \<times> counters" where
  "producer_loop limited [] buf c = ([], c)"
| "producer_loop limited (r # rs) buf c =
     (if \<not> pr_before r \<or> pr_done r \<or> (limited \<and> pr_wait r \<noteq> None) then ([], c)
      else let buf = stamp (pr_now r) buf in
        (case producer_loop limited rs buf (send_one (pr_publish r) c) of (bs, c) \<Rightarrow> (buf # bs, c)))"

text \<open>One line of the progress: the counters and what was added since the line before.\<close>

definition queue_progress :: "counters \<Rightarrow> u64 \<times> u64 \<Rightarrow> u64 list \<times> u64 \<times> u64" where
  "queue_progress c prev =
     (case prev of (lastSent, lastRecv) \<Rightarrow>
      ([ct_sent c, ct_sent c - lastSent, ct_recv c, ct_recv c - lastRecv, ct_sendErr c, ct_recvErr c], ct_sent c, ct_recv c))"

record 'f queue_report =
  qr_sent :: int
  qr_recv :: int
  qr_lost :: int
  qr_sendErr :: int
  qr_recvErr :: int
  qr_thr :: 'f
  qr_avg :: int
  qr_p50 :: int
  qr_p95 :: int
  qr_p99 :: int
  qr_max :: int

text \<open>\<open>at p n\<close> is \<^verbatim>\<open>int(float64(n) * p)\<close> for the percentiles 50, 95, 99 and 100.\<close>

definition queue_summary :: "'f float_fmt \<Rightarrow> (nat \<Rightarrow> nat \<Rightarrow> nat) \<Rightarrow> queue_cli \<Rightarrow> counters \<Rightarrow> 'f queue_report res" where
  "queue_summary F at f c =
     rbind (pct (ct_latencies c) (at 50)) (\<lambda>p50. rbind (pct (ct_latencies c) (at 95)) (\<lambda>p95.
     rbind (pct (ct_latencies c) (at 99)) (\<lambda>p99. rbind (pct (ct_latencies c) (at 100)) (\<lambda>pmax.
     Inr \<lparr>qr_sent = sint (ct_sent c), qr_recv = sint (ct_recv c), qr_lost = lost c,
          qr_sendErr = sint (ct_sendErr c), qr_recvErr = sint (ct_recvErr c),
          qr_thr = ff_div F (ff_of_int F (sint (ct_recv c))) (ff_secs F (qf_Duration f)),
          qr_avg = avg (ct_latencies c), qr_p50 = p50, qr_p95 = p95, qr_p99 = p99, qr_max = pmax\<rparr>))))"

definition queue_print :: "'f float_fmt \<Rightarrow> queue_cli \<Rightarrow> 'f queue_report \<Rightarrow> string list" where
  "queue_print F f r =
     [''----- RESULT -----'', ''broker:       '' @ qf_Broker f, ''size:         '' @ itoa (qf_Size f) @ '' B'',
      ''target rate:  '' @ itoa (qf_Rate f) @ '' msg/s'', ''duration:     '' @ ff_dur F (qf_Duration f),
      ''producers:    '' @ itoa (qf_Producers f), ''consumers:    '' @ itoa (qf_Consumers f),
      ''sent:         '' @ itoa (qr_sent r), ''received:     '' @ itoa (qr_recv r),
      ''lost:         '' @ itoa (qr_lost r) @ '' ('' @ ff_fix F 2 (percent F (qr_lost r) (qr_sent r)) @ ''%)'',
      ''send errors:  '' @ itoa (qr_sendErr r), ''recv errors:  '' @ itoa (qr_recvErr r),
      ''throughput:   '' @ ff_fix F 0 (qr_thr r) @ '' msg/s (recv/duration)'', ''latency avg:  '' @ ff_dur F (qr_avg r),
      ''latency p50:  '' @ ff_dur F (qr_p50 r), ''latency p95:  '' @ ff_dur F (qr_p95 r), ''latency p99:  '' @ ff_dur F (qr_p99 r),
      ''latency max:  '' @ ff_dur F (qr_max r), ''------------------'']"

section \<open>CSV files\<close>

type_synonym files = "string \<rightharpoonup> string"

definition newline :: char where
  "newline = CHR 10"

fun join :: "char \<Rightarrow> string list \<Rightarrow> string" where
  "join c [] = ''''"
| "join c [x] = x"
| "join c (x # xs) = x @ c # join c xs"

text \<open>
  The header is needed unless the file exists and is not empty; \<open>opened\<close> is the error of opening it, which creates it if need be. Both are written at the
  end of the file.
\<close>

definition append_csv :: "go_error option \<Rightarrow> string \<Rightarrow> string \<Rightarrow> string \<Rightarrow> files \<Rightarrow> files" where
  "append_csv opened file header row fs =
     (let needHeader = (case fs file of None \<Rightarrow> True | Some s \<Rightarrow> \<not> 0 < length s) in
      case opened of
        Some err \<Rightarrow> fs
      | None \<Rightarrow>
          let s = (case fs file of None \<Rightarrow> '''' | Some s \<Rightarrow> s);
              s = (if needHeader then s @ header @ [newline] else s) in
          fs(file \<mapsto> s @ row @ [newline]))"

definition queue_header :: "string list" where
  "queue_header = [''label'', ''broker'', ''size_bytes'', ''target_rate'', ''duration_s'', ''producers'', ''consumers'', ''sent'', ''received'',
     ''lost'', ''send_err'', ''recv_err'', ''throughput_msgs'', ''avg_ms'', ''p50_ms'', ''p95_ms'', ''p99_ms'', ''max_ms'']"

definition queue_row :: "'f float_fmt \<Rightarrow> queue_cli \<Rightarrow> 'f queue_report \<Rightarrow> string list" where
  "queue_row F f r =
     [qf_Label f, qf_Broker f, itoa (qf_Size f), itoa (qf_Rate f), ff_fix F 0 (ff_secs F (qf_Duration f)), itoa (qf_Producers f), itoa (qf_Consumers f),
      itoa (qr_sent r), itoa (qr_recv r), itoa (qr_lost r), itoa (qr_sendErr r), itoa (qr_recvErr r), ff_fix F 0 (qr_thr r),
      ff_fix F 3 (ms_float F (qr_avg r)), ff_fix F 3 (ms_float F (qr_p50 r)), ff_fix F 3 (ms_float F (qr_p95 r)), ff_fix F 3 (ms_float F (qr_p99 r)), ff_fix F 3 (ms_float F (qr_max r))]"

definition queue_writeCSV :: "'f float_fmt \<Rightarrow> go_error option \<Rightarrow> queue_cli \<Rightarrow> 'f queue_report \<Rightarrow> files \<Rightarrow> files" where
  "queue_writeCSV F opened f r fs =
     append_csv opened (qf_OutCSV f) (join (CHR '','') queue_header) (join (CHR '','') (queue_row F f r)) fs"

text \<open>The end of the main program: the lines it prints, and the files. An index out of range panics.\<close>

definition queue_finish :: "'f float_fmt \<Rightarrow> (nat \<Rightarrow> nat \<Rightarrow> nat) \<Rightarrow> go_error option \<Rightarrow> queue_cli \<Rightarrow> counters \<Rightarrow> files \<Rightarrow> (string list \<times> files) res" where
  "queue_finish F at opened f c fs =
     rbind (queue_summary F at f c) (\<lambda>r.
     Inr (queue_print F f r, if qf_OutCSV f \<noteq> '''' then queue_writeCSV F opened f r fs else fs))"

section \<open>The cache benchmark\<close>

record 'f cache_cli = cliFlags +
  cf_RedisURL :: string
  cf_DBPath :: string
  cf_ValueSize :: int
  cf_ReadRatio :: 'f
  cf_Rate :: int
  cf_Duration :: int
  cf_Workers :: int
  cf_CacheTTL :: int
  cf_OutCSV :: string
  cf_Label :: string
  cf_Mix :: string

text \<open>\<open>ratio\<close> is the literal \<^verbatim>\<open>0.8\<close>.\<close>

definition cache_defaults :: "'f \<Rightarrow> 'f cache_cli" where
  "cache_defaults ratio = \<lparr>fl_Strategy = ''cache_aside'', fl_Keys = 10000, fl_WBInterval = 200 * 1000000, fl_WBBatch = 512,
     cf_RedisURL = ''redis://localhost:6379/0'', cf_DBPath = ''bench.db'', cf_ValueSize = 256, cf_ReadRatio = ratio, cf_Rate = 5000,
     cf_Duration = 20 * 1000000000, cf_Workers = 4, cf_CacheTTL = 60 * 1000000000, cf_OutCSV = '''', cf_Label = '''', cf_Mix = ''custom''\<rparr>"

definition cache_parseFlags :: "'f \<Rightarrow> ('f cache_cli \<Rightarrow> 'f cache_cli) \<Rightarrow> 'f cache_cli" where
  "cache_parseFlags ratio cmdline = cmdline (cache_defaults ratio)"

text \<open>The constructors of the two stores; the servers' answers are inputs.\<close>

definition cache_NewRedis :: "'o res \<Rightarrow> ('o \<Rightarrow> 'r) \<Rightarrow> ('r \<Rightarrow> go_error option) \<Rightarrow> 'r res" where
  "cache_NewRedis parsed new_client ping =
     (case parsed of
        Inl err \<Rightarrow> Inl (Wrap ''parse redis url'' err)
      | Inr opt \<Rightarrow>
          let rdb = new_client opt in
          (case ping rdb of Some err \<Rightarrow> Inl (Wrap ''redis ping'' err) | None \<Rightarrow> Inr rdb))"

definition NewSQLite :: "'s res \<Rightarrow> ('s \<Rightarrow> go_error option \<times> 's) \<Rightarrow> ('s \<Rightarrow> go_error option \<times> 's) \<Rightarrow> 's res" where
  "NewSQLite opened pragma create_table =
     (case opened of
        Inl err \<Rightarrow> Inl (Wrap ''open sqlite'' err)
      | Inr d \<Rightarrow>
          (case pragma d of
             (Some err, d) \<Rightarrow> Inl (Wrap ''pragma'' err)
           | (None, d) \<Rightarrow>
               (case create_table d of (Some err, d) \<Rightarrow> Inl (Wrap ''create table'' err) | (None, d) \<Rightarrow> Inr d)))"

definition cache_open :: "'r res \<Rightarrow> 's res \<Rightarrow> ('r \<times> 's) res" where
  "cache_open redis sqlite =
     (case redis of
        Inl err \<Rightarrow> Inl (fatal ''redis init: %v'' err)
      | Inr r \<Rightarrow> (case sqlite of Inl err \<Rightarrow> Inl (fatal ''sqlite init: %v'' err) | Inr d \<Rightarrow> Inr (r, d)))"

definition alphabet :: string where
  "alphabet = ''abcdefghijklmnopqrstuvwxyzABCDEFGHIJKLMNOPQRSTUVWXYZ0123456789''"

text \<open>\<open>draw i\<close> is the \<open>i\<close>-th result of \<^verbatim>\<open>rand.Intn(len(chars))\<close>.\<close>

definition randString :: "(nat \<Rightarrow> nat) \<Rightarrow> int \<Rightarrow> string res" where
  "randString draw n =
     (if n < 0 then Inl (Panic ''makeslice: len out of range'')
      else Inr (map (\<lambda>i. alphabet ! draw i) [0..<nat n]))"

definition cache_progress :: "'f float_fmt \<Rightarrow> totals \<Rightarrow> M \<Rightarrow> u64 \<Rightarrow> (int \<times> int \<times> string \<times> int) \<times> u64" where
  "cache_progress F tot m lastOps =
     ((sint (totalOps tot), sint (totalOps tot - lastOps), ff_fix F 1 (hit_rate F (mt_CacheHits m) (mt_CacheMisses m)),
       sint (mt_DBGets m + mt_DBSets m)), totalOps tot)"

text \<open>The dirty keys of a write-back store are recorded, then it is flushed; an error is only logged.\<close>

fun final_dirty :: "('r, 's) store \<Rightarrow> ('r, 's) store" where
  "final_dirty (Behind st) = Behind (st\<lparr>k_m := (k_m st)\<lparr>mt_WBFinalDirty := word_of_nat (DirtyLen st)\<rparr>\<rparr>)"
| "final_dirty s = s"

definition final_flush :: "('s, 't) sqlite \<Rightarrow> ((string \<times> string) list \<Rightarrow> (string \<times> string) list) \<Rightarrow> ('r, 's) store \<Rightarrow> ('r, 's) store" where
  "final_flush Q visit s = snd (store_Flush Q visit (final_dirty s))"

record 'f cache_report =
  cr_ops :: int
  cr_reads :: int
  cr_writes :: int
  cr_thr :: 'f
  cr_avg :: int
  cr_p50 :: int
  cr_p95 :: int
  cr_p99 :: int
  cr_max :: int
  cr_hits :: int
  cr_misses :: int
  cr_hitRate :: 'f
  cr_dbGets :: u64
  cr_dbSets :: u64
  cr_wbMax :: int
  cr_wbFinal :: int

definition cache_summary :: "'f float_fmt \<Rightarrow> (nat \<Rightarrow> nat \<Rightarrow> nat) \<Rightarrow> 'f cache_cli \<Rightarrow> totals \<Rightarrow> int list \<Rightarrow> M \<Rightarrow> 'f cache_report res" where
  "cache_summary F at f tot lats m =
     rbind (pct lats (at 50)) (\<lambda>p50. rbind (pct lats (at 95)) (\<lambda>p95.
     rbind (pct lats (at 99)) (\<lambda>p99. rbind (pct lats (at 100)) (\<lambda>pmax.
     Inr \<lparr>cr_ops = sint (totalOps tot), cr_reads = sint (totalReads tot), cr_writes = sint (totalWrites tot),
          cr_thr = ff_div F (ff_of_int F (sint (totalOps tot))) (ff_secs F (cf_Duration f)),
          cr_avg = avg lats, cr_p50 = p50, cr_p95 = p95, cr_p99 = p99, cr_max = pmax,
          cr_hits = sint (mt_CacheHits m), cr_misses = sint (mt_CacheMisses m), cr_hitRate = hit_rate F (mt_CacheHits m) (mt_CacheMisses m),
          cr_dbGets = mt_DBGets m, cr_dbSets = mt_DBSets m, cr_wbMax = sint (mt_WBMaxDirty m), cr_wbFinal = sint (mt_WBFinalDirty m)\<rparr>))))"

definition cache_print :: "'f float_fmt \<Rightarrow> 'f cache_cli \<Rightarrow> 'f cache_report \<Rightarrow> string list" where
  "cache_print F f r =
     [''----- RESULT -----'', ''strategy:      '' @ fl_Strategy f,
      ''mix:           '' @ cf_Mix f @ '' (read_ratio='' @ ff_fix F 2 (cf_ReadRatio f) @ '')'',
      ''duration:      '' @ ff_dur F (cf_Duration f), ''target rate:   '' @ itoa (cf_Rate f) @ '' req/s'',
      ''workers:       '' @ itoa (cf_Workers f), ''keys:          '' @ itoa (fl_Keys f), ''value size:    '' @ itoa (cf_ValueSize f) @ '' B'',
      ''total ops:     '' @ itoa (cr_ops r), ''reads:         '' @ itoa (cr_reads r), ''writes:        '' @ itoa (cr_writes r),
      ''throughput:    '' @ ff_fix F 0 (cr_thr r) @ '' req/s'', ''latency avg:   '' @ ff_dur F (cr_avg r),
      ''latency p50:   '' @ ff_dur F (cr_p50 r), ''latency p95:   '' @ ff_dur F (cr_p95 r), ''latency p99:   '' @ ff_dur F (cr_p99 r),
      ''latency max:   '' @ ff_dur F (cr_max r), ''cache hits:    '' @ itoa (cr_hits r), ''cache misses:  '' @ itoa (cr_misses r),
      ''hit rate:      '' @ ff_fix F 2 (cr_hitRate r) @ ''%'', ''db gets:       '' @ itoa (sint (cr_dbGets r)),
      ''db sets:       '' @ itoa (sint (cr_dbSets r)), ''db total:      '' @ itoa (sint (cr_dbGets r + cr_dbSets r)),
      ''wb max dirty:  '' @ itoa (cr_wbMax r), ''wb final dirty:'' @ itoa (cr_wbFinal r), ''------------------'']"

definition cache_header :: "string list" where
  "cache_header = [''label'', ''strategy'', ''mix'', ''read_ratio'', ''duration_s'', ''target_rate'', ''workers'', ''keys'', ''value_size'',
     ''requests'', ''reads'', ''writes'', ''throughput_rps'', ''avg_ms'', ''p50_ms'', ''p95_ms'', ''p99_ms'', ''max_ms'',
     ''cache_hits'', ''cache_misses'', ''hit_rate'', ''db_gets'', ''db_sets'', ''db_total'', ''wb_max_dirty'', ''wb_final_dirty'']"

definition cache_row :: "'f float_fmt \<Rightarrow> 'f cache_cli \<Rightarrow> 'f cache_report \<Rightarrow> string list" where
  "cache_row F f r =
     [cf_Label f, fl_Strategy f, cf_Mix f, ff_fix F 2 (cf_ReadRatio f), ff_fix F 0 (ff_secs F (cf_Duration f)), itoa (cf_Rate f), itoa (cf_Workers f),
      itoa (fl_Keys f), itoa (cf_ValueSize f), itoa (cr_ops r), itoa (cr_reads r), itoa (cr_writes r), ff_fix F 0 (cr_thr r),
      ff_fix F 3 (ms_float F (cr_avg r)), ff_fix F 3 (ms_float F (cr_p50 r)), ff_fix F 3 (ms_float F (cr_p95 r)),
      ff_fix F 3 (ms_float F (cr_p99 r)), ff_fix F 3 (ms_float F (cr_max r)),
      itoa (cr_hits r), itoa (cr_misses r), ff_fix F 4 (ff_div F (cr_hitRate r) (ff_of_int F 100)),
      itoa (sint (cr_dbGets r)), itoa (sint (cr_dbSets r)), itoa (sint (cr_dbGets r + cr_dbSets r)), itoa (cr_wbMax r), itoa (cr_wbFinal r)]"

definition cache_writeCSV :: "'f float_fmt \<Rightarrow> go_error option \<Rightarrow> 'f cache_cli \<Rightarrow> 'f cache_report \<Rightarrow> files \<Rightarrow> files" where
  "cache_writeCSV F opened f r fs =
     append_csv opened (cf_OutCSV f) (join (CHR '','') cache_header) (join (CHR '','') (cache_row F f r)) fs"

definition cache_finish :: "'f float_fmt \<Rightarrow> (nat \<Rightarrow> nat \<Rightarrow> nat) \<Rightarrow> go_error option \<Rightarrow> 'f cache_cli \<Rightarrow> totals \<Rightarrow> int list \<Rightarrow> M \<Rightarrow> files
    \<Rightarrow> (string list \<times> files) res" where
  "cache_finish F at opened f tot lats m fs =
     rbind (cache_summary F at f tot lats m) (\<lambda>r.
     Inr (cache_print F f r, if cf_OutCSV f \<noteq> '''' then cache_writeCSV F opened f r fs else fs))"

section \<open>Reading a CSV file back\<close>

fun split_on :: "char \<Rightarrow> string \<Rightarrow> string list" where
  "split_on c [] = [[]]"
| "split_on c (x # xs) = (if x = c then [] # split_on c xs else (x # hd (split_on c xs)) # tl (split_on c xs))"

lemma split_on_nonempty [simp]: "split_on c s \<noteq> []"
  by (induction s) auto

lemma split_on_free: "c \<notin> set s \<Longrightarrow> split_on c s = [s]"
  by (induction s) auto

lemma split_on_append: "c \<notin> set s \<Longrightarrow> split_on c (s @ c # t) = s # split_on c t"
  by (induction s) auto

lemma split_on_join: "\<forall>x \<in> set xs. c \<notin> set x \<Longrightarrow> xs \<noteq> [] \<Longrightarrow> split_on c (join c xs) = xs"
  by (induction c xs rule: join.induct) (simp_all add: split_on_free split_on_append)

lemma set_join: "set (join c xs) \<subseteq> insert c (\<Union> (set ` set xs))"
  by (induction c xs rule: join.induct) auto

lemma split_on_lines: "\<forall>x \<in> set xs. c \<notin> set x \<Longrightarrow> split_on c (concat (map (\<lambda>x. x @ [c]) xs)) = xs @ [[]]"
  by (induction xs) (simp_all add: split_on_append)

definition clean :: "string \<Rightarrow> bool" where
  "clean s \<longleftrightarrow> CHR '','' \<notin> set s \<and> newline \<notin> set s"

lemma clean_itoa: "clean (itoa i)"
proof -
  have d: "48 \<le> (of_char x :: nat)" if "x \<in> set (decimal n)" for x n
    using decimal_digits [of n] that by (simp add: list_all_iff is_digit_def)
  show ?thesis by (auto simp: itoa_def clean_def newline_def dest!: d)
qed

lemma clean_join: "\<forall>x \<in> set xs. clean x \<Longrightarrow> newline \<notin> set (join (CHR '','') xs)"
  using set_join [of "CHR '',''" xs] by (auto simp: clean_def newline_def)

text \<open>Appending rows without errors to a file that is absent or empty: one header, then the rows in order.\<close>

lemma append_csv_rows:
  assumes "fs path = Some s" "s \<noteq> ''''"
  shows "fold (\<lambda>row. append_csv None path header row) rows fs = fs(path \<mapsto> s @ concat (map (\<lambda>x. x @ [newline]) rows))"
  using assms
proof (induction rows arbitrary: fs s)
  case (Cons row rows)
  have "append_csv None path header row fs = fs(path \<mapsto> s @ row @ [newline])" using Cons.prems by (simp add: append_csv_def)
  moreover have "fold (\<lambda>row. append_csv None path header row) rows (fs(path \<mapsto> s @ row @ [newline]))
      = (fs(path \<mapsto> s @ row @ [newline]))(path \<mapsto> (s @ row @ [newline]) @ concat (map (\<lambda>x. x @ [newline]) rows))"
    by (rule Cons.IH) simp_all
  ultimately show ?case by simp
qed (simp add: fun_upd_idem)

lemma append_csv_table:
  assumes "fs path = None \<or> fs path = Some ''''" "rows \<noteq> []" "newline \<notin> set header" "\<forall>row \<in> set rows. newline \<notin> set row"
  shows "\<exists>s. fold (\<lambda>row. append_csv None path header row) rows fs = fs(path \<mapsto> s) \<and> split_on newline s = header # rows @ ['''']"
proof -
  obtain row rest where rows: "rows = row # rest" using assms(2) by (cases rows) auto
  let ?s = "header @ [newline] @ row @ [newline]"
  have "append_csv None path header row fs = fs(path \<mapsto> ?s)" using assms(1) by (auto simp: append_csv_def)
  then have "fold (\<lambda>row. append_csv None path header row) rows fs = fs(path \<mapsto> concat (map (\<lambda>x. x @ [newline]) (header # rows)))"
    using append_csv_rows [of "fs(path \<mapsto> ?s)" path ?s header rest] by (simp add: rows)
  moreover have "split_on newline (concat (map (\<lambda>x. x @ [newline]) (header # rows))) = (header # rows) @ ['''']"
    using assms(3,4) by (intro split_on_lines) simp
  ultimately show ?thesis by auto
qed

lemma csv_table:
  assumes "fs path = None \<or> fs path = Some ''''" "rows \<noteq> []" "\<forall>x \<in> set header. clean x" "header \<noteq> []"
    and "\<forall>row \<in> set rows. length row = length header \<and> (\<forall>x \<in> set row. clean x)"
  shows "\<exists>s. fold (\<lambda>row. append_csv None path (join (CHR '','') header) (join (CHR '','') row)) rows fs = fs(path \<mapsto> s)
    \<and> map (split_on (CHR '','')) (butlast (split_on newline s)) = header # rows"
proof -
  let ?j = "join (CHR '','')"
  have fold: "fold (\<lambda>row. append_csv None path (?j header) (?j row)) rows fs = fold (append_csv None path (?j header)) (map ?j rows) fs"
    by (simp add: fold_map comp_def)
  have "\<forall>row \<in> set (map ?j rows). newline \<notin> set row" using assms(5) clean_join by auto
  then obtain s where s: "fold (append_csv None path (?j header)) (map ?j rows) fs = fs(path \<mapsto> s)" "split_on newline s = ?j header # map ?j rows @ ['''']"
    using append_csv_table [of fs path "map ?j rows" "?j header"] assms(1-3) clean_join by auto
  have "split_on (CHR '','') (?j xs) = xs" if "\<forall>x \<in> set xs. clean x" "xs \<noteq> []" for xs
    using that by (intro split_on_join) (auto simp: clean_def)
  moreover have "row \<noteq> []" if "row \<in> set rows" for row using assms(4,5) that by fastforce
  ultimately have "map (split_on (CHR '','')) (?j header # map ?j rows) = header # rows"
    using assms(3-5) by (simp add: comp_def map_idI)
  moreover have "butlast (split_on newline s) = ?j header # map ?j rows" by (simp add: s(2) butlast_append)
  ultimately have "map (split_on (CHR '','')) (butlast (split_on newline s)) = header # rows" by simp
  with s(1) fold show ?thesis by auto
qed

lemma clean_headers: "\<forall>x \<in> set queue_header. clean x" "\<forall>x \<in> set cache_header. clean x"
  by (simp_all add: queue_header_def cache_header_def clean_def newline_def)

section \<open>Rates, producers, percentiles\<close>

lemma hit_rate_HitRate:
  assumes "0 < sint (mt_CacheHits m + mt_CacheMisses m)"
  shows "hit_rate F (mt_CacheHits m) (mt_CacheMisses m) = ff_mult F (HitRate F m) (ff_of_int F 100)"
proof -
  have "mt_CacheHits m + mt_CacheMisses m \<noteq> 0"
  proof
    assume z: "mt_CacheHits m + mt_CacheMisses m = 0"
    show False using assms unfolding z by simp
  qed
  then show ?thesis using assms by (simp add: hit_rate_def HitRate_def)
qed

lemma limiter_rates:
  assumes "0 < rate" "0 < n"
  obtains per burst where "limiter_for rate n = Inr (Some (per, burst))" "1 \<le> per" "1 \<le> burst"
    "n * per \<le> max rate n" "rate < n * (per + 1)"
proof -
  let ?q = "rate div n"
  have q: "rate sdiv n = ?q" using assms by (simp add: signed_divide_int_def)
  have e: "n * ?q + rate mod n = rate" "0 \<le> rate mod n" "rate mod n < n" using assms by simp_all
  let ?per = "if ?q < 1 then 1 else ?q"
  have b: "(?per :: int) sdiv 2 = ?per div 2" by (simp add: signed_divide_int_def)
  show ?thesis
  proof
    show "limiter_for rate n = Inr (Some (?per, ?per div 2 + 1))"
      using assms by (simp add: limiter_for_def Let_def q b)
    have "n * ?q \<le> rate" using e by linarith
    then show "n * ?per \<le> max rate n" by (simp add: le_max_iff_disj)
    have "0 \<le> ?q" using assms by (simp add: pos_imp_zdiv_nonneg_iff)
    moreover have "rate < n * (?q + 1)" using e by (simp only: distrib_left)
    ultimately show "rate < n * (?per + 1)" using assms e by (cases "?q = 0") auto
  qed auto
qed

lemma producer_loop_counts:
  "producer_loop limited rs buf c = (sent, c') \<Longrightarrow>
    ct_sent c' + ct_sendErr c' = ct_sent c + ct_sendErr c + word_of_nat (length sent) \<and> ct_recv c' = ct_recv c
    \<and> length sent \<le> length rs \<and> (8 \<le> length buf \<longrightarrow> (\<forall>m \<in> set sent. length m = length buf \<and> drop 8 m = drop 8 buf))"
proof (induction rs arbitrary: buf c sent c')
  case (Cons r rs)
  show ?case
  proof (cases "\<not> pr_before r \<or> pr_done r \<or> limited \<and> pr_wait r \<noteq> None")
    case False
    obtain sent1 c1 where l: "producer_loop limited rs (stamp (pr_now r) buf) (send_one (pr_publish r) c) = (sent1, c1)" by fastforce
    have s: "sent = stamp (pr_now r) buf # sent1" "c' = c1" using Cons.prems False l by (auto simp: Let_def split: if_splits)
    have o: "ct_sent (send_one (pr_publish r) c) + ct_sendErr (send_one (pr_publish r) c) = ct_sent c + ct_sendErr c + 1"
      "ct_recv (send_one (pr_publish r) c) = ct_recv c"
      by (simp_all add: send_one_def split: sum.split)
    have st: "8 \<le> length buf \<Longrightarrow> length (stamp (pr_now r) buf) = length buf \<and> drop 8 (stamp (pr_now r) buf) = drop 8 buf"
      by (simp add: stamp_def)
    note IH = Cons.IH [OF l, unfolded o]
    have "ct_sent c' + ct_sendErr c' = ct_sent c + ct_sendErr c + word_of_nat (length sent)"
      using IH by (simp add: s)
    moreover have "ct_recv c' = ct_recv c" "length sent \<le> length (r # rs)" using IH by (simp_all add: s)
    moreover have "\<forall>m \<in> set sent. length m = length buf \<and> drop 8 m = drop 8 buf" if "8 \<le> length buf"
      using IH st [OF that] that by (simp add: s)
    ultimately show ?thesis by blast
  qed (use Cons.prems in auto)
qed auto

lemma queue_summary_ordered:
  assumes "queue_summary F at f c = Inr r" "\<And>n. at 50 n \<le> at 95 n" "\<And>n. at 95 n \<le> at 99 n" "\<And>n. at 99 n \<le> at 100 n"
  shows "qr_p50 r \<le> qr_p95 r \<and> qr_p95 r \<le> qr_p99 r \<and> qr_p99 r \<le> qr_max r"
proof -
  let ?l = "ct_latencies c"
  obtain a b d e where p: "pct ?l (at 50) = Inr a" "pct ?l (at 95) = Inr b" "pct ?l (at 99) = Inr d" "pct ?l (at 100) = Inr e"
    using assms(1) by (cases "pct ?l (at 50)"; cases "pct ?l (at 95)"; cases "pct ?l (at 99)"; cases "pct ?l (at 100)") (auto simp: queue_summary_def)
  with assms(1) have "qr_p50 r = a" "qr_p95 r = b" "qr_p99 r = d" "qr_max r = e" by (auto simp: queue_summary_def)
  with pct_mono [OF assms(2) p(1,2)] pct_mono [OF assms(3) p(2,3)] pct_mono [OF assms(4) p(3,4)] show ?thesis by simp
qed

section \<open>Properties\<close>



end
