(* ===== verification/Orders.thy ===== *)
theory Orders
  imports Strconv
begin

text \<open>
  The shop service of \<^verbatim>\<open>tasks/task_2\<close>: placing an order, changing an address and creating a product, each in a
  transaction, the lists, and the HTTP handlers. The tables and their constraints are those of the migration
  \<^verbatim>\<open>internal/db/migrations/00001_init.sql\<close>; each SQL statement of the source is a function on them. Amounts of type
  \<^verbatim>\<open>NUMERIC(12, 2)\<close> are numbers of hundredths. The arithmetic of 64-bit floats is a parameter.
\<close>

section \<open>Tables\<close>

record CustomerRow =
  c_CustomerID :: int
  c_FirstName :: string
  c_LastName :: string
  c_Email :: string

record product =
  p_id :: int
  p_name :: string
  p_price :: int

record order =
  o_id :: int
  o_customer :: int
  o_total :: int

record order_item =
  i_id :: int
  i_order :: int
  i_product :: int
  i_quantity :: int
  i_subtotal :: int

text \<open>A sequence of a \<^verbatim>\<open>SERIAL\<close> column keeps the last number it gave.\<close>

record database =
  db_customers :: "CustomerRow list"
  db_products :: "product list"
  db_orders :: "order list"
  db_items :: "order_item list"
  db_seq_products :: int
  db_seq_orders :: int
  db_seq_items :: int

definition max_serial :: int where
  "max_serial = 2 ^ 31 - 1"

definition numeric_ok :: "int \<Rightarrow> bool" where
  "numeric_ok a \<longleftrightarrow> \<bar>a\<bar> < 10 ^ 12"

text \<open>
  Floats: the value of an amount (\<^verbatim>\<open>::float8\<close>), of an integer, the product, the sign test, and the amount a
  float is rounded to when it is stored, if it is one.
\<close>

record 'f float_ops =
  f_of_numeric :: "int \<Rightarrow> 'f"
  f_of_int :: "int \<Rightarrow> 'f"
  f_mult :: "'f \<Rightarrow> 'f \<Rightarrow> 'f"
  f_negative :: "'f \<Rightarrow> bool"
  f_to_numeric :: "'f \<Rightarrow> int option"

section \<open>Statements\<close>

definition violates :: "string \<Rightarrow> go_error" where
  "violates c = Errorf ''violates constraint %q'' [FStr c]"

definition numeric_overflow :: go_error where
  "numeric_overflow = Err ''numeric field overflow''"

definition ErrNoRows :: go_error where
  "ErrNoRows = Err ''no rows in result set''"

definition too_long :: go_error where
  "too_long = Err ''value too long for type character varying''"

definition invalid_text :: go_error where
  "invalid_text = Err ''invalid byte sequence for encoding''"

text \<open>
  Storing into a \<^verbatim>\<open>VARCHAR(n)\<close> column: characters are counted, not bytes of their UTF-8 form; excess blanks are cut
  off, any other excess is an error, and so is a zero byte.
\<close>

definition char_len :: "string \<Rightarrow> nat" where
  "char_len s = length (filter (\<lambda>c. of_char c div 64 \<noteq> (2 :: nat)) s)"

definition varchar :: "nat \<Rightarrow> string \<Rightarrow> string res" where
  "varchar n s =
     (let m = length s - (char_len s - n) in
      if CHR 0x00 \<in> set s then Inl invalid_text
      else if list_all (\<lambda>c. c = CHR '' '') (drop m s) then Inr (take m s)
      else Inl too_long)"

lemma varchar_short: "char_len s \<le> n \<Longrightarrow> CHR 0x00 \<notin> set s \<Longrightarrow> varchar n s = Inr s"
  by (simp add: varchar_def)

definition sequence_end :: go_error where
  "sequence_end = Err ''reached maximum value of sequence''"

text \<open>\<^verbatim>\<open>INSERT INTO orders (customer_id, total_amount) VALUES ($1, 0) RETURNING order_id\<close>\<close>

definition insert_order :: "int \<Rightarrow> database \<Rightarrow> int res \<times> database" where
  "insert_order customer db =
     (let i = db_seq_orders db + 1 in
      if max_serial < i then (Inl sequence_end, db)
      else let db = db\<lparr>db_seq_orders := i\<rparr> in
        if i \<in> o_id ` set (db_orders db) then (Inl (violates ''orders_pkey''), db)
        else if customer \<notin> c_CustomerID ` set (db_customers db) then (Inl (violates ''orders_customer_id_fkey''), db)
        else (Inr i, db\<lparr>db_orders := db_orders db @ [\<lparr>o_id = i, o_customer = customer, o_total = 0\<rparr>]\<rparr>))"

text \<open>\<^verbatim>\<open>SELECT price::float8 FROM products WHERE product_id = $1 FOR UPDATE\<close>\<close>

definition lock_product :: "'f float_ops \<Rightarrow> int \<Rightarrow> database \<Rightarrow> 'f res \<times> database" where
  "lock_product F product db =
     (case find (\<lambda>p. p_id p = product) (db_products db) of
        None \<Rightarrow> (Inl ErrNoRows, db)
      | Some p \<Rightarrow> (Inr (f_of_numeric F (p_price p)), db))"

text \<open>\<^verbatim>\<open>INSERT INTO order_items (order_id, product_id, quantity, subtotal) VALUES ($1, $2, $3, $4)\<close>\<close>

definition insert_item :: "'f float_ops \<Rightarrow> int \<Rightarrow> int \<Rightarrow> int \<Rightarrow> 'f \<Rightarrow> database \<Rightarrow> unit res \<times> database" where
  "insert_item F ord product quantity subtotal db =
     (case f_to_numeric F subtotal of
        None \<Rightarrow> (Inl numeric_overflow, db)
      | Some a \<Rightarrow>
          let i = db_seq_items db + 1 in
          if \<not> numeric_ok a then (Inl numeric_overflow, db)
          else if max_serial < i then (Inl sequence_end, db)
          else let db = db\<lparr>db_seq_items := i\<rparr> in
            if quantity \<le> 0 then (Inl (violates ''order_items_quantity_check''), db)
            else if a < 0 then (Inl (violates ''order_items_subtotal_check''), db)
            else if i \<in> i_id ` set (db_items db) then (Inl (violates ''order_items_pkey''), db)
            else if (ord, product) \<in> (\<lambda>x. (i_order x, i_product x)) ` set (db_items db)
            then (Inl (violates ''order_items_order_id_product_id_key''), db)
            else if ord \<notin> o_id ` set (db_orders db) then (Inl (violates ''order_items_order_id_fkey''), db)
            else if product \<notin> p_id ` set (db_products db) then (Inl (violates ''order_items_product_id_fkey''), db)
            else (Inr (), db\<lparr>db_items := db_items db @
                    [\<lparr>i_id = i, i_order = ord, i_product = product, i_quantity = quantity, i_subtotal = a\<rparr>]\<rparr>))"

definition items_total :: "int \<Rightarrow> database \<Rightarrow> int" where
  "items_total ord db = sum_list (map i_subtotal (filter (\<lambda>x. i_order x = ord) (db_items db)))"

text \<open>\<^verbatim>\<open>UPDATE orders SET total_amount = (SELECT COALESCE(SUM(subtotal), 0) ...) WHERE order_id = $1 RETURNING total_amount::float8\<close>\<close>

definition update_total :: "'f float_ops \<Rightarrow> int \<Rightarrow> database \<Rightarrow> 'f res \<times> database" where
  "update_total F ord db =
     (let a = items_total ord db in
      if ord \<notin> o_id ` set (db_orders db) then (Inl ErrNoRows, db)
      else if \<not> numeric_ok a then (Inl numeric_overflow, db)
      else if a < 0 then (Inl (violates ''orders_total_amount_check''), db)
      else (Inr (f_of_numeric F a),
            db\<lparr>db_orders := map (\<lambda>x. if o_id x = ord then x\<lparr>o_total := a\<rparr> else x) (db_orders db)\<rparr>))"

text \<open>\<^verbatim>\<open>UPDATE customers SET email = $1 WHERE customer_id = $2\<close>; the result is the number of rows.\<close>

definition update_email :: "string \<Rightarrow> int \<Rightarrow> database \<Rightarrow> nat res \<times> database" where
  "update_email email customer db =
     (let hit = filter (\<lambda>c. c_CustomerID c = customer) (db_customers db) in
      if hit = [] then (Inr 0, db)
      else case varchar 255 email of
        Inl err \<Rightarrow> (Inl err, db)
      | Inr v \<Rightarrow>
          if \<exists>c \<in> set (db_customers db). c_CustomerID c \<noteq> customer \<and> c_Email c = v
          then (Inl (violates ''customers_email_key''), db)
          else (Inr (length hit),
                db\<lparr>db_customers := map (\<lambda>c. if c_CustomerID c = customer then c\<lparr>c_Email := v\<rparr> else c) (db_customers db)\<rparr>))"

text \<open>\<^verbatim>\<open>INSERT INTO products (product_name, price) VALUES ($1, $2) RETURNING product_id, product_name, price::float8\<close>\<close>

definition insert_product :: "'f float_ops \<Rightarrow> string \<Rightarrow> 'f \<Rightarrow> database \<Rightarrow> (int \<times> string \<times> 'f) res \<times> database" where
  "insert_product F name price db =
     (case f_to_numeric F price of
        None \<Rightarrow> (Inl numeric_overflow, db)
      | Some a \<Rightarrow>
          let i = db_seq_products db + 1 in
          if \<not> numeric_ok a then (Inl numeric_overflow, db)
          else case varchar 200 name of
            Inl err \<Rightarrow> (Inl err, db)
          | Inr v \<Rightarrow>
              if max_serial < i then (Inl sequence_end, db)
              else let db = db\<lparr>db_seq_products := i\<rparr> in
                if a < 0 then (Inl (violates ''products_price_check''), db)
                else if i \<in> p_id ` set (db_products db) then (Inl (violates ''products_pkey''), db)
                else (Inr (i, v, f_of_numeric F a), db\<lparr>db_products := db_products db @ [\<lparr>p_id = i, p_name = v, p_price = a\<rparr>]\<rparr>))"

section \<open>Transactions\<close>

text \<open>
  \<open>e_net V k\<close> is the error with which the \<open>k\<close>-th call to the server fails, if it does; such a call counts as not
  executed, which shows in nothing but a sequence, since the transaction is then rolled back. A commit succeeds, fails
  with the transaction rolled back, or fails for the caller although it was executed.
\<close>

datatype commit = CommitOk | CommitFailed go_error | AnswerLost go_error

record environment =
  e_net :: "nat \<Rightarrow> go_error option"
  e_commit :: commit

record txn =
  tx_db :: database
  tx_calls :: nat

definition call :: "environment \<Rightarrow> (database \<Rightarrow> 'a res \<times> database) \<Rightarrow> txn \<Rightarrow> 'a res \<times> txn" where
  "call V f tx =
     (case e_net V (tx_calls tx) of
        Some err \<Rightarrow> (Inl err, tx\<lparr>tx_calls := Suc (tx_calls tx)\<rparr>)
      | None \<Rightarrow> (case f (tx_db tx) of (r, db) \<Rightarrow> (r, \<lparr>tx_db = db, tx_calls = Suc (tx_calls tx)\<rparr>)))"

text \<open>The roll-back restores the tables; sequences do not go back.\<close>

definition rollback :: "database \<Rightarrow> database \<Rightarrow> database" where
  "rollback db0 db = db0\<lparr>db_seq_products := db_seq_products db, db_seq_orders := db_seq_orders db, db_seq_items := db_seq_items db\<rparr>"

definition finish :: "environment \<Rightarrow> database \<Rightarrow> 'a res \<times> txn \<Rightarrow> 'a res \<times> database" where
  "finish V db0 r =
     (case r of
        (Inl err, tx) \<Rightarrow> (Inl err, rollback db0 (tx_db tx))
      | (Inr x, tx) \<Rightarrow>
          (case e_commit V of
             CommitOk \<Rightarrow> (Inr x, tx_db tx)
           | CommitFailed err \<Rightarrow> (Inl err, rollback db0 (tx_db tx))
           | AnswerLost err \<Rightarrow> (Inl err, tx_db tx)))"

section \<open>The service\<close>

record OrderLineIn =
  l_ProductID :: int
  l_Quantity :: int

record 'f PlaceOrderResult =
  r_OrderID :: int
  r_TotalAmount :: 'f
  r_CustomerID :: int

definition order_line :: "'f float_ops \<Rightarrow> environment \<Rightarrow> int \<Rightarrow> OrderLineIn \<Rightarrow> txn \<Rightarrow> unit res \<times> txn" where
  "order_line F V ord line tx =
     (if l_Quantity line \<le> 0 then (Inl (Err ''quantity must be positive''), tx)
      else case call V (lock_product F (l_ProductID line)) tx of
        (Inl err, tx) \<Rightarrow>
          (if errors_is err ErrNoRows then (Inl (Errorf ''product %d not found'' [FInt (l_ProductID line)]), tx)
           else (Inl (wrapf_error ''lock product: %w'' [] err), tx))
      | (Inr price, tx) \<Rightarrow>
          (let subtotal = f_mult F price (f_of_int F (l_Quantity line)) in
           case call V (insert_item F ord (l_ProductID line) (l_Quantity line) subtotal) tx of
             (Inl err, tx) \<Rightarrow> (Inl (wrapf_error ''insert order_item: %w'' [] err), tx)
           | (Inr _, tx) \<Rightarrow> (Inr (), tx)))"

fun order_lines :: "'f float_ops \<Rightarrow> environment \<Rightarrow> int \<Rightarrow> OrderLineIn list \<Rightarrow> txn \<Rightarrow> unit res \<times> txn" where
  "order_lines F V ord [] tx = (Inr (), tx)"
| "order_lines F V ord (line # lines) tx =
     (case order_line F V ord line tx of
        (Inl err, tx) \<Rightarrow> (Inl err, tx)
      | (Inr _, tx) \<Rightarrow> order_lines F V ord lines tx)"

definition place_order_tx :: "'f float_ops \<Rightarrow> environment \<Rightarrow> int \<Rightarrow> OrderLineIn list \<Rightarrow> txn \<Rightarrow> 'f PlaceOrderResult res \<times> txn" where
  "place_order_tx F V customer lines tx =
     (case call V (insert_order customer) tx of
        (Inl err, tx) \<Rightarrow> (Inl (wrapf_error ''insert order: %w'' [] err), tx)
      | (Inr ord, tx) \<Rightarrow>
          (case order_lines F V ord lines tx of
             (Inl err, tx) \<Rightarrow> (Inl err, tx)
           | (Inr _, tx) \<Rightarrow>
               (case call V (update_total F ord) tx of
                  (Inl err, tx) \<Rightarrow> (Inl (wrapf_error ''update order total: %w'' [] err), tx)
                | (Inr amount, tx) \<Rightarrow> (Inr \<lparr>r_OrderID = ord, r_TotalAmount = amount, r_CustomerID = customer\<rparr>, tx))))"

text \<open>\<^verbatim>\<open>BeginTx\<close> is the first call.\<close>

definition begin_tx :: "environment \<Rightarrow> database \<Rightarrow> (txn \<Rightarrow> 'a res \<times> txn) \<Rightarrow> 'a res \<times> database" where
  "begin_tx V db body =
     (case e_net V 0 of
        Some err \<Rightarrow> (Inl err, db)
      | None \<Rightarrow> finish V db (body \<lparr>tx_db = db, tx_calls = 1\<rparr>))"

definition PlaceOrder :: "'f float_ops \<Rightarrow> environment \<Rightarrow> int \<Rightarrow> OrderLineIn list \<Rightarrow> database \<Rightarrow> 'f PlaceOrderResult res \<times> database" where
  "PlaceOrder F V customer lines db =
     (if lines = [] then (Inl (Err ''empty order''), db)
      else begin_tx V db (place_order_tx F V customer lines))"

definition UpdateCustomerEmail :: "environment \<Rightarrow> int \<Rightarrow> string \<Rightarrow> database \<Rightarrow> unit res \<times> database" where
  "UpdateCustomerEmail V customer email db =
     begin_tx V db (\<lambda>tx.
       case call V (update_email email customer) tx of
         (Inl err, tx) \<Rightarrow> (Inl (wrapf_error ''update email: %w'' [] err), tx)
       | (Inr n, tx) \<Rightarrow> if n = 0 then (Inl (Err ''customer not found''), tx) else (Inr (), tx))"

record 'f NewProduct =
  n_Name :: string
  n_Price :: 'f

record 'f ProductCreated =
  pc_ProductID :: int
  pc_Name :: string
  pc_Price :: 'f

definition CreateProduct :: "'f float_ops \<Rightarrow> environment \<Rightarrow> 'f NewProduct \<Rightarrow> database \<Rightarrow> 'f ProductCreated res \<times> database" where
  "CreateProduct F V p db =
     (if f_negative F (n_Price p) then (Inl (Err ''price must be non-negative''), db)
      else begin_tx V db (\<lambda>tx.
        case call V (insert_product F (n_Name p) (n_Price p)) tx of
          (Inl err, tx) \<Rightarrow> (Inl (wrapf_error ''insert product: %w'' [] err), tx)
        | (Inr (i, name, price), tx) \<Rightarrow> (Inr \<lparr>pc_ProductID = i, pc_Name = name, pc_Price = price\<rparr>, tx)))"

text \<open>The lists: \<open>e_net V 0\<close> is the error of the query, \<open>e_net V 1\<close> one that ends the rows.\<close>

definition query_rows :: "environment \<Rightarrow> 'r list \<Rightarrow> 'r list res" where
  "query_rows V rows = (case e_net V 0 of Some err \<Rightarrow> Inl err | None \<Rightarrow> (case e_net V 1 of Some err \<Rightarrow> Inl err | None \<Rightarrow> Inr rows))"

definition QueryCustomers :: "environment \<Rightarrow> database \<Rightarrow> CustomerRow list res" where
  "QueryCustomers V db = query_rows V (sort_key c_CustomerID (db_customers db))"

definition QueryProducts :: "'f float_ops \<Rightarrow> environment \<Rightarrow> database \<Rightarrow> (int \<times> string \<times> 'f) list res" where
  "QueryProducts F V db =
     query_rows V (map (\<lambda>p. (p_id p, p_name p, f_of_numeric F (p_price p))) (sort_key p_id (db_products db)))"

section \<open>Handlers\<close>

text \<open>The replies, by their status; a body is what the framework's parser made of it.\<close>

datatype 'f reply =
    BadRequest go_error
  | ServerError go_error
  | OrderCreated "'f PlaceOrderResult"
  | ProductMade "'f ProductCreated"
  | NoContent
  | CustomerList "CustomerRow list"
  | ProductList "(int \<times> string \<times> 'f) list"

record placeOrderReq =
  q_CustomerID :: int
  q_Items :: "OrderLineIn list"

definition PlaceOrder_handler :: "'f float_ops \<Rightarrow> environment \<Rightarrow> placeOrderReq res \<Rightarrow> database \<Rightarrow> 'f reply \<times> database" where
  "PlaceOrder_handler F V body db =
     (case body of
        Inl err \<Rightarrow> (BadRequest err, db)
      | Inr req \<Rightarrow>
          (case PlaceOrder F V (q_CustomerID req) (q_Items req) db of
             (Inl err, db) \<Rightarrow> (BadRequest err, db)
           | (Inr r, db) \<Rightarrow> (OrderCreated r, db)))"

definition UpdateCustomerEmail_handler :: "environment \<Rightarrow> string \<Rightarrow> string res \<Rightarrow> database \<Rightarrow> 'f reply \<times> database" where
  "UpdateCustomerEmail_handler V param body db =
     (case parse_int32 param of
        None \<Rightarrow> (BadRequest (Err ''invalid id''), db)
      | Some i \<Rightarrow>
          (case body of
             Inl err \<Rightarrow> (BadRequest err, db)
           | Inr email \<Rightarrow>
               if email = [] then (BadRequest (Err ''email required''), db)
               else (case UpdateCustomerEmail V i email db of
                       (Inl err, db) \<Rightarrow> (BadRequest err, db)
                     | (Inr _, db) \<Rightarrow> (NoContent, db))))"

definition CreateProduct_handler :: "'f float_ops \<Rightarrow> environment \<Rightarrow> 'f NewProduct res \<Rightarrow> database \<Rightarrow> 'f reply \<times> database" where
  "CreateProduct_handler F V body db =
     (case body of
        Inl err \<Rightarrow> (BadRequest err, db)
      | Inr req \<Rightarrow>
          if n_Name req = [] then (BadRequest (Err ''product_name required''), db)
          else (case CreateProduct F V req db of
                  (Inl err, db) \<Rightarrow> (BadRequest err, db)
                | (Inr r, db) \<Rightarrow> (ProductMade r, db)))"

definition ListCustomers :: "environment \<Rightarrow> database \<Rightarrow> 'f reply" where
  "ListCustomers V db = (case QueryCustomers V db of Inl err \<Rightarrow> ServerError err | Inr rows \<Rightarrow> CustomerList rows)"

definition ListProducts :: "'f float_ops \<Rightarrow> environment \<Rightarrow> database \<Rightarrow> 'f reply" where
  "ListProducts F V db = (case QueryProducts F V db of Inl err \<Rightarrow> ServerError err | Inr rows \<Rightarrow> ProductList rows)"

section \<open>The invariant of the tables\<close>

text \<open>
  Keys are unique and below their sequences, references lead to rows, amounts are not negative, and the total
  of every order, but for those in \<open>X\<close>, is the sum of its items.
\<close>

definition keys_ok :: "('r \<Rightarrow> int) \<Rightarrow> 'r list \<Rightarrow> int \<Rightarrow> bool" where
  "keys_ok key rows s \<longleftrightarrow> distinct (map key rows) \<and> (\<forall>r \<in> set rows. key r \<le> s)"

definition refs_ok :: "database \<Rightarrow> bool" where
  "refs_ok db \<longleftrightarrow> o_customer ` set (db_orders db) \<subseteq> c_CustomerID ` set (db_customers db)
     \<and> i_order ` set (db_items db) \<subseteq> o_id ` set (db_orders db)
     \<and> i_product ` set (db_items db) \<subseteq> p_id ` set (db_products db)"

definition amounts_ok :: "database \<Rightarrow> bool" where
  "amounts_ok db \<longleftrightarrow> (\<forall>p \<in> set (db_products db). 0 \<le> p_price p \<and> numeric_ok (p_price p))
     \<and> (\<forall>x \<in> set (db_items db). 0 < i_quantity x \<and> 0 \<le> i_subtotal x)"

definition store_inv_but :: "int set \<Rightarrow> database \<Rightarrow> bool" where
  "store_inv_but X db \<longleftrightarrow>
     keys_ok p_id (db_products db) (db_seq_products db) \<and> keys_ok o_id (db_orders db) (db_seq_orders db)
   \<and> keys_ok i_id (db_items db) (db_seq_items db)
   \<and> distinct (map c_CustomerID (db_customers db)) \<and> distinct (map c_Email (db_customers db))
   \<and> distinct (map (\<lambda>x. (i_order x, i_product x)) (db_items db))
   \<and> refs_ok db \<and> amounts_ok db
   \<and> (\<forall>x \<in> set (db_orders db). o_id x \<notin> X \<longrightarrow> o_total x = items_total (o_id x) db)"

abbreviation store_inv :: "database \<Rightarrow> bool" where
  "store_inv \<equiv> store_inv_but {}"

lemma store_inv_but_mono: "store_inv_but X db \<Longrightarrow> X \<subseteq> Y \<Longrightarrow> store_inv_but Y db"
  by (auto simp: store_inv_but_def)

lemma keys_ok_snoc [simp]: "keys_ok key (rows @ [r]) s \<longleftrightarrow> keys_ok key rows s \<and> key r \<notin> key ` set rows \<and> key r \<le> s"
  by (auto simp: keys_ok_def)

lemma keys_ok_mono: "keys_ok key rows s \<Longrightarrow> s \<le> s' \<Longrightarrow> keys_ok key rows s'"
  by (fastforce simp: keys_ok_def)

definition seqs_le :: "database \<Rightarrow> database \<Rightarrow> bool" where
  "seqs_le db db' \<longleftrightarrow> db_seq_products db \<le> db_seq_products db' \<and> db_seq_orders db \<le> db_seq_orders db'
     \<and> db_seq_items db \<le> db_seq_items db'"

lemma items_total_seqs [simp]:
  "items_total ord (db\<lparr>db_seq_products := a\<rparr>) = items_total ord db"
  "items_total ord (db\<lparr>db_seq_orders := b\<rparr>) = items_total ord db"
  "items_total ord (db\<lparr>db_seq_items := c\<rparr>) = items_total ord db"
  "items_total ord (db\<lparr>db_orders := os\<rparr>) = items_total ord db"
  "items_total ord (db\<lparr>db_products := ps\<rparr>) = items_total ord db"
  "items_total ord (db\<lparr>db_customers := cs\<rparr>) = items_total ord db"
  by (simp_all add: items_total_def)

lemma rollback_inv: "store_inv_but X db0 \<Longrightarrow> seqs_le db0 db \<Longrightarrow> store_inv_but X (rollback db0 db)"
  by (auto simp: store_inv_but_def rollback_def seqs_le_def refs_ok_def amounts_ok_def items_total_def intro: keys_ok_mono)

lemma items_total_none: "ord \<notin> i_order ` set (db_items db) \<Longrightarrow> items_total ord db = 0"
proof -
  assume "ord \<notin> i_order ` set (db_items db)"
  then have "filter (\<lambda>x. i_order x = ord) (db_items db) = []" by (auto simp: filter_empty_conv)
  then show ?thesis by (simp add: items_total_def)
qed

section \<open>The statements keep it\<close>

lemma insert_order_inv:
  assumes "store_inv db" "insert_order c db = (r, db')"
  shows "store_inv db' \<and> seqs_le db db'
    \<and> (\<forall>i. r = Inr i \<longrightarrow> i \<notin> o_id ` set (db_orders db)
         \<and> db' = db\<lparr>db_seq_orders := i, db_orders := db_orders db @ [\<lparr>o_id = i, o_customer = c, o_total = 0\<rparr>]\<rparr>)"
proof -
  let ?i = "db_seq_orders db + 1"
  have fresh: "?i \<notin> o_id ` set (db_orders db)"
    using assms(1) by (fastforce simp: store_inv_but_def keys_ok_def)
  have seq: "store_inv (db\<lparr>db_seq_orders := ?i\<rparr>)"
    using assms(1) by (auto simp: store_inv_but_def refs_ok_def amounts_ok_def intro: keys_ok_mono)
  have "?i \<notin> i_order ` set (db_items db)"
    using assms(1) fresh by (auto simp: store_inv_but_def refs_ok_def)
  then have t: "items_total ?i db = 0" by (rule items_total_none)
  have new: "store_inv (db\<lparr>db_seq_orders := ?i, db_orders := db_orders db @ [\<lparr>o_id = ?i, o_customer = c, o_total = 0\<rparr>]\<rparr>)"
    if "c \<in> c_CustomerID ` set (db_customers db)"
    using seq fresh that t by (auto simp: store_inv_but_def refs_ok_def amounts_ok_def)
  show ?thesis
    using assms(2) seq new fresh assms(1)
    by (auto simp: insert_order_def seqs_le_def Let_def split: if_splits)
qed

lemma insert_item_inv:
  assumes "store_inv_but X db" "ord \<in> X" "insert_item F ord pid q sub db = (r, db')"
  shows "store_inv_but X db' \<and> (\<exists>k \<ge> db_seq_items db.
    (r \<noteq> Inr () \<and> db' = db\<lparr>db_seq_items := k\<rparr>) \<or>
    (\<exists>a. r = Inr () \<and> f_to_numeric F sub = Some a \<and> db' = db\<lparr>db_seq_items := k, db_items := db_items db @
       [\<lparr>i_id = k, i_order = ord, i_product = pid, i_quantity = q, i_subtotal = a\<rparr>]\<rparr>))"
proof -
  let ?k = "db_seq_items db + 1"
  have seq: "store_inv_but X (db\<lparr>db_seq_items := ?k\<rparr>)"
    using assms(1) by (auto simp: store_inv_but_def refs_ok_def amounts_ok_def intro: keys_ok_mono)
  have same: "db = db\<lparr>db_seq_items := db_seq_items db\<rparr>" by simp
  have new: "store_inv_but X (db\<lparr>db_seq_items := ?k, db_items := db_items db @
       [\<lparr>i_id = ?k, i_order = ord, i_product = pid, i_quantity = q, i_subtotal = a\<rparr>]\<rparr>)"
    if "0 < q" "0 \<le> a" "?k \<notin> i_id ` set (db_items db)" "(ord, pid) \<notin> (\<lambda>x. (i_order x, i_product x)) ` set (db_items db)"
      "ord \<in> o_id ` set (db_orders db)" "pid \<in> p_id ` set (db_products db)" for a
    using seq that assms(2) unfolding store_inv_but_def refs_ok_def amounts_ok_def
    by (auto simp: items_total_def)
  show ?thesis
  proof (cases "f_to_numeric F sub")
    case None
    with assms(1,3) same show ?thesis by (auto simp: insert_item_def)
  next
    case (Some a)
    show ?thesis
      using assms(3) Some seq new [of a] assms(1) same
      by (auto simp: insert_item_def Let_def not_le not_less split: if_splits intro: exI [of _ ?k])
  qed
qed

lemma update_total_inv:
  assumes "store_inv_but {ord} db" "update_total F ord db = (r, db')"
  shows "(\<forall>x. r = Inr x \<longrightarrow> store_inv db' \<and> x = f_of_numeric F (items_total ord db)
      \<and> db' = db\<lparr>db_orders := map (\<lambda>y. if o_id y = ord then y\<lparr>o_total := items_total ord db\<rparr> else y) (db_orders db)\<rparr>)
    \<and> (\<forall>e. r = Inl e \<longrightarrow> db' = db)"
proof -
  define up :: "order \<Rightarrow> order" where "up = (\<lambda>y. if o_id y = ord then y\<lparr>o_total := items_total ord db\<rparr> else y)"
  have id: "o_id (up y) = o_id y" "o_customer (up y) = o_customer y" for y by (simp_all add: up_def)
  have ids: "map o_id (map up os) = map o_id os" for os by (simp add: id)
  have keys: "keys_ok o_id (map up os) n = keys_ok o_id os n" for os n
    unfolding keys_ok_def ids by (auto simp: id)
  have refs: "refs_ok (db\<lparr>db_orders := map up (db_orders db)\<rparr>) = refs_ok db"
    by (simp add: refs_ok_def image_image id)
  have tot: "o_total (up y) = items_total (o_id y) db" if "y \<in> set (db_orders db)" for y
    using assms(1) that by (auto simp: store_inv_but_def up_def)
  have "store_inv (db\<lparr>db_orders := map up (db_orders db)\<rparr>)"
    using assms(1) unfolding store_inv_but_def refs by (simp add: keys id tot amounts_ok_def)
  with assms(2) show ?thesis by (auto simp: update_total_def up_def [symmetric] Let_def split: if_splits)
qed

lemma distinct_update_one:
  assumes "distinct (map k xs)" "distinct (map f xs)" "\<forall>x \<in> set xs. k x \<noteq> c \<longrightarrow> f x \<noteq> v"
  shows "distinct (map (\<lambda>x. if k x = c then v else f x) xs)"
  using assms by (induction xs) (auto simp: rev_image_eqI)

lemma update_email_inv:
  assumes "store_inv db" "update_email email c db = (r, db')"
  shows "store_inv db' \<and> seqs_le db db' \<and> ((\<forall>n. r \<noteq> Inr (Suc n)) \<longrightarrow> db' = db)
    \<and> (\<forall>n. r = Inr (Suc n) \<longrightarrow> c \<in> c_CustomerID ` set (db_customers db) \<and> (\<exists>v. varchar 255 email = Inr v
         \<and> db' = db\<lparr>db_customers := map (\<lambda>x. if c_CustomerID x = c then x\<lparr>c_Email := v\<rparr> else x) (db_customers db)\<rparr>))"
proof (cases "varchar 255 email")
  case (Inl err)
  with assms show ?thesis by (auto simp: update_email_def seqs_le_def Let_def split: if_splits)
next
  case vc: (Inr v)
  define up :: "CustomerRow \<Rightarrow> CustomerRow" where "up = (\<lambda>x. if c_CustomerID x = c then x\<lparr>c_Email := v\<rparr> else x)"
  have id: "c_CustomerID (up x) = c_CustomerID x" "c_Email (up x) = (if c_CustomerID x = c then v else c_Email x)" for x
    by (simp_all add: up_def)
  have mails: "distinct (map c_Email (map up (db_customers db)))"
    if "\<not> (\<exists>x \<in> set (db_customers db). c_CustomerID x \<noteq> c \<and> c_Email x = v)"
    using distinct_update_one [of c_CustomerID "db_customers db" c_Email c v] assms(1) that
    by (auto simp: store_inv_but_def id comp_def)
  have refs: "refs_ok (db\<lparr>db_customers := map up (db_customers db)\<rparr>) = refs_ok db"
    by (simp add: refs_ok_def image_image id)
  have inv: "store_inv (db\<lparr>db_customers := map up (db_customers db)\<rparr>)"
    if "\<not> (\<exists>x \<in> set (db_customers db). c_CustomerID x \<noteq> c \<and> c_Email x = v)"
    using assms(1) mails [OF that] unfolding store_inv_but_def refs by (simp add: comp_def id amounts_ok_def)
  have hit: "\<exists>m. length (filter (\<lambda>x. c_CustomerID x = c) (db_customers db)) = Suc m"
    if "filter (\<lambda>x. c_CustomerID x = c) (db_customers db) \<noteq> []"
    using that by (cases "filter (\<lambda>x. c_CustomerID x = c) (db_customers db)") auto
  have mem: "c \<in> c_CustomerID ` set (db_customers db)" if "filter (\<lambda>x. c_CustomerID x = c) (db_customers db) \<noteq> []"
    using that by (auto simp: filter_empty_conv)
  show ?thesis
  proof (cases "filter (\<lambda>x. c_CustomerID x = c) (db_customers db) = []")
    case True
    with assms show ?thesis by (auto simp: update_email_def seqs_le_def Let_def)
  next
    case False
    show ?thesis
      using assms(2) False hit [OF False] mem [OF False] inv assms(1) vc
      by (auto simp: update_email_def up_def [symmetric] seqs_le_def Let_def gr0_conv_Suc split: if_splits)
  qed
qed

lemma insert_product_inv:
  assumes "store_inv db" "insert_product F name price db = (r, db')"
  shows "store_inv db' \<and> seqs_le db db' \<and> (\<forall>e. r = Inl e \<longrightarrow> db' = db\<lparr>db_seq_products := db_seq_products db'\<rparr>)
    \<and> (\<forall>i m x. r = Inr (i, m, x) \<longrightarrow> (\<exists>a. f_to_numeric F price = Some a \<and> varchar 200 name = Inr m \<and> x = f_of_numeric F a
         \<and> db' = db\<lparr>db_seq_products := i, db_products := db_products db @ [\<lparr>p_id = i, p_name = m, p_price = a\<rparr>]\<rparr>))"
proof -
  let ?i = "db_seq_products db + 1"
  have seq: "store_inv (db\<lparr>db_seq_products := ?i\<rparr>)"
    using assms(1) by (auto simp: store_inv_but_def refs_ok_def amounts_ok_def intro: keys_ok_mono)
  have new: "store_inv (db\<lparr>db_seq_products := ?i, db_products := db_products db @ [\<lparr>p_id = ?i, p_name = m, p_price = a\<rparr>]\<rparr>)"
    if "0 \<le> a" "numeric_ok a" "?i \<notin> p_id ` set (db_products db)" for a m
    using seq that unfolding store_inv_but_def refs_ok_def amounts_ok_def by (auto simp: items_total_def)
  show ?thesis
  proof (cases "f_to_numeric F price")
    case None
    with assms show ?thesis by (auto simp: insert_product_def seqs_le_def)
  next
    case (Some a)
    then show ?thesis
      using assms seq new [of a] by (auto simp: insert_product_def seqs_le_def Let_def not_le not_less split: if_splits sum.splits)
  qed
qed

section \<open>Transactions keep it\<close>

lemma callE:
  assumes "call V f tx = (r, tx')"
  obtains (net) err where "r = Inl err" "tx_db tx' = tx_db tx"
    | (stmt) db' where "f (tx_db tx) = (r, db')" "tx_db tx' = db'"
  using assms by (auto simp: call_def split: option.splits prod.splits)

lemma call_lock_product:
  "call V (lock_product F i) tx = (Inr price, tx') \<Longrightarrow>
    \<exists>p \<in> set (db_products (tx_db tx)). p_id p = i \<and> price = f_of_numeric F (p_price p)"
  by (erule callE) (auto simp: lock_product_def find_Some_iff split: option.splits)

text \<open>The item that belongs to a line: the product, the quantity, and the rounded product of price and quantity.\<close>

definition line_item :: "'f float_ops \<Rightarrow> database \<Rightarrow> int \<Rightarrow> OrderLineIn \<Rightarrow> order_item \<Rightarrow> bool" where
  "line_item F db ord l x \<longleftrightarrow> i_order x = ord \<and> i_product x = l_ProductID l \<and> i_quantity x = l_Quantity l
     \<and> (\<exists>p \<in> set (db_products db). p_id p = l_ProductID l \<and>
          f_to_numeric F (f_mult F (f_of_numeric F (p_price p)) (f_of_int F (l_Quantity l))) = Some (i_subtotal x))"

lemma line_item_products: "db_products db' = db_products db \<Longrightarrow> line_item F db' = line_item F db"
  by (simp add: fun_eq_iff line_item_def)

text \<open>A line changes nothing but a sequence, or appends its item.\<close>

lemma order_line_inv:
  assumes "store_inv_but {ord} (tx_db tx)" "order_line F V ord l tx = (r, tx')"
  shows "store_inv_but {ord} (tx_db tx') \<and> (\<exists>k \<ge> db_seq_items (tx_db tx).
    (r \<noteq> Inr () \<and> tx_db tx' = (tx_db tx)\<lparr>db_seq_items := k\<rparr>) \<or>
    (\<exists>x. r = Inr () \<and> line_item F (tx_db tx) ord l x \<and>
       tx_db tx' = (tx_db tx)\<lparr>db_seq_items := k, db_items := db_items (tx_db tx) @ [x]\<rparr>))"
proof -
  obtain r1 tx1 where c1: "call V (lock_product F (l_ProductID l)) tx = (r1, tx1)" by fastforce
  have db1: "tx_db tx1 = tx_db tx"
    using c1 by (cases rule: callE) (auto simp: lock_product_def split: option.splits)
  show ?thesis
  proof (cases "0 < l_Quantity l \<and> (\<exists>price. r1 = Inr price)")
    case False
    then have "r \<noteq> Inr () \<and> tx_db tx' = tx_db tx"
      using assms(2) c1 db1 by (auto simp: order_line_def split: if_splits sum.splits)
    with assms(1) show ?thesis by (auto intro: exI [of _ "db_seq_items (tx_db tx)"])
  next
    case True
    then obtain price where r1: "r1 = Inr price" and q: "0 < l_Quantity l" by blast
    obtain p where p: "p \<in> set (db_products (tx_db tx))" "p_id p = l_ProductID l" "price = f_of_numeric F (p_price p)"
      using call_lock_product [OF c1 [unfolded r1]] by blast
    let ?sub = "f_mult F price (f_of_int F (l_Quantity l))"
    obtain r2 tx2 where c2: "call V (insert_item F ord (l_ProductID l) (l_Quantity l) ?sub) tx1 = (r2, tx2)" by fastforce
    have res: "tx' = tx2" "r = Inr () \<longleftrightarrow> r2 = Inr ()"
      using assms(2) c1 r1 q c2 by (auto simp: order_line_def split: sum.splits)
    show ?thesis
      using c2
    proof (cases rule: callE)
      case (net err)
      with assms(1) db1 res show ?thesis by (auto intro: exI [of _ "db_seq_items (tx_db tx)"])
    next
      case (stmt db')
      have "store_inv_but {ord} (tx_db tx')" and "\<exists>k \<ge> db_seq_items (tx_db tx).
          (r2 \<noteq> Inr () \<and> tx_db tx' = (tx_db tx)\<lparr>db_seq_items := k\<rparr>) \<or>
          (\<exists>a. r2 = Inr () \<and> f_to_numeric F ?sub = Some a \<and> tx_db tx' = (tx_db tx)\<lparr>db_seq_items := k, db_items := db_items (tx_db tx) @
             [\<lparr>i_id = k, i_order = ord, i_product = l_ProductID l, i_quantity = l_Quantity l, i_subtotal = a\<rparr>]\<rparr>)"
        using insert_item_inv [OF assms(1) singletonI stmt(1) [unfolded db1]] stmt(2) res(1) by simp_all
      moreover have "line_item F (tx_db tx) ord l \<lparr>i_id = k, i_order = ord, i_product = l_ProductID l, i_quantity = l_Quantity l, i_subtotal = a\<rparr>"
        if "f_to_numeric F ?sub = Some a" for k a
        using that p by (auto simp: line_item_def)
      ultimately show ?thesis using res(2) by blast
    qed
  qed
qed

text \<open>
  The loop over the lines only appends items of its order, one for each line that it got through.
\<close>

lemma order_lines_inv:
  "store_inv_but {ord} (tx_db tx) \<Longrightarrow> order_lines F V ord lines tx = (r, tx') \<Longrightarrow>
   store_inv_but {ord} (tx_db tx') \<and> (\<exists>new k. db_seq_items (tx_db tx) \<le> k
     \<and> tx_db tx' = (tx_db tx)\<lparr>db_seq_items := k, db_items := db_items (tx_db tx) @ new\<rparr>
     \<and> (r = Inr () \<longrightarrow> list_all2 (line_item F (tx_db tx) ord) lines new))"
proof (induction lines arbitrary: tx)
  case Nil
  then show ?case by (auto intro!: exI [of _ "[]"] exI [of _ "db_seq_items (tx_db tx)"])
next
  case (Cons l lines)
  obtain r1 tx1 where c1: "order_line F V ord l tx = (r1, tx1)" by fastforce
  from order_line_inv [OF Cons.prems(1) c1] obtain k where inv: "store_inv_but {ord} (tx_db tx1)" and k: "db_seq_items (tx_db tx) \<le> k"
    and eff: "(r1 \<noteq> Inr () \<and> tx_db tx1 = (tx_db tx)\<lparr>db_seq_items := k\<rparr>) \<or>
      (\<exists>x. r1 = Inr () \<and> line_item F (tx_db tx) ord l x \<and> tx_db tx1 = (tx_db tx)\<lparr>db_seq_items := k, db_items := db_items (tx_db tx) @ [x]\<rparr>)"
    by blast
  show ?case
  proof (cases "r1 = Inr ()")
    case False
    then have "r \<noteq> Inr ()" "tx' = tx1" using Cons.prems(2) c1 by (auto split: sum.splits)
    with eff False inv k show ?thesis by (auto intro!: exI [of _ "[]"])
  next
    case True
    with eff obtain x where x: "line_item F (tx_db tx) ord l x" "tx_db tx1 = (tx_db tx)\<lparr>db_seq_items := k, db_items := db_items (tx_db tx) @ [x]\<rparr>"
      by blast
    have "order_lines F V ord lines tx1 = (r, tx')" using Cons.prems(2) c1 True by simp
    from Cons.IH [OF inv this] obtain new k' where n: "store_inv_but {ord} (tx_db tx')" "k \<le> k'"
      "tx_db tx' = (tx_db tx1)\<lparr>db_seq_items := k', db_items := db_items (tx_db tx1) @ new\<rparr>"
      "r = Inr () \<longrightarrow> list_all2 (line_item F (tx_db tx) ord) lines new"
      using line_item_products [of "tx_db tx1" "tx_db tx" F] x(2) by auto
    show ?thesis using n k x by (intro conjI exI [of _ "x # new"] exI [of _ k']) auto
  qed
qed

lemma line_items_order: "list_all2 (line_item F db ord) lines new \<Longrightarrow> \<forall>x \<in> set new. i_order x = ord"
  by (induction rule: list_all2_induct) (auto simp: line_item_def)

text \<open>The tables with an order under way: its row, without a total yet, and its items so far.\<close>

definition with_order :: "int \<Rightarrow> int \<Rightarrow> int \<Rightarrow> order_item list \<Rightarrow> int \<Rightarrow> database \<Rightarrow> database" where
  "with_order ord customer t new k db =
     db\<lparr>db_seq_orders := ord, db_seq_items := k, db_items := db_items db @ new,
        db_orders := db_orders db @ [\<lparr>o_id = ord, o_customer = customer, o_total = t\<rparr>]\<rparr>"

lemma with_order_simps [simp]:
  "db_products (with_order ord customer t new k db) = db_products db"
  "db_seq_items (with_order ord customer t new k db) = k"
  by (simp_all add: with_order_def)

lemma with_order_items:
  "(with_order ord customer t old j db)\<lparr>db_seq_items := k, db_items := db_items (with_order ord customer t old j db) @ new\<rparr>
   = with_order ord customer t (old @ new) k db"
  by (simp add: with_order_def)

lemma items_total_with_order:
  assumes "ord \<notin> i_order ` set (db_items db)" "\<forall>x \<in> set new. i_order x = ord"
  shows "items_total ord (with_order ord customer t new k db) = sum_list (map i_subtotal new)"
proof -
  have "filter (\<lambda>x. i_order x = ord) (db_items db) = []" using assms(1) by (auto simp: filter_empty_conv)
  moreover have "filter (\<lambda>x. i_order x = ord) new = new" using assms(2) by (simp add: filter_id_conv)
  ultimately show ?thesis by (simp add: items_total_def with_order_def)
qed

lemma update_total_with_order:
  assumes "ord \<notin> o_id ` set (db_orders db)" "ord \<notin> i_order ` set (db_items db)" "\<forall>x \<in> set new. i_order x = ord"
    and "store_inv_but {ord} (with_order ord customer t new k db)"
    and "update_total F ord (with_order ord customer t new k db) = (r, db')"
  shows "seqs_le (with_order ord customer t new k db) db' \<and>
    (\<forall>y. r = Inr y \<longrightarrow> store_inv db' \<and> y = f_of_numeric F (sum_list (map i_subtotal new))
       \<and> db' = with_order ord customer (sum_list (map i_subtotal new)) new k db)"
proof -
  have others: "(if o_id y = ord then y\<lparr>o_total := z\<rparr> else y) = y" if "y \<in> set (db_orders db)" for y z
    using assms(1) that by auto
  have tot: "items_total ord (with_order ord customer t new k db) = sum_list (map i_subtotal new)"
    by (rule items_total_with_order [OF assms(2,3)])
  have upd: "(with_order ord customer t new k db)\<lparr>db_orders := map (\<lambda>y. if o_id y = ord then y\<lparr>o_total := z\<rparr> else y)
      (db_orders (with_order ord customer t new k db))\<rparr> = with_order ord customer z new k db" for z
    using others by (simp add: with_order_def cong: map_cong)
  have le: "seqs_le (with_order ord customer t new k db) (with_order ord customer z new k db)" for z
    by (simp add: seqs_le_def with_order_def)
  from update_total_inv [OF assms(4,5), unfolded tot upd] le show ?thesis by (cases r) (auto simp: seqs_le_def)
qed

text \<open>What a placed order adds to the tables.\<close>

definition ordered :: "'f float_ops \<Rightarrow> int \<Rightarrow> OrderLineIn list \<Rightarrow> database \<Rightarrow> 'f PlaceOrderResult \<Rightarrow> database \<Rightarrow> bool" where
  "ordered F customer lines db x db' \<longleftrightarrow> (\<exists>new k.
     list_all2 (line_item F db (r_OrderID x)) lines new
   \<and> db' = with_order (r_OrderID x) customer (sum_list (map i_subtotal new)) new k db
   \<and> r_CustomerID x = customer \<and> r_TotalAmount x = f_of_numeric F (sum_list (map i_subtotal new)))"

lemma call_insert_order:
  assumes "store_inv (tx_db tx)" "call V (insert_order customer) tx = (r, tx')"
  shows "store_inv (tx_db tx') \<and> seqs_le (tx_db tx) (tx_db tx') \<and> (\<forall>i. r = Inr i \<longrightarrow>
     i \<notin> o_id ` set (db_orders (tx_db tx)) \<and> i \<notin> i_order ` set (db_items (tx_db tx))
   \<and> tx_db tx' = with_order i customer 0 [] (db_seq_items (tx_db tx)) (tx_db tx))"
  using assms(2)
proof (cases rule: callE)
  case (net err)
  with assms(1) show ?thesis by (simp add: seqs_le_def)
next
  case (stmt db')
  have "i \<notin> i_order ` set (db_items (tx_db tx))" if "i \<notin> o_id ` set (db_orders (tx_db tx))" for i
    using assms(1) that by (auto simp: store_inv_but_def refs_ok_def)
  with insert_order_inv [OF assms(1) stmt(1)] stmt(2) show ?thesis by (auto simp: with_order_def)
qed

lemma place_order_tx_effect:
  assumes "store_inv (tx_db tx)" "place_order_tx F V customer lines tx = (r, tx')"
  shows "seqs_le (tx_db tx) (tx_db tx') \<and> (\<forall>x. r = Inr x \<longrightarrow> store_inv (tx_db tx') \<and> ordered F customer lines (tx_db tx) x (tx_db tx'))"
proof -
  let ?db = "tx_db tx"
  obtain r1 tx1 where c1: "call V (insert_order customer) tx = (r1, tx1)" by fastforce
  note one = call_insert_order [OF assms(1) c1]
  show ?thesis
  proof (cases r1)
    case (Inl err)
    with assms(2) c1 one show ?thesis by (auto simp: place_order_tx_def)
  next
    case (Inr ord)
    have fresh: "ord \<notin> o_id ` set (db_orders ?db)" "ord \<notin> i_order ` set (db_items ?db)"
      and db1: "tx_db tx1 = with_order ord customer 0 [] (db_seq_items ?db) ?db" and inv1: "store_inv_but {ord} (tx_db tx1)"
      using one Inr store_inv_but_mono [of "{}" "tx_db tx1" "{ord}"] by auto
    obtain r2 tx2 where l: "order_lines F V ord lines tx1 = (r2, tx2)" by fastforce
    have same: "line_item F (with_order ord customer 0 [] j ?db) = line_item F ?db" for j by (rule line_item_products) simp
    from order_lines_inv [OF inv1 l, unfolded db1 with_order_items same with_order_simps]
    obtain new k where n: "store_inv_but {ord} (tx_db tx2)" "db_seq_items ?db \<le> k" "tx_db tx2 = with_order ord customer 0 new k ?db"
      "r2 = Inr () \<longrightarrow> list_all2 (line_item F ?db ord) lines new"
      by auto
    have le2: "seqs_le ?db (tx_db tx2)" using conjunct1 [OF conjunct2 [OF one]] n(2,3) by (simp add: seqs_le_def db1 with_order_def)
    show ?thesis
    proof (cases "r2 = Inr ()")
      case False
      with assms(2) c1 Inr l le2 show ?thesis by (auto simp: place_order_tx_def split: sum.splits)
    next
      case True
      then have items: "list_all2 (line_item F ?db ord) lines new" using n(4) by simp
      obtain r3 tx3 where u: "call V (update_total F ord) tx2 = (r3, tx3)" by fastforce
      have r: "r = (case r3 of Inl err \<Rightarrow> Inl (wrapf_error ''update order total: %w'' [] err)
          | Inr y \<Rightarrow> Inr \<lparr>r_OrderID = ord, r_TotalAmount = y, r_CustomerID = customer\<rparr>)" "tx' = tx3"
        using assms(2) c1 Inr l True u by (auto simp: place_order_tx_def split: sum.splits)
      show ?thesis
        using u
      proof (cases rule: callE)
        case (net err)
        with r le2 show ?thesis by simp
      next
        case (stmt db')
        from update_total_with_order [OF fresh line_items_order [OF items] n(1) [unfolded n(3)] stmt(1) [unfolded n(3)]]
        show ?thesis using r le2 stmt(2) items by (cases r3) (auto simp: ordered_def n(3) seqs_le_def intro!: exI [of _ new] exI [of _ k])
      qed
    qed
  qed
qed

section \<open>The contract of a transaction\<close>

lemma seqs_le_refl [simp]: "seqs_le db db"
  by (simp add: seqs_le_def)

text \<open>
  A body that never lowers a sequence, and that takes consistent tables to consistent ones with the effect
  \<open>post\<close> whenever it succeeds, is all or nothing as a transaction.
\<close>

locale transaction =
  fixes body :: "txn \<Rightarrow> 'a res \<times> txn"
    and post :: "database \<Rightarrow> 'a \<Rightarrow> database \<Rightarrow> bool"
  assumes body_effect: "store_inv (tx_db tx) \<Longrightarrow> body tx = (r, tx') \<Longrightarrow>
    seqs_le (tx_db tx) (tx_db tx') \<and> (\<forall>x. r = Inr x \<longrightarrow> store_inv (tx_db tx') \<and> post (tx_db tx) x (tx_db tx'))"
begin

lemma atomic:
  assumes "store_inv db" "begin_tx V db body = (r, db')"
  shows "store_inv db' \<and> (\<forall>x. r = Inr x \<longrightarrow> post db x db')
    \<and> (\<forall>e. r = Inl e \<longrightarrow> db' = rollback db db' \<or> e_commit V = AnswerLost e \<and> (\<exists>x. post db x db'))"
proof (cases "e_net V 0")
  case (Some err)
  with assms show ?thesis by (auto simp: begin_tx_def rollback_def)
next
  case None
  obtain r1 tx1 where b: "body \<lparr>tx_db = db, tx_calls = 1\<rparr> = (r1, tx1)" by fastforce
  note eff = body_effect [OF _ b, simplified, OF assms(1)]
  have undone: "store_inv (rollback db (tx_db tx1))" using eff assms(1) rollback_inv by blast
  have idem: "rollback db (rollback db d) = rollback db d" for d by (simp add: rollback_def)
  show ?thesis
    using assms(2) None b eff undone
    by (cases r1; cases "e_commit V") (auto simp: begin_tx_def finish_def idem)
qed

end

interpretation placing: transaction "place_order_tx F V customer lines" "ordered F customer lines" for F V customer lines
  by unfold_locales (rule place_order_tx_effect)

definition email_tx :: "environment \<Rightarrow> int \<Rightarrow> string \<Rightarrow> txn \<Rightarrow> unit res \<times> txn" where
  "email_tx V customer email tx =
     (case call V (update_email email customer) tx of
        (Inl err, tx) \<Rightarrow> (Inl (wrapf_error ''update email: %w'' [] err), tx)
      | (Inr n, tx) \<Rightarrow> if n = 0 then (Inl (Err ''customer not found''), tx) else (Inr (), tx))"

definition product_tx :: "'f float_ops \<Rightarrow> environment \<Rightarrow> 'f NewProduct \<Rightarrow> txn \<Rightarrow> 'f ProductCreated res \<times> txn" where
  "product_tx F V p tx =
     (case call V (insert_product F (n_Name p) (n_Price p)) tx of
        (Inl err, tx) \<Rightarrow> (Inl (wrapf_error ''insert product: %w'' [] err), tx)
      | (Inr (i, name, price), tx) \<Rightarrow> (Inr \<lparr>pc_ProductID = i, pc_Name = name, pc_Price = price\<rparr>, tx))"

lemma UpdateCustomerEmail_tx: "UpdateCustomerEmail V customer email db = begin_tx V db (email_tx V customer email)"
  by (simp add: UpdateCustomerEmail_def email_tx_def [abs_def])

lemma CreateProduct_tx:
  "CreateProduct F V p db =
     (if f_negative F (n_Price p) then (Inl (Err ''price must be non-negative''), db) else begin_tx V db (product_tx F V p))"
  by (simp add: CreateProduct_def product_tx_def [abs_def])

definition email_set :: "int \<Rightarrow> string \<Rightarrow> database \<Rightarrow> unit \<Rightarrow> database \<Rightarrow> bool" where
  "email_set customer email db x db' \<longleftrightarrow> customer \<in> c_CustomerID ` set (db_customers db)
     \<and> (\<exists>v. varchar 255 email = Inr v
        \<and> db' = db\<lparr>db_customers := map (\<lambda>c. if c_CustomerID c = customer then c\<lparr>c_Email := v\<rparr> else c) (db_customers db)\<rparr>)"

definition product_added :: "'f float_ops \<Rightarrow> 'f NewProduct \<Rightarrow> database \<Rightarrow> 'f ProductCreated \<Rightarrow> database \<Rightarrow> bool" where
  "product_added F p db x db' \<longleftrightarrow> (\<exists>a. f_to_numeric F (n_Price p) = Some a \<and> varchar 200 (n_Name p) = Inr (pc_Name x)
     \<and> pc_Price x = f_of_numeric F a
     \<and> db' = db\<lparr>db_seq_products := pc_ProductID x,
         db_products := db_products db @ [\<lparr>p_id = pc_ProductID x, p_name = pc_Name x, p_price = a\<rparr>]\<rparr>)"

interpretation addressing: transaction "email_tx V customer email" "email_set customer email" for V customer email
proof unfold_locales
  fix tx r tx'
  assume inv: "store_inv (tx_db tx)" and b: "email_tx V customer email tx = (r, tx')"
  obtain r1 tx1 where c: "call V (update_email email customer) tx = (r1, tx1)" by fastforce
  have t: "tx' = tx1" "r = Inr () \<longleftrightarrow> (\<exists>n. r1 = Inr (Suc n))"
    using b c by (auto simp: email_tx_def gr0_conv_Suc split: sum.splits if_splits)
  have "seqs_le (tx_db tx) (tx_db tx1) \<and> (\<forall>n. r1 = Inr (Suc n) \<longrightarrow> store_inv (tx_db tx1) \<and> email_set customer email (tx_db tx) () (tx_db tx1))"
    using c
  proof (cases rule: callE)
    case (stmt db')
    from update_email_inv [OF inv stmt(1)] stmt(2) show ?thesis by (auto simp: email_set_def)
  qed simp
  with t show "seqs_le (tx_db tx) (tx_db tx') \<and>
      (\<forall>x. r = Inr x \<longrightarrow> store_inv (tx_db tx') \<and> email_set customer email (tx_db tx) x (tx_db tx'))" by auto
qed

interpretation adding: transaction "product_tx F V p" "product_added F p" for F V p
proof unfold_locales
  fix tx r tx'
  assume inv: "store_inv (tx_db tx)" and b: "product_tx F V p tx = (r, tx')"
  obtain r1 tx1 where c: "call V (insert_product F (n_Name p) (n_Price p)) tx = (r1, tx1)" by fastforce
  show "seqs_le (tx_db tx) (tx_db tx') \<and> (\<forall>x. r = Inr x \<longrightarrow> store_inv (tx_db tx') \<and> product_added F p (tx_db tx) x (tx_db tx'))"
    using c
  proof (cases rule: callE)
    case (net err)
    with b c show ?thesis by (auto simp: product_tx_def)
  next
    case (stmt db')
    from insert_product_inv [OF inv stmt(1)] stmt(2) b c show ?thesis
      by (cases r1) (auto simp: product_tx_def product_added_def)
  qed
qed

section \<open>The service as a whole\<close>

text \<open>
  The tables after the migration; names are given by their UTF-8 bytes.
\<close>

definition initial_db :: database where
  "initial_db = \<lparr>
     db_customers =
       [\<lparr>c_CustomerID = 1, c_FirstName = string_of [0xD0, 0x98, 0xD0, 0xB2, 0xD0, 0xB0, 0xD0, 0xBD],
         c_LastName = string_of [0xD0, 0x98, 0xD0, 0xB2, 0xD0, 0xB0, 0xD0, 0xBD, 0xD0, 0xBE, 0xD0, 0xB2],
         c_Email = ''ivan@example.com''\<rparr>,
        \<lparr>c_CustomerID = 2, c_FirstName = string_of [0xD0, 0x9C, 0xD0, 0xB0, 0xD1, 0x80, 0xD0, 0xB8, 0xD1, 0x8F],
         c_LastName = string_of [0xD0, 0x9F, 0xD0, 0xB5, 0xD1, 0x82, 0xD1, 0x80, 0xD0, 0xBE, 0xD0, 0xB2, 0xD0, 0xB0],
         c_Email = ''maria@example.com''\<rparr>],
     db_products =
       [\<lparr>p_id = 1, p_name = string_of [0xD0, 0x9D, 0xD0, 0xBE, 0xD1, 0x83, 0xD1, 0x82, 0xD0, 0xB1, 0xD1, 0x83, 0xD0, 0xBA],
         p_price = 8999900\<rparr>,
        \<lparr>p_id = 2, p_name = string_of [0xD0, 0x9C, 0xD1, 0x8B, 0xD1, 0x88, 0xD1, 0x8C], p_price = 150050\<rparr>,
        \<lparr>p_id = 3, p_name = string_of [0xD0, 0x9A, 0xD0, 0xBB, 0xD0, 0xB0, 0xD0, 0xB2, 0xD0, 0xB8, 0xD0, 0xB0, 0xD1, 0x82,
             0xD1, 0x83, 0xD1, 0x80, 0xD0, 0xB0], p_price = 350000\<rparr>],
     db_orders = [], db_items = [], db_seq_products = 3, db_seq_orders = 0, db_seq_items = 0\<rparr>"

text \<open>The routes under \<^verbatim>\<open>/api/v1\<close>, each with what the parser made of the body and what the database does.\<close>

datatype 'f shop_request =
    PostOrders environment "placeOrderReq res"
  | PatchEmail environment string "string res"
  | PostProducts environment "'f NewProduct res"
  | GetCustomers environment
  | GetProducts environment

fun shop_serve :: "'f float_ops \<Rightarrow> 'f shop_request \<Rightarrow> database \<Rightarrow> 'f reply \<times> database" where
  "shop_serve F (PostOrders V body) db = PlaceOrder_handler F V body db"
| "shop_serve F (PatchEmail V param body) db = UpdateCustomerEmail_handler V param body db"
| "shop_serve F (PostProducts V body) db = CreateProduct_handler F V body db"
| "shop_serve F (GetCustomers V) db = (ListCustomers V db, db)"
| "shop_serve F (GetProducts V) db = (ListProducts F V db, db)"

lemma PlaceOrder_inv: "store_inv db \<Longrightarrow> store_inv (snd (PlaceOrder F V c lines db))"
  using placing.atomic [of db V F V c lines] by (auto simp: PlaceOrder_def) (metis prod.collapse)

lemma UpdateCustomerEmail_inv: "store_inv db \<Longrightarrow> store_inv (snd (UpdateCustomerEmail V c email db))"
  using addressing.atomic [of db V V c email] by (simp add: UpdateCustomerEmail_tx) (metis prod.collapse)

lemma CreateProduct_inv: "store_inv db \<Longrightarrow> store_inv (snd (CreateProduct F V p db))"
  using adding.atomic [of db V F V p] by (auto simp: CreateProduct_tx) (metis prod.collapse)

lemma shop_serve_inv: "store_inv db \<Longrightarrow> store_inv (snd (shop_serve F rq db))"
proof (cases rq)
  case (PostOrders V body)
  assume "store_inv db"
  then show ?thesis
    using PostOrders PlaceOrder_inv [of db F V]
    by (auto simp: PlaceOrder_handler_def split: sum.splits prod.splits) (metis snd_conv)+
next
  case (PatchEmail V param body)
  assume "store_inv db"
  then show ?thesis
    using PatchEmail UpdateCustomerEmail_inv [of db V]
    by (auto simp: UpdateCustomerEmail_handler_def split: sum.splits prod.splits option.splits) (metis snd_conv)+
next
  case (PostProducts V body)
  assume "store_inv db"
  then show ?thesis
    using PostProducts CreateProduct_inv [of db F V]
    by (auto simp: CreateProduct_handler_def split: sum.splits prod.splits) (metis snd_conv)+
qed simp_all

lemma initial_db_inv: "store_inv initial_db"
  by (simp add: store_inv_but_def initial_db_def keys_ok_def refs_ok_def amounts_ok_def numeric_ok_def)

section \<open>Properties\<close>

text \<open>
  The tables of the shop stay consistent. Whatever requests are served in whatever order from the migration on, with
  any failures of the network and of commits and any float arithmetic: keys stay unique and below their sequences,
  every order is of a customer, every item of an order and of a product, no order has a product twice, no two
  customers share an address, no amount is negative, and the total of each order is the sum of its items.
\<close>

theorem shop_tables_consistent: "store_inv (fold (\<lambda>rq db. snd (shop_serve F rq db)) rqs initial_db)"
proof -
  have "store_inv db \<Longrightarrow> store_inv (fold (\<lambda>rq db. snd (shop_serve F rq db)) rqs db)" for db
    by (induction rqs arbitrary: db) (simp_all add: shop_serve_inv)
  then show ?thesis using initial_db_inv .
qed

lemma PlaceOrder_atomic:
  assumes "store_inv db" "PlaceOrder F V customer lines db = (r, db')"
  shows "(\<forall>x. r = Inr x \<longrightarrow> ordered F customer lines db x db')
    \<and> (\<forall>e. r = Inl e \<longrightarrow> db' = rollback db db' \<or> e_commit V = AnswerLost e \<and> (\<exists>x. ordered F customer lines db x db'))"
proof (cases "lines = []")
  case True
  with assms(2) show ?thesis by (auto simp: PlaceOrder_def rollback_def)
next
  case False
  with assms placing.atomic [of db V F V customer lines r db'] show ?thesis by (simp add: PlaceOrder_def)
qed

text \<open>
  C18 (an order is placed wholly or not at all). A reported success means that the tables grew by the order of that customer
  and by one item for each line, in the order of the lines, with its quantity and the rounded product of quantity
  and price, and that the reported total is the sum of these. A reported error means that the tables are as before, up
  to the numbers drawn from sequences, except when the answer to the commit was lost: then the whole order is there.
\<close>

theorem order_all_or_nothing:
  assumes "store_inv db" "PlaceOrder F V customer lines db = (r, db')"
  shows "case r of
      Inr x \<Rightarrow> ordered F customer lines db x db'
    | Inl e \<Rightarrow> db' = rollback db db' \<or> e_commit V = AnswerLost e \<and> (\<exists>x. ordered F customer lines db x db')"
  using PlaceOrder_atomic [OF assms] by (cases r) simp_all

definition cents :: "int float_ops" where
  "cents = \<lparr>f_of_numeric = (\<lambda>a. a), f_of_int = (\<lambda>n. n), f_mult = (*), f_negative = (\<lambda>a. a < 0), f_to_numeric = Some\<rparr>"

definition two_mice :: "OrderLineIn list" where
  "two_mice = [\<lparr>l_ProductID = 2, l_Quantity = 2\<rparr>]"

definition quiet_network :: "commit \<Rightarrow> environment" where
  "quiet_network c = \<lparr>e_net = (\<lambda>k. None), e_commit = c\<rparr>"

lemma quiet_network_simps [simp]:
  "e_net (quiet_network c) k = None" "e_commit (quiet_network c) = c" "two_mice \<noteq> []"
  by (simp_all add: quiet_network_def two_mice_def)

lemma two_mice_tx:
  "place_order_tx cents (quiet_network c) 1 two_mice \<lparr>tx_db = initial_db, tx_calls = 1\<rparr> =
     (Inr \<lparr>r_OrderID = 1, r_TotalAmount = 300100, r_CustomerID = 1\<rparr>,
      \<lparr>tx_db = initial_db\<lparr>db_seq_orders := 1, db_seq_items := 1,
         db_orders := [\<lparr>o_id = 1, o_customer = 1, o_total = 300100\<rparr>],
         db_items := [\<lparr>i_id = 1, i_order = 1, i_product = 2, i_quantity = 2, i_subtotal = 300100\<rparr>]\<rparr>, tx_calls = 5\<rparr>)"
  by (simp add: place_order_tx_def order_line_def call_def insert_order_def lock_product_def insert_item_def update_total_def items_total_def
      cents_def two_mice_def quiet_network_def initial_db_def max_serial_def numeric_ok_def)

theorem order_all_or_nothing_witness:
  "\<exists>db'. PlaceOrder cents (quiet_network (AnswerLost (Err ''conn closed''))) 1 two_mice initial_db = (Inl (Err ''conn closed''), db')
     \<and> db' \<noteq> rollback initial_db db' \<and> (\<exists>x. ordered cents 1 two_mice initial_db x db')"
proof -
  let ?V = "quiet_network (AnswerLost (Err ''conn closed''))"
  let ?db = "initial_db\<lparr>db_seq_orders := 1, db_seq_items := 1,
         db_orders := [\<lparr>o_id = 1, o_customer = 1, o_total = 300100\<rparr>],
         db_items := [\<lparr>i_id = 1, i_order = 1, i_product = 2, i_quantity = 2, i_subtotal = 300100\<rparr>]\<rparr>"
  have run: "PlaceOrder cents ?V 1 two_mice initial_db = (Inl (Err ''conn closed''), ?db)"
    by (simp add: PlaceOrder_def begin_tx_def finish_def two_mice_tx [unfolded One_nat_def])
  have "?db \<noteq> rollback initial_db ?db" by (simp add: rollback_def initial_db_def)
  with order_all_or_nothing [OF initial_db_inv run] run show ?thesis by auto
qed

lemma ordered_products:
  assumes "ordered F customer lines db x db'"
  shows "\<exists>old. map (\<lambda>i. (i_order i, i_product i)) (db_items db') = old @ map (\<lambda>l. (r_OrderID x, l_ProductID l)) lines"
proof -
  from assms obtain new k where n: "list_all2 (line_item F db (r_OrderID x)) lines new" and "db_items db' = db_items db @ new"
    by (auto simp: ordered_def with_order_def)
  moreover from n have "map (\<lambda>i. (i_order i, i_product i)) new = map (\<lambda>l. (r_OrderID x, l_ProductID l)) lines"
    by (induction rule: list_all2_induct) (simp_all add: line_item_def)
  ultimately show ?thesis by simp
qed

lemma ordered_distinct:
  assumes "ordered F customer lines db x db'" "store_inv db'"
  shows "distinct (map l_ProductID lines)"
proof -
  from ordered_products [OF assms(1)] assms(2) have "distinct (map (\<lambda>l. (r_OrderID x, l_ProductID l)) lines)"
    by (auto simp: store_inv_but_def)
  then show ?thesis by (simp add: distinct_map inj_on_def)
qed

text \<open>
  A product may stand in one line only. An order with two lines for the same product is refused, whatever the
  quantities.
\<close>

theorem repeated_product_refused:
  assumes "store_inv db" "\<not> distinct (map l_ProductID lines)"
  shows "\<exists>e. fst (PlaceOrder F V customer lines db) = Inl e"
proof -
  obtain r db' where p: "PlaceOrder F V customer lines db = (r, db')" by fastforce
  have "store_inv db'" using PlaceOrder_inv [OF assms(1), of F V customer lines] p by simp
  with PlaceOrder_atomic [OF assms(1) p] assms(2) ordered_distinct p show ?thesis by (cases r) fastforce+
qed

theorem repeated_product_refused_witness:
  "\<exists>e. fst (PlaceOrder cents (quiet_network CommitOk) 1 (two_mice @ two_mice) initial_db) = Inl e"
  by (rule repeated_product_refused [OF initial_db_inv]) (simp add: two_mice_def)

text \<open>What a line costs, and when nothing stands in the way of an order.\<close>

definition line_amount :: "'f float_ops \<Rightarrow> database \<Rightarrow> OrderLineIn \<Rightarrow> int option" where
  "line_amount F db l =
     (case find (\<lambda>p. p_id p = l_ProductID l) (db_products db) of
        None \<Rightarrow> None
      | Some p \<Rightarrow> f_to_numeric F (f_mult F (f_of_numeric F (p_price p)) (f_of_int F (l_Quantity l))))"

definition line_ok :: "'f float_ops \<Rightarrow> database \<Rightarrow> OrderLineIn \<Rightarrow> bool" where
  "line_ok F db l \<longleftrightarrow> 0 < l_Quantity l \<and> (case line_amount F db l of None \<Rightarrow> False | Some a \<Rightarrow> 0 \<le> a \<and> numeric_ok a)"

definition order_amount :: "'f float_ops \<Rightarrow> database \<Rightarrow> OrderLineIn list \<Rightarrow> int" where
  "order_amount F db lines = sum_list (map (\<lambda>l. the (line_amount F db l)) lines)"

lemma find_SomeD: "find P xs = Some x \<Longrightarrow> x \<in> set xs \<and> P x"
  by (induction xs) (auto split: if_splits)

lemma find_key: "distinct (map f xs) \<Longrightarrow> x \<in> set xs \<Longrightarrow> find (\<lambda>y. f y = f x) xs = Some x"
  by (induction xs) (auto simp: image_iff)

lemma order_lines_succeeds:
  assumes "\<forall>k. e_net V k = None"
  shows "store_inv_but {ord} (tx_db tx) \<Longrightarrow> ord \<in> o_id ` set (db_orders (tx_db tx)) \<Longrightarrow> distinct (map l_ProductID lines) \<Longrightarrow>
    \<forall>l \<in> set lines. (ord, l_ProductID l) \<notin> (\<lambda>x. (i_order x, i_product x)) ` set (db_items (tx_db tx)) \<Longrightarrow>
    \<forall>l \<in> set lines. line_ok F (tx_db tx) l \<Longrightarrow> db_seq_items (tx_db tx) + int (length lines) \<le> max_serial \<Longrightarrow>
    fst (order_lines F V ord lines tx) = Inr ()"
proof (induction lines arbitrary: tx)
  case (Cons l lines)
  define db where "db = tx_db tx"
  define k where "k = db_seq_items db + 1"
  from Cons.prems(5) obtain p a where p: "find (\<lambda>p. p_id p = l_ProductID l) (db_products db) = Some p" "0 < l_Quantity l"
      "f_to_numeric F (f_mult F (f_of_numeric F (p_price p)) (f_of_int F (l_Quantity l))) = Some a" "0 \<le> a" "numeric_ok a"
    by (auto simp: line_ok_def line_amount_def db_def split: option.splits)
  let ?tx1 = "\<lparr>tx_db = db, tx_calls = Suc (tx_calls tx)\<rparr>"
  let ?db2 = "db\<lparr>db_seq_items := k, db_items := db_items db @
     [\<lparr>i_id = k, i_order = ord, i_product = l_ProductID l, i_quantity = l_Quantity l, i_subtotal = a\<rparr>]\<rparr>"
  let ?sub = "f_mult F (f_of_numeric F (p_price p)) (f_of_int F (l_Quantity l))"
  have lock: "call V (lock_product F (l_ProductID l)) tx = (Inr (f_of_numeric F (p_price p)), ?tx1)"
    using p(1) assms by (simp add: call_def lock_product_def db_def)
  have fresh: "k \<notin> i_id ` set (db_items db)"
    using Cons.prems(1) by (fastforce simp: store_inv_but_def keys_ok_def db_def k_def)
  have prod: "l_ProductID l \<in> p_id ` set (db_products db)" using find_SomeD [OF p(1)] by force
  have stmt: "insert_item F ord (l_ProductID l) (l_Quantity l) ?sub db = (Inr (), ?db2)"
    using p fresh prod Cons.prems(2,4,6) by (simp add: insert_item_def db_def k_def Let_def)
  have ins: "call V (insert_item F ord (l_ProductID l) (l_Quantity l) ?sub) ?tx1 = (Inr (), \<lparr>tx_db = ?db2, tx_calls = Suc (Suc (tx_calls tx))\<rparr>)"
    using stmt assms by (simp add: call_def)
  have inv: "store_inv_but {ord} ?db2" using insert_item_inv [OF Cons.prems(1) [folded db_def] _ stmt] by simp
  have ok: "line_ok F ?db2 = line_ok F db" by (simp add: fun_eq_iff line_ok_def line_amount_def)
  have "fst (order_lines F V ord lines \<lparr>tx_db = ?db2, tx_calls = Suc (Suc (tx_calls tx))\<rparr>) = Inr ()"
  proof (rule Cons.IH)
    show "\<forall>l \<in> set lines. line_ok F (tx_db \<lparr>tx_db = ?db2, tx_calls = Suc (Suc (tx_calls tx))\<rparr>) l"
      using Cons.prems(5) ok by (simp add: db_def [symmetric])
  qed (use inv Cons.prems in \<open>auto simp: db_def k_def image_iff\<close>)
  then show ?case using lock ins p(2) by (simp add: order_line_def)
qed simp

lemma line_item_amount:
  assumes "distinct (map p_id (db_products db))" "line_item F db ord l x"
  shows "line_amount F db l = Some (i_subtotal x)"
proof -
  from assms(2) obtain p where p: "p \<in> set (db_products db)" "p_id p = l_ProductID l"
    "f_to_numeric F (f_mult F (f_of_numeric F (p_price p)) (f_of_int F (l_Quantity l))) = Some (i_subtotal x)"
    by (auto simp: line_item_def)
  have "find (\<lambda>p. p_id p = l_ProductID l) (db_products db) = Some p"
    using find_key [OF assms(1) p(1)] by (simp add: p(2))
  with p(3) show ?thesis by (simp add: line_amount_def)
qed

lemma list_all2_sum_amount:
  assumes "distinct (map p_id (db_products db))" "list_all2 (line_item F db ord) lines new"
  shows "sum_list (map i_subtotal new) = order_amount F db lines"
  using assms(2) by (induction rule: list_all2_induct) (auto simp: order_amount_def dest: line_item_amount [OF assms(1)])

lemma order_amount_nonneg: "\<forall>l \<in> set lines. line_ok F db l \<Longrightarrow> 0 \<le> order_amount F db lines"
  by (induction lines) (auto simp: order_amount_def line_ok_def split: option.splits)

lemma place_order_tx_succeeds:
  assumes "store_inv (tx_db tx)" "\<forall>k. e_net V k = None" "customer \<in> c_CustomerID ` set (db_customers (tx_db tx))"
    "db_seq_orders (tx_db tx) < max_serial" "db_seq_items (tx_db tx) + int (length lines) \<le> max_serial"
    "distinct (map l_ProductID lines)" "\<forall>l \<in> set lines. line_ok F (tx_db tx) l" "numeric_ok (order_amount F (tx_db tx) lines)"
  shows "fst (place_order_tx F V customer lines tx) =
    Inr \<lparr>r_OrderID = db_seq_orders (tx_db tx) + 1, r_TotalAmount = f_of_numeric F (order_amount F (tx_db tx) lines), r_CustomerID = customer\<rparr>"
proof -
  define db where "db = tx_db tx"
  define ord where "ord = db_seq_orders db + 1"
  define db1 where "db1 = db\<lparr>db_seq_orders := ord, db_orders := db_orders db @ [\<lparr>o_id = ord, o_customer = customer, o_total = 0\<rparr>]\<rparr>"
  define tx1 where "tx1 = \<lparr>tx_db = db1, tx_calls = Suc (tx_calls tx)\<rparr>"
  have fresh: "ord \<notin> o_id ` set (db_orders db)"
    using assms(1) by (fastforce simp: store_inv_but_def keys_ok_def db_def ord_def)
  have ins: "insert_order customer db = (Inr ord, db1)"
    using assms(3,4) fresh by (simp add: insert_order_def db_def db1_def ord_def Let_def)
  have c1: "call V (insert_order customer) tx = (Inr ord, tx1)"
    using ins assms(2) by (simp add: call_def tx1_def db_def)
  have inv1: "store_inv_but {ord} (tx_db tx1)"
    using insert_order_inv [OF assms(1) [folded db_def] ins] store_inv_but_mono by (auto simp: tx1_def)
  have no: "ord \<notin> i_order ` set (db_items db)"
    using assms(1) fresh by (auto simp: store_inv_but_def refs_ok_def db_def)
  have lines: "line_ok F db1 = line_ok F db" "line_item F db1 = line_item F db"
    by (simp_all add: fun_eq_iff line_ok_def line_amount_def line_item_def db1_def)
  obtain r2 tx2 where l: "order_lines F V ord lines tx1 = (r2, tx2)" by fastforce
  have "fst (order_lines F V ord lines tx1) = Inr ()"
    by (rule order_lines_succeeds [OF assms(2) inv1]) (use assms(5,6,7) no in \<open>auto simp: tx1_def lines db_def [symmetric]\<close>, auto simp: db1_def image_iff)
  with l have r2: "r2 = Inr ()" by simp
  obtain new k where n: "tx_db tx2 = db1\<lparr>db_seq_items := k, db_items := db_items db1 @ new\<rparr>" "list_all2 (line_item F db1 ord) lines new"
    using order_lines_inv [OF inv1 l] r2 unfolding line_item_def tx1_def by auto
  have items: "list_all2 (line_item F db ord) lines new" using n(2) by (simp add: lines)
  have "\<forall>x \<in> set new. i_order x = ord"
    using items by (auto simp: list_all2_conv_all_nth line_item_def in_set_conv_nth)
  then have new: "filter (\<lambda>x. i_order x = ord) new = new" by (simp add: filter_id_conv)
  have old: "filter (\<lambda>x. i_order x = ord) (db_items db) = []" using no by (auto simp: filter_empty_conv)
  have "distinct (map p_id (db_products db))" using assms(1) by (auto simp: store_inv_but_def keys_ok_def db_def)
  then have tot: "items_total ord (tx_db tx2) = order_amount F db lines"
    unfolding items_total_def n(1) db1_def using list_all2_sum_amount [OF _ items] by (simp add: new old)
  have up: "fst (update_total F ord (tx_db tx2)) = Inr (f_of_numeric F (order_amount F db lines))"
    using assms(7,8) order_amount_nonneg [of lines F db] by (simp add: update_total_def tot Let_def db_def) (simp add: n(1) db1_def db_def)
  obtain db3 where up': "update_total F ord (tx_db tx2) = (Inr (f_of_numeric F (order_amount F db lines)), db3)"
    using up by (cases "update_total F ord (tx_db tx2)") auto
  have c3: "call V (update_total F ord) tx2 = (Inr (f_of_numeric F (order_amount F db lines)), \<lparr>tx_db = db3, tx_calls = Suc (tx_calls tx2)\<rparr>)"
    using up' assms(2) by (simp add: call_def)
  from c1 l r2 c3 show ?thesis by (simp add: place_order_tx_def db_def ord_def)
qed

lemma begin_tx_succeeds:
  assumes "e_net V 0 = None" "e_commit V = CommitOk" "fst (body \<lparr>tx_db = db, tx_calls = 1\<rparr>) = Inr x"
  shows "fst (begin_tx V db body) = Inr x"
  using assms by (cases "body \<lparr>tx_db = db, tx_calls = 1\<rparr>") (simp add: begin_tx_def finish_def)

text \<open>
  C19 (an order that is in order is placed). When the database answers, the customer exists, every line names a different
  known product in a positive quantity, the amounts fit their columns and the sequences are not exhausted, the order is
  placed under the next number, and the total is the sum over the lines of the rounded product of price and quantity.
\<close>

theorem order_accepted:
  assumes "store_inv db" "\<forall>k. e_net V k = None" "e_commit V = CommitOk" "lines \<noteq> []"
    "customer \<in> c_CustomerID ` set (db_customers db)" "distinct (map l_ProductID lines)" "\<forall>l \<in> set lines. line_ok F db l"
    "numeric_ok (order_amount F db lines)" "db_seq_orders db < max_serial" "db_seq_items db + int (length lines) \<le> max_serial"
  shows "fst (PlaceOrder F V customer lines db) =
    Inr \<lparr>r_OrderID = db_seq_orders db + 1, r_TotalAmount = f_of_numeric F (order_amount F db lines), r_CustomerID = customer\<rparr>"
proof -
  have "fst (place_order_tx F V customer lines \<lparr>tx_db = db, tx_calls = 1\<rparr>) =
    Inr \<lparr>r_OrderID = db_seq_orders db + 1, r_TotalAmount = f_of_numeric F (order_amount F db lines), r_CustomerID = customer\<rparr>"
    using place_order_tx_succeeds [of "\<lparr>tx_db = db, tx_calls = 1\<rparr>" V customer lines F] assms by simp
  from begin_tx_succeeds [where body = "place_order_tx F V customer lines", OF _ assms(3) this] assms(2,4) show ?thesis by (simp add: PlaceOrder_def)
qed

theorem order_accepted_witness:
  "fst (PlaceOrder cents (quiet_network CommitOk) 2 (two_mice @ [\<lparr>l_ProductID = 3, l_Quantity = 1\<rparr>]) initial_db) =
     Inr \<lparr>r_OrderID = 1, r_TotalAmount = 650100, r_CustomerID = 2\<rparr>"
proof -
  let ?lines = "two_mice @ [\<lparr>l_ProductID = 3, l_Quantity = 1\<rparr>]"
  have amount: "order_amount cents initial_db ?lines = 650100"
    by (simp add: order_amount_def line_amount_def cents_def two_mice_def initial_db_def)
  have ok: "\<forall>l \<in> set ?lines. line_ok cents initial_db l"
    by (simp add: line_ok_def line_amount_def cents_def two_mice_def initial_db_def numeric_ok_def)
  have "fst (PlaceOrder cents (quiet_network CommitOk) 2 ?lines initial_db) =
      Inr \<lparr>r_OrderID = db_seq_orders initial_db + 1, r_TotalAmount = f_of_numeric cents (order_amount cents initial_db ?lines), r_CustomerID = 2\<rparr>"
    by (rule order_accepted [OF initial_db_inv _ _ _ _ _ ok])
      (simp_all add: amount, simp_all add: two_mice_def initial_db_def numeric_ok_def max_serial_def)
  then show ?thesis by (simp add: amount) (simp add: initial_db_def cents_def)
qed

end
