(* ===== verification/Examples.thy ===== *)
theory Examples
  imports Broker Strconv
begin

text \<open>
  The two example programs (\<^verbatim>\<open>example/publisher/main.go\<close>, \<^verbatim>\<open>example/consumer/main.go\<close>): their settings from the environment, the publisher's
  numbered messages and the lines the consumer prints, over the client library.
\<close>

section \<open>Model\<close>

text \<open>\<open>env\<close> is \<^verbatim>\<open>os.Getenv\<close>: the empty string for a variable that is not set.\<close>

definition envOr :: "(string \<Rightarrow> string) \<Rightarrow> string \<Rightarrow> string \<Rightarrow> string" where
  "envOr env key def = (if env key \<noteq> '''' then env key else def)"

definition qosFromEnv :: "(string \<Rightarrow> string) \<Rightarrow> string \<Rightarrow> byte \<Rightarrow> byte" where
  "qosFromEnv env key def =
     (let raw = env key in
      if raw = '''' then def
      else case Atoi raw of
        None \<Rightarrow> def
      | Some n \<Rightarrow> if n < 0 \<or> 1 < n then def else word_of_int n)"

definition credentials :: "(string \<Rightarrow> string) \<Rightarrow> (Options \<Rightarrow> Options) list" where
  "credentials env = (if env ''MQTT_USER'' \<noteq> '''' then [WithCredentials (env ''MQTT_USER'') (env ''MQTT_PASS'')] else [])"

definition publisher_options :: "(string \<Rightarrow> string) \<Rightarrow> (Options \<Rightarrow> Options) list" where
  "publisher_options env =
     [WithClientID (envOr env ''CLIENT_ID'' ''example-publisher''), WithQoS (qosFromEnv env ''QOS'' 1)] @ credentials env"

definition publisher_payload :: "string \<Rightarrow> int \<Rightarrow> string" where
  "publisher_payload clientID i = ''['' @ clientID @ ''] msg '' @ itoa i"

text \<open>
  The loop, for the fresh UUIDs and times of its rounds; it ends with the first publish that fails. The result: the payloads sent,
  the error, if any, and the client.
\<close>

fun publisher_loop :: "string \<Rightarrow> string \<Rightarrow> (uuid \<times> gotime) list \<Rightarrow> int \<Rightarrow> Client \<Rightarrow> string list \<times> go_error option \<times> Client" where
  "publisher_loop topic clientID [] i c = ([], None, c)"
| "publisher_loop topic clientID ((newV7, now) # rounds) i c =
     (let payload = publisher_payload clientID i in
      case client_Publish newV7 now topic (bytes_of payload) [] c of
        (Some err, c) \<Rightarrow> ([], Some err, c)
      | (None, c) \<Rightarrow> (case publisher_loop topic clientID rounds (i + 1) c of (ps, err, c) \<Rightarrow> (payload # ps, err, c)))"

text \<open>\<open>Inl\<close> is the message of \<^verbatim>\<open>log.Fatalf\<close>, with the error.\<close>

definition publisher_main :: "(string \<Rightarrow> (conn \<times> bytes) res) \<Rightarrow> (conn \<times> bytes \<Rightarrow> (conn \<times> bytes) res) \<Rightarrow> (string \<Rightarrow> string)
    \<Rightarrow> (uuid \<times> gotime) list \<Rightarrow> (string \<times> go_error) option \<times> string list \<times> Client option" where
  "publisher_main tcp handshake env rounds =
     (case client_Connect tcp handshake (envOr env ''BROKER_ADDR'' ''localhost:1883'') (publisher_options env) of
        Inl err \<Rightarrow> (Some (''connect: %v'', err), [], None)
      | Inr c \<Rightarrow>
          (case publisher_loop (envOr env ''TOPIC'' ''hello'') (envOr env ''CLIENT_ID'' ''example-publisher'') rounds 1 c of
             (ps, err, c) \<Rightarrow> (map_option (\<lambda>e. (''publish: %v'', e)) err, ps, Some c)))"

definition consumer_options :: "(string \<Rightarrow> string) \<Rightarrow> (Options \<Rightarrow> Options) list" where
  "consumer_options env =
     [WithClientID (envOr env ''CLIENT_ID'' ''example-consumer''), WithQoS (qosFromEnv env ''QOS'' 1), WithSeenCacheSize 20000] @ credentials env"

text \<open>The handler's line; \<open>uuid_String\<close> is the rendering of the UUID package.\<close>

definition consumer_line :: "(uuid \<Rightarrow> string) \<Rightarrow> sdk_Message \<Rightarrow> string" where
  "consumer_line uuid_String m =
     ''['' @ sm_Topic m @ ''] server_msg='' @ uuid_String (sm_ServerMsgID m) @ '' payload='' @ string_of (sm_Payload m) @ [CHR 10]"

text \<open>The main program waits for ever; \<open>n\<close> is the number of passes that the loop of \<open>Subscribe\<close> has made so far.\<close>

definition consumer_main :: "(string \<Rightarrow> (conn \<times> bytes) res) \<Rightarrow> (conn \<times> bytes \<Rightarrow> (conn \<times> bytes) res) \<Rightarrow> (uuid \<Rightarrow> string) \<Rightarrow> (string \<Rightarrow> string)
    \<Rightarrow> nat \<Rightarrow> (string \<times> go_error) option \<times> string list \<times> Client option" where
  "consumer_main tcp handshake uuid_String env n =
     (case client_Connect tcp handshake (envOr env ''BROKER_ADDR'' ''localhost:1883'') (consumer_options env) of
        Inl err \<Rightarrow> (Some (''connect: %v'', err), [], None)
      | Inr c \<Rightarrow>
          (case client_Subscribe (envOr env ''TOPIC'' ''hello'') c of
             (Some err, c) \<Rightarrow> (Some (''subscribe: %v'', err), [], Some c)
           | (None, c) \<Rightarrow>
               (case receive_loop n c of (ms, _, c) \<Rightarrow> (None, map (consumer_line uuid_String) ms, Some c))))"

section \<open>Lemmas\<close>

lemma qosFromEnv_range: "def \<le> 1 \<Longrightarrow> qosFromEnv env key def \<le> 1"
proof -
  have "(word_of_int n :: byte) \<le> 1" if "0 \<le> n" "n \<le> 1" for n
  proof -
    have "n = 0 \<or> n = 1" using that by linarith
    then show ?thesis by auto
  qed
  then show "def \<le> 1 \<Longrightarrow> qosFromEnv env key def \<le> 1"
    by (auto simp: qosFromEnv_def Let_def not_less split: option.split)
qed

text \<open>The packets of the publisher: the packet ids count up from 0 and skip 0 when they wrap around.\<close>

definition next_pid :: "byte \<Rightarrow> u16 \<Rightarrow> u16" where
  "next_pid qos pid = (if 0 < qos then if pid + 1 = 0 then 1 else pid + 1 else pid)"

fun publisher_packets :: "string \<Rightarrow> string \<Rightarrow> byte \<Rightarrow> u16 \<Rightarrow> (uuid \<times> gotime) list \<Rightarrow> int \<Rightarrow> PublishPacket list" where
  "publisher_packets topic clientID qos pid [] i = []"
| "publisher_packets topic clientID qos pid ((v, now) # rounds) i =
     \<lparr>pp_TopicName = topic, pp_PacketID = (if 0 < qos then pid else 0), pp_QoS = qos, pp_Retain = False, pp_Dup = False,
      pp_Payload = Encode (NewPublish v now v (bytes_of (publisher_payload clientID i)))\<rparr>
     # publisher_packets topic clientID qos (next_pid qos pid) rounds (i + 1)"

lemma publisher_loop_up:
  assumes "qos < 4"
  shows "client_up c \<Longrightarrow> o_QoS (cl_opts c) = qos \<Longrightarrow> o_IdempotencyID (cl_opts c) = uuid_Nil \<Longrightarrow>
    \<exists>c'. publisher_loop topic clientID rounds i c
        = (map (\<lambda>k. publisher_payload clientID (i + int k)) [0..<length rounds], None, c')
      \<and> cn_out (cl_conn c') = cn_out (cl_conn c) @ map publish_frame (publisher_packets topic clientID qos (cl_nextPID c) rounds i)"
proof (induction rounds arbitrary: i c)
  case (Cons r rounds)
  obtain v now where r: "r = (v, now)" by fastforce
  let ?wire = "Encode (NewPublish v now v (bytes_of (publisher_payload clientID i)))"
  let ?pid = "if 0 < qos then cl_nextPID c else 0"
  let ?c = "c\<lparr>cl_nextPID := next_pid qos (cl_nextPID c)\<rparr>"
  let ?frame = "publish_frame (hd (publisher_packets topic clientID qos (cl_nextPID c) (r # rounds) i))"
  let ?c1 = "?c\<lparr>cl_conn := (cl_conn c)\<lparr>cn_tries := Suc (cn_tries (cl_conn c)), cn_out := cn_out (cl_conn c) @ [?frame]\<rparr>\<rparr>"
  have up: "client_up ?c" using Cons.prems(1) by (simp add: client_up_def)
  have f: "writePublish_frame topic ?wire qos ?pid False = ?frame"
    by (simp add: r writePublish_frame_eq [OF assms] publish_frame_def)
  have idem: "NewPublish v now (if uuid_Nil = uuid_Nil then v else uuid_Nil) p = NewPublish v now v p" for p by simp
  have "client_Publish v now topic (bytes_of (publisher_payload clientID i)) [] c = client_write ?frame ?c"
    unfolding client_Publish_def Let_def apply_options_def fold.simps id_def Cons.prems(2,3) idem writePublish_def f
    by (simp add: next_pid_def)
  then have p: "client_Publish v now topic (bytes_of (publisher_payload clientID i)) [] c = (None, ?c1)"
    using client_write_up [OF up, of ?frame] by simp
  have c1: "client_up ?c1" "o_QoS (cl_opts ?c1) = qos" "o_IdempotencyID (cl_opts ?c1) = uuid_Nil"
    using Cons.prems by (simp_all add: client_up_def)
  obtain c' where IH: "publisher_loop topic clientID rounds (i + 1) ?c1
      = (map (\<lambda>k. publisher_payload clientID (i + 1 + int k)) [0..<length rounds], None, c')"
    "cn_out (cl_conn c') = cn_out (cl_conn ?c1) @ map publish_frame (publisher_packets topic clientID qos (cl_nextPID ?c1) rounds (i + 1))"
    using Cons.IH [OF c1] by blast
  have m: "map (\<lambda>k. publisher_payload clientID (i + int k)) [0..<Suc (length rounds)]
      = publisher_payload clientID i # map (\<lambda>k. publisher_payload clientID (i + 1 + int k)) [0..<length rounds]"
    by (simp add: upt_conv_Cons map_Suc_upt [symmetric] del: upt_Suc) (simp add: add.assoc)
  have "publisher_loop topic clientID (r # rounds) i c
      = (map (\<lambda>k. publisher_payload clientID (i + int k)) [0..<length (r # rounds)], None, c')"
    using p IH(1) by (simp add: r m del: upt_Suc)
  moreover have "cn_out (cl_conn c') = cn_out (cl_conn c) @ map publish_frame (publisher_packets topic clientID qos (cl_nextPID c) (r # rounds) i)"
    using IH(2) by (simp add: r)
  ultimately show ?case by blast
qed simp

lemma length_decimal: "n < 10 ^ Suc k \<Longrightarrow> length (decimal n) \<le> Suc k"
proof (induction k arbitrary: n)
  case 0
  then show ?case by (subst decimal.simps) simp
next
  case (Suc k)
  then have "n div 10 < 10 ^ Suc k" by (simp add: div_less_iff_less_mult mult.commute)
  from Suc.IH [OF this] show ?case by (subst decimal.simps) simp
qed

lemma length_publisher_payload:
  assumes "0 \<le> i" "i < 10 ^ 20" "length clientID < 65536"
  shows "length (publisher_payload clientID i) < 65600"
proof -
  have "nat i < 10 ^ Suc 19" using assms(1,2) by (simp add: nat_less_iff)
  from length_decimal [OF this] show ?thesis using assms(1,3) by (simp add: publisher_payload_def itoa_def)
qed

lemma publisher_packets_fields:
  "length (publisher_packets topic clientID qos pid rounds i) = length rounds"
  "pp \<in> set (publisher_packets topic clientID qos pid rounds i) \<Longrightarrow> pp_TopicName pp = topic \<and> pp_QoS pp = qos"
  by (induction rounds arbitrary: pid i) (auto split: prod.splits)

lemma publisher_packets_wf:
  assumes "length topic < 65536" "length clientID < 65536" "qos \<le> 1"
  shows "0 \<le> i \<Longrightarrow> i + int (length rounds) \<le> 10 ^ 20 \<Longrightarrow> list_all wf_publish (publisher_packets topic clientID qos pid rounds i)"
proof (induction rounds arbitrary: pid i)
  case (Cons r rounds)
  obtain v now where r: "r = (v, now)" by fastforce
  have "length (publisher_payload clientID i) < 65600"
    using Cons.prems by (intro length_publisher_payload assms(2)) auto
  then have "wf_publish (hd (publisher_packets topic clientID qos pid (r # rounds) i))"
    using assms le_less_trans [OF assms(3), of 4] by (simp add: r wf_publish_def length_Encode NewPublish_def word_gt_0)
  with Cons.IH [of "i + 1"] Cons.prems show ?case by (simp add: r)
qed simp

lemma publisher_packets_payloads:
  assumes "\<forall>(v, now) \<in> set rounds. v \<noteq> uuid_Nil \<and> in_int64 now"
  shows "map (\<lambda>pp. rbind (Decode (pp_Payload pp)) (\<lambda>e. Inr (string_of (env_Payload e)))) (publisher_packets topic clientID qos pid rounds i)
    = map (\<lambda>k. Inr (publisher_payload clientID (i + int k))) [0..<length rounds]"
  using assms
proof (induction rounds arbitrary: pid i)
  case (Cons r rounds)
  obtain v now where r: "r = (v, now)" by fastforce
  have "wf_env (NewPublish v now v p)" for p using Cons.prems by (intro wf_env_NewPublish) (auto simp: r)
  then have d: "Decode (Encode (NewPublish v now v p)) = Inr (NewPublish v now v p)" for p by (rule Decode_Encode)
  have e: "env_Payload (NewPublish v now v p) = p" for p by (simp add: NewPublish_def)
  have m: "map (\<lambda>k. Inr (publisher_payload clientID (i + int k))) [0..<Suc (length rounds)]
      = Inr (publisher_payload clientID i) # map (\<lambda>k. Inr (publisher_payload clientID (i + 1 + int k))) [0..<length rounds]"
    by (simp add: upt_conv_Cons map_Suc_upt [symmetric] del: upt_Suc) (simp add: add.assoc)
  show ?case
    using Cons.IH [of "next_pid qos pid" "i + 1"] Cons.prems by (simp add: r d e m del: upt_Suc)
qed simp

lemma read_publisher:
  assumes "wf_options opts" "list_all wf_publish pps"
  shows "read_n ReadPacket (Suc (length pps)) (concat (connect_frame opts # map publish_frame pps))
    = Inr ((new_packet TypeConnect)\<lparr>pkt_Connect := Some (connect_packet opts)\<rparr>
        # map (\<lambda>pp. (new_packet TypePublish)\<lparr>pkt_Publish := Some pp\<rparr>) pps, [])"
proof -
  have "read_n ReadPacket (length pps) (concat (map publish_frame pps)) = Inr (map (\<lambda>pp. (new_packet TypePublish)\<lparr>pkt_Publish := Some pp\<rparr>) pps, [])"
    using assms(2) by (induction pps) (auto simp: ReadPacket_publish_frame)
  then show ?thesis by (simp add: ReadPacket_connect_frame [OF assms(1)])
qed

section \<open>Properties\<close>

text \<open>
  C16 (the example publisher). If the broker accepts the connection and the network takes every write, the publisher never stops with an
  error, whatever its environment variables are (within the length that MQTT allows for names): after any number of rounds, what it has written is read by
  the broker's reader as a CONNECT packet with its client identifier and credentials and then one PUBLISH packet for each round on its topic,
  with QoS 0 or 1, whose envelopes carry the texts with the numbers 1, 2, 3 and so on.
\<close>

theorem publisher_stream:
  assumes "tcp addr = Inr (cn, [0x20, 2, 0, 0] @ later)" "\<not> uses_tls addr" "addr = envOr env ''BROKER_ADDR'' ''localhost:1883''"
    and "\<not> cn_closed cn" "cn_net cn = (\<lambda>_. None)" "cn_out cn = []"
    and "clientID = envOr env ''CLIENT_ID'' ''example-publisher''" "topic = envOr env ''TOPIC'' ''hello''"
    and "length topic < 65536" "length clientID < 65536" "length (env ''MQTT_USER'') < 65536" "length (env ''MQTT_PASS'') < 65536"
    and "\<forall>(v, now) \<in> set rounds. v \<noteq> uuid_Nil \<and> in_int64 now" "length rounds < 2 ^ 64"
  shows "\<exists>c pps. publisher_main tcp handshake env rounds
        = (None, map (\<lambda>k. publisher_payload clientID (1 + int k)) [0..<length rounds], Some c)
    \<and> read_n ReadPacket (Suc (length rounds)) (concat (cn_out (cl_conn c)))
        = Inr ((new_packet TypeConnect)\<lparr>pkt_Connect := Some (connect_packet (apply_options (publisher_options env) defaultOptions))\<rparr>
            # map (\<lambda>pp. (new_packet TypePublish)\<lparr>pkt_Publish := Some pp\<rparr>) pps, [])
    \<and> map (\<lambda>pp. rbind (Decode (pp_Payload pp)) (\<lambda>e. Inr (string_of (env_Payload e)))) pps
        = map (\<lambda>k. Inr (publisher_payload clientID (1 + int k))) [0..<length rounds]
    \<and> (\<forall>pp \<in> set pps. pp_TopicName pp = topic \<and> pp_QoS pp \<le> 1)"
proof -
  let ?opts = "apply_options (publisher_options env) defaultOptions" and ?qos = "qosFromEnv env ''QOS'' 1"
  have opts: "o_QoS ?opts = ?qos" "o_IdempotencyID ?opts = uuid_Nil" "o_ClientID ?opts = clientID" "wf_options ?opts"
    using assms(10-12) unfolding assms(7)
    by (simp_all add: wf_options_def publisher_options_def credentials_def apply_options_def WithClientID_def WithQoS_def WithCredentials_def defaultOptions_def)
  define c0 where "c0 = \<lparr>cl_addr = addr, cl_opts = ?opts, cl_conn = cn\<lparr>cn_tries := Suc (cn_tries cn), cn_out := [connect_frame ?opts]\<rparr>,
    cl_in = later, cl_seen = NewSeenCache (o_SeenCacheSize ?opts), cl_nextPID = 0\<rparr>"
  have conn: "client_Connect tcp handshake addr (publisher_options env) = Inr c0"
    using assms(1,2,4-6)
    by (simp add: client_Connect_def dial_def connectMQTT_def client_write_def conn_Write_def io_ReadFull_def c0_def Let_def)
  have up: "client_up c0" "o_QoS (cl_opts c0) = ?qos" "o_IdempotencyID (cl_opts c0) = uuid_Nil"
    using assms(4,5) opts by (simp_all add: client_up_def c0_def)
  have q: "?qos \<le> 1" by (rule qosFromEnv_range) simp
  then have q4: "?qos < 4" by (rule le_less_trans) simp
  define pps where "pps = publisher_packets topic clientID ?qos 0 rounds 1"
  obtain c where c: "publisher_loop topic clientID rounds 1 c0 = (map (\<lambda>k. publisher_payload clientID (1 + int k)) [0..<length rounds], None, c)"
    "cn_out (cl_conn c) = connect_frame ?opts # map publish_frame pps"
    using publisher_loop_up [OF q4 up, of topic clientID rounds 1] by (auto simp: c0_def pps_def)
  have "int (length rounds) < 2 ^ 64" using assms(14) by simp
  then have "list_all wf_publish pps"
    unfolding pps_def by (intro publisher_packets_wf assms(9,10) q) simp_all
  from read_publisher [OF opts(4) this] have read: "read_n ReadPacket (Suc (length rounds)) (concat (cn_out (cl_conn c)))
        = Inr ((new_packet TypeConnect)\<lparr>pkt_Connect := Some (connect_packet ?opts)\<rparr>
            # map (\<lambda>pp. (new_packet TypePublish)\<lparr>pkt_Publish := Some pp\<rparr>) pps, [])"
    unfolding c(2) pps_def publisher_packets_fields(1) .
  have main: "publisher_main tcp handshake env rounds = (None, map (\<lambda>k. publisher_payload clientID (1 + int k)) [0..<length rounds], Some c)"
    using conn c(1) unfolding publisher_main_def assms(3,7,8) by simp
  have texts: "map (\<lambda>pp. rbind (Decode (pp_Payload pp)) (\<lambda>e. Inr (string_of (env_Payload e)))) pps
      = map (\<lambda>k. Inr (publisher_payload clientID (1 + int k))) [0..<length rounds]"
    unfolding pps_def by (rule publisher_packets_payloads [OF assms(13)])
  have "\<forall>pp \<in> set pps. pp_TopicName pp = topic \<and> pp_QoS pp \<le> 1"
    using publisher_packets_fields(2) q unfolding pps_def by metis
  with main read texts show ?thesis by blast
qed

theorem publisher_stream_witness:
  "\<exists>c. publisher_main (\<lambda>_. Inr (up_conn, [0x20, 2, 0, 0])) Inr (\<lambda>k. if k = ''QOS'' then ''7'' else '''') [(3, 10), (4, 20)]
     = (None, [publisher_payload ''example-publisher'' 1, publisher_payload ''example-publisher'' 2], Some c)"
  using publisher_stream [of "\<lambda>_. Inr (up_conn, [0x20, 2, 0, 0])" "''localhost:1883''" up_conn "[]" "\<lambda>k. if k = ''QOS'' then ''7'' else ''''"
      "''example-publisher''" "''hello''" "[(3, 10), (4, 20)]" Inr]
  by (auto simp: uses_tls_def up_conn_def envOr_def in_int64_def upt_rec)

end
