(* ===== verification/Spec2Isabelle.thy ===== *)
theory Spec2Isabelle
  imports Startup Publish_Race Broker_Delivery Metrics Write_Back Bench_Report Shop_Process Examples
begin

text \<open>
  A verification development for broker-message, an MQTT message broker in Go with a Go client
  library and some smaller programs beside it.

  \<^bold>\<open>The program.\<close> A broker process (\<^verbatim>\<open>cmd/broker/main.go\<close>) reads its configuration, opens a database for its
  own data, loads the topics found in a directory and starts an MQTT server and an administration
  server. The MQTT server gives every connection a session. A session reads packets: CONNECT is checked
  against the users file; PUBLISH carries an envelope with an idempotency key, which the deduplication
  store knows for some time, so that a repeated publish is only acknowledged; a new message is appended to the
  log of its topic and offered to the channels of the subscribers; SUBSCRIBE first delivers what the
  client has missed since its offset and then what comes; PUBACK moves the offset; a timer sends
  unacknowledged messages again. Each topic has a database of its own with its messages, its
  sequence counter and the offsets. The client library writes the same packets and drops messages whose
  server id it has seen. The administration server lists, purges and replays topics. Under \<^verbatim>\<open>tasks\<close> there are
  a shop service over PostgreSQL, clients and a benchmark for RabbitMQ and Redis queues, and three caching
  strategies with their benchmark.

  \<^bold>\<open>The theories\<close>, in the order of their dependencies:
  \<^item> \<open>Prelude\<close>: bytes, words, results, errors and panics as values, checked slices, big-endian integers.
  \<^item> \<open>Codec\<close>: the contracts of encoders and decoders as locales; \<open>Bounded_Memory\<close>: the contract of a
    memory that forgets its oldest keys, which \<open>Dedup\<close> and \<open>Sdk_Client\<close> interpret.
  \<^item> \<open>Envelope\<close>: \<^verbatim>\<open>core/envelope\<close>. \<open>Packet\<close>: \<^verbatim>\<open>core/transport/mqtt/packet.go\<close>. \<open>Auth\<close>: \<^verbatim>\<open>core/auth\<close>.
  \<^item> \<open>Storage\<close>: \<^verbatim>\<open>core/storage\<close> over a database engine given by the record \<open>engine\<close>; \<open>badger_laws\<close> states what
    Badger documents (a committed write is read back, iteration is in key order), \<open>writes_commit\<close> that no write
    fails. \<open>Mem_Engine\<close> has engines that satisfy them, used by the witnesses.
  \<^item> \<open>Offsets\<close>: \<^verbatim>\<open>core/offsets\<close>. \<open>Dedup\<close>: \<^verbatim>\<open>core/dedup\<close>. \<open>Topic\<close>: \<^verbatim>\<open>core/topic\<close>, with the abstract log
    \<open>topic_log\<close> and the interface \<open>message_log\<close>.
  \<^item> \<open>Registry\<close>, \<open>Server\<close>, \<open>Listener\<close>: \<^verbatim>\<open>core/transport/mqtt/server.go\<close> and \<^verbatim>\<open>core/brokerhub\<close>.
  \<^item> \<open>Session\<close>: \<^verbatim>\<open>core/transport/mqtt/session.go\<close>. The state of a session and of the server are passed through
    each handler; the goroutines that deliver and resend are atomic steps.
  \<^item> \<open>Sdk_Client\<close>: \<^verbatim>\<open>sdk/go/brokermq\<close>. \<open>Broker\<close>: the logs of a server (\<open>server_logs\<close>) and what publishes,
    restarts and the client library do to them. \<open>Publish_Race\<close>: the publish handler in two steps.
  \<^item> \<open>Admin\<close>: \<^verbatim>\<open>core/admin/server.go\<close>, with the requests served as an inductive relation \<open>admin_run\<close>.
  \<^item> \<open>Startup\<close>: \<^verbatim>\<open>cmd/broker\<close> from its start to its end, \<^verbatim>\<open>core/config\<close>, \<^verbatim>\<open>core/security\<close> and the listeners.
  \<^item> \<open>Cache_Store\<close>, \<open>Write_Back\<close>: the caching strategies of \<^verbatim>\<open>tasks/task_4\<close>; the second has the
    interleavings of writers and flushers as an inductive relation \<open>wb_reach\<close>. \<open>Cache_Bench\<close>: the preparation and the
    operations of their benchmark, over the same locale.
  \<^item> \<open>Connection\<close>: the life of a connection from its registration to the end of its goroutine.
  \<^item> \<open>Broker_System\<close>: the broker with all its connections, timers, delivery goroutines, live tails and administration
    requests at once, as a step relation \<open>broker_step\<close> on a state \<open>broker\<close> and runs \<open>broker_run\<close> that keep the events. \<open>Broker_Logs\<close>: what
    the events make of the logs, as a specification on lists. \<open>Broker_Delivery\<close>: what the connections are sent.
    \<open>Metrics\<close>: \<^verbatim>\<open>core/metrics\<close>, every counter and gauge over these events.
  \<^item> \<open>Examples\<close>: \<^verbatim>\<open>example\<close>, the two programs over the client library.
  \<^item> \<open>Strconv\<close>: decimal numbers. \<open>Orders\<close>: \<^verbatim>\<open>tasks/task_2\<close>, the tables as a record \<open>database\<close>, each SQL statement
    as a function on it, a locale \<open>transaction\<close> for what a transaction promises, the service and its handlers.
    \<open>Shop_Process\<close>: its process, the pool, the migrations and the routes, run again and again on one server.
  \<^item> \<open>Queue_Adapters\<close>, \<open>Queue_Bench\<close>: \<^verbatim>\<open>tasks/task_3\<close>, with a locale \<open>queue_consumer\<close> that both consumers interpret.
    \<open>Bench_Report\<close>: what both benchmarks do around their measurements, from the flags to the CSV file.

  \<^bold>\<open>What is shown.\<close> In this theory: a publish with an idempotency key takes effect once, whatever happens
  in between within the window of the deduplication store; a restart keeps all logs; a subscriber
  with the client library gets what it has missed, in order and once; a publish of the client library
  reaches the log. For the interleaved broker: an invariant of all its states (no panic, the table of sessions, one owner
  for each channel); its logs are what the specification makes of the events; no client is sent anything but logged
  messages of topics it may read; the uninterrupted connection is one of its runs; what the metrics count, and where the gauge of messages
  in flight goes wrong. In the components: the codecs are inverse to each other and reject everything else;
  the reader, the session loop and the topic operations never panic; a topic refines a list of messages and
  the offsets a table, also over restarts; subscribers get messages in order; the ACL matcher decides the
  MQTT relation; packet ids are fresh and their allocation ends exactly if one is free; an
  unauthenticated client or request changes nothing; administration requests act on the logs as a
  specification on lists says; the caching strategies answer like one map and start their benchmark from the
  same data; a connection leaves no trace in the server; the tables of the shop stay consistent whatever
  fails and however often the process is restarted, and an order is placed wholly or not at all; queue consumers
  acknowledge only what was handled; the files of the benchmarks read back as their results. The properties of
  kind error state where the code departs from what it means to do, each with the exact conditions.

  \<^bold>\<open>Bounds and fuel.\<close> \<open>allocPacketID\<close> may loop forever, so it is a \<open>partial_function\<close> into options, and it is
  proved when it returns. The loops that read a connection recurse over the bytes or the inputs still to come; all
  other loops are structural or come with a measure. Sequence numbers are 64-bit words; the theorems
  ask for fewer than \<open>2 ^ 64\<close> messages where a wrap-around would matter. A slice has at most \<open>2 ^ 48\<close> bytes
  (\<open>max_alloc\<close>), beyond which the runtime panics.

  \<^bold>\<open>Parameters.\<close> The database engine, bcrypt, YAML, the file system and certificates, Redis, SQLite, the PostgreSQL
  driver, the migration tool, the web framework and the arithmetic of floats are arguments with laws stated as hypotheses; the clock, fresh UUIDs, random tokens, the bytes from
  the network, and the order in which Go visits a map are inputs. Opening a directory twice is not
  excluded by the model; the code holds a registry lock while it opens.

  \<^bold>\<open>Not modelled.\<close> Logging; the HTTP endpoint of the metrics; the static page of the administrator and the generated
  documentation of the shop, which are constants; the sockets and TLS handshakes; time limits, which appear as failures of calls;
  concurrent transactions of the shop (requests are served one after the other); the Python client, a second
  implementation of the same protocol. Mutexes are not modelled as such: an operation that holds
  its mutex throughout is one step, and where an operation gives it up in between, as publishing and
  flushing do, it is split into steps.
\<close>

section \<open>Properties of the broker\<close>

text \<open>
  C4 (exactly-once publishing, end to end). Let a client publish a message whose idempotency key
  is new to the broker. It is appended to the log of its topic. Then let any clients publish
  anything, to any topics, and let a client send the first message again (a lost PUBACK, a
  reconnect): the same idempotency key, possibly over another session and with another packet
  id. If this happens within the time to live and fewer publishes than the capacity of the
  deduplication store came in between, the repeated publish is answered like the first and
  changes no log: the message is in its topic once.
\<close>

theorem publish_exactly_once:
  assumes laws: "badger_laws E cont" "writes_commit E"
    and start: "server_logs cont opened srv0 L0" "srv_dedup srv0 = Some dd0" "dedup_inv dd0"
    and first: "pb_ok opened p" "n = pp_TopicName (pb_pkt p)"
    and new: "fst (Check E (in_check (pb_in p)) (in_check (pb_in p)) (env_IdempotencyID (publish_env (pb_in p) (pb_pkt p))) dd0) = None"
    and between: "\<forall>q \<in> set ps. pb_ok opened q \<and> in_check (pb_in q) \<le> in_check (pb_in p) + ds_ttl dd0"
      "length ps < ds_capacity dd0" "\<forall>k. length (L0 k) + length ps + 2 < 2 ^ 64"
    and again: "pb_ok opened p'" "in_check (pb_in p') \<le> in_check (pb_in p) + ds_ttl dd0"
      "env_IdempotencyID (publish_env (pb_in p') (pb_pkt p')) = env_IdempotencyID (publish_env (pb_in p) (pb_pkt p))"
    and srv1: "srv1 = run_pub E p srv0" and srv2: "srv2 = fold (run_pub E) ps srv1"
  shows "\<exists>L2. server_logs cont opened srv1 (L0(n := L0 n @ [new_message (pb_in p) (pb_pkt p) (L0 n)]))
    \<and> server_logs cont opened srv2 L2 \<and> prefix (L0 n @ [new_message (pb_in p) (pb_pkt p) (L0 n)]) (L2 n)
    \<and> server_logs cont opened (run_pub E p' srv2) L2
    \<and> fst (handlePublish E (pb_in p') (pb_pkt p') (pb_sess p') srv2) = fst (puback_if (pb_pkt p') (pb_sess p'))"
proof -
  let ?r = "request_of (pb_in p) (pb_pkt p) (L0 n)" and ?m = "new_message (pb_in p) (pb_pkt p) (L0 n)"
  let ?L1 = "L0(n := L0 n @ [?m])" and ?dd1 = "snd (admit E ?r dd0)"
  let ?e = "entry_for ?r (ds_ttl dd0)"
  have len: "length (L0 k) + length ps + 2 < 2 ^ 64" for k using between(3) by blast
  have room: "Suc (length (L0 n)) < 2 ^ 64" using len [of n] by simp
  have none: "fst (admit E ?r dd0) = None"
    using new by (auto simp: admit_def request_of_def split: prod.splits option.splits)
  then have adm: "admit E ?r dd0 = (None, ?dd1)" by (metis prod.collapse)
  note eff = run_pub_effect [OF laws start(1) first(1) start(2) room first(2) refl]
  have logs1: "server_logs cont opened srv1 ?L1" using eff(2) none by (simp add: srv1)
  have dd1: "srv_dedup srv1 = Some ?dd1" using eff(1) by (simp add: srv1)
  have holds: "dedup_holds ?dd1 (rq_id ?r) ?e 0"
    using admit_new [OF start(3) adm] by (simp add: entry_for_def)
  have exp: "de_expiresAt ?e = in_check (pb_in p) + ds_ttl dd0" by (simp add: entry_for_def request_of_def)
  have btw: "\<forall>q \<in> set ps. pb_ok opened q \<and> in_check (pb_in q) \<le> de_expiresAt ?e" using between(1) exp by simp
  have cap: "0 + length ps < ds_capacity ?dd1" using between(2) by simp
  have len1: "\<forall>k. length (?L1 k) + length ps < 2 ^ 64"
  proof
    fix k show "length (?L1 k) + length ps < 2 ^ 64" using len [of k] by auto
  qed
  from run_pubs_remember [OF laws logs1 dd1 dedup_inv_admit [OF start(3)] holds btw cap len1]
  obtain L2 dd2 k where run: "server_logs cont opened srv2 L2" "srv_dedup srv2 = Some dd2" "dedup_inv dd2"
    "dedup_holds dd2 (rq_id ?r) ?e k" "\<forall>n. prefix (?L1 n) (L2 n) \<and> length (L2 n) \<le> length (?L1 n) + length ps"
    unfolding srv2 by blast
  let ?n' = "pp_TopicName (pb_pkt p')"
  let ?r' = "request_of (pb_in p') (pb_pkt p') (L2 ?n')"
  have "length (L2 ?n') \<le> length (?L1 ?n') + length ps" using run(5) by blast
  then have room2: "Suc (length (L2 ?n')) < 2 ^ 64" using len [of ?n'] by (simp split: if_splits)
  have "rq_id ?r' = rq_id ?r" "rq_at ?r' \<le> de_expiresAt ?e"
    using again exp by (simp_all add: request_of_def)
  then have found: "fst (admit E ?r' dd2) = Some ?e"
    using admit_found [OF run(3), of ?r' ?e k E] run(4) by simp
  note eff' = run_pub_effect [OF laws run(1) again(1) run(2) room2 refl refl]
  have "server_logs cont opened (run_pub E p' srv2) L2" using eff'(2) found by simp
  moreover have "prefix (?L1 n) (L2 n)" using run(5) by blast
  ultimately show ?thesis using logs1 run(1) eff'(3) by auto
qed

theorem publish_exactly_once_witness:
  "\<exists>L2. server_logs map_of (\<lambda>_. Inr []) (run_pub mem_engine sample_publication sample_server) L2
     \<and> server_logs map_of (\<lambda>_. Inr []) (run_pub mem_engine sample_publication (run_pub mem_engine sample_publication sample_server)) L2
     \<and> prefix [sample_msg, new_message sample_inputs (pb_pkt sample_publication) [sample_msg]] (L2 ''t'')"
proof -
  let ?dd = "dedup_New None 0 0 :: mem_db dedupStore"
  have dd: "srv_dedup sample_server = Some ?dd" by (simp add: sample_server_def NewServer_def)
  have new: "fst (Check mem_engine 5 5 i ?dd) = None" for i
    by (simp add: Check_def evictExpiredLocked_def dedup_New_def)
  have len: "\<forall>k. length (((\<lambda>_. [])(''t'' := [sample_msg])) k) + length ([] :: mem_db publication list) + 2 < 2 ^ 64"
    by auto
  have flds: "in_check (pb_in sample_publication) = 5" "pp_TopicName (pb_pkt sample_publication) = ''t''"
    "pb_in sample_publication = sample_inputs" "in_check sample_inputs = 5" "ds_ttl ?dd = 600000000000" "0 < ds_capacity ?dd"
    by (simp_all add: sample_publication_def sample_inputs_def dedup_New_def)
  show ?thesis
    using publish_exactly_once [OF badger_laws_mem writes_commit_mem sample_server_logs dd dedup_inv_New
        sample_publication_ok(1) refl _ _ _ len sample_publication_ok(1) _ refl refl refl] new
    by (auto simp: flds)
qed

lemma sample_dir:
  "TopicDataDir (srv_registry sample_server) n = TopicDataDir (srv_registry sample_server) ''t'' \<longleftrightarrow> n = ''t''"
proof -
  have base: "reg_baseDir (srv_registry sample_server) = \<lparr>p_abs = True, p_comps = [''data'']\<rparr>"
    by (simp add: sample_server_def NewServer_def)
  have join: "filepath_Join \<lparr>p_abs = True, p_comps = [''data'']\<rparr> e = \<lparr>p_abs = True, p_comps = [''data'', ''t'']\<rparr>
      \<longleftrightarrow> e = ''t''" for e
    by (simp add: filepath_Join_def)
  have t: "filepath_Join \<lparr>p_abs = True, p_comps = [''data'']\<rparr> (sanitizeTopicDir ''t'') = \<lparr>p_abs = True, p_comps = [''data'', ''t'']\<rparr>"
    by (simp add: join sanitize_t)
  show ?thesis
    unfolding TopicDataDir_def base t by (simp add: join sanitize_t)
qed



text \<open>
  What a subscriber reads. The frame in which a published message is delivered is read by the
  packet reader as a PUBLISH with the topic, QoS and packet id it was sent with, and the
  payload of that packet decodes to the envelope that was published, with the server's
  message id filled in.
\<close>

theorem delivered_frame_carries_envelope:
  assumes "wf_env env" "m = message_of name q newV7 env" "wf_publish (push_packet qos pid m)"
  shows "ReadPacket (push_frame inp qos pid m @ rest)
      = Inr ((new_packet TypePublish)\<lparr>pkt_Publish := Some (push_packet qos pid m)\<rparr>, rest)
    \<and> Decode (pp_Payload (push_packet qos pid m)) = Inr (WithServerMsgID env (m_ServerMsgID m))"
proof -
  have wire: "m_RawWire m = Encode (WithServerMsgID env (m_ServerMsgID m))"
    by (simp add: assms(2) message_of_def Let_def)
  then have "m_RawWire m \<noteq> []" using length_Encode [of "WithServerMsgID env (m_ServerMsgID m)"] by auto
  then have "push_frame inp qos pid m = publish_frame (push_packet qos pid m)" by (rule push_frame_packet)
  then show ?thesis
    using ReadPacket_publish_frame [OF assms(3)] Decode_Encode [of "WithServerMsgID env (m_ServerMsgID m)"] assms(1)
    by (simp add: push_packet_def wire)
qed

theorem delivered_frame_carries_envelope_witness:
  "Decode (pp_Payload (push_packet 1 7 sample_msg)) = Inr (WithServerMsgID sample_env 9)
   \<and> ReadPacket (push_frame sample_inputs 1 7 sample_msg)
      = Inr ((new_packet TypePublish)\<lparr>pkt_Publish := Some (push_packet 1 7 sample_msg)\<rparr>, [])"
proof -
  have m: "m_ServerMsgID sample_msg = 9" "m_Topic sample_msg = ''t''" "length (m_RawWire sample_msg) = 49"
    using length_Encode [of "WithServerMsgID sample_env 9"]
    by (simp_all add: sample_msg_def message_of_def Let_def sample_env_def WithServerMsgID_def)
  have "wf_publish (push_packet 1 7 sample_msg)"
    by (simp add: wf_publish_def push_packet_def m)
  from delivered_frame_carries_envelope [OF wf_sample_env sample_msg_def this, of sample_inputs "[]"] m(1)
  show ?thesis by simp
qed



text \<open>
  C7 (a publish with the client library reaches the log). The frame \<open>Publish\<close> of the library writes
  is read by the broker's loop; if the idempotency key is new, the log of the topic has one
  message more, with this payload and key, and for QoS 1 the broker's answer is the PUBACK for the packet id
  the library used; if the key is known, no log changes and the answer is the same.
\<close>

theorem sdk_publish_reaches_log:
  assumes laws: "badger_laws E cont" "writes_commit E"
    and srv: "server_logs cont opened srv L" "srv_dedup srv = Some dd" "Suc (length (L n)) < 2 ^ 64"
    and sess: "may_publish s n" "conn_up s" "instant inp" "in_opened inp = opened"
    and client: "client_up c" "o' = apply_options opts (cl_opts c)" "o_QoS o' < 4" "newV7 \<noteq> uuid_Nil" "in_int64 now"
    and size: "length n < 65536" "length payload < 2 ^ 27"
    and idem: "idem = (if o_IdempotencyID o' = uuid_Nil then newV7 else o_IdempotencyID o')"
    and new: "fst (Check E (in_check inp) (in_check inp) idem dd) = None \<longleftrightarrow> isnew"
  shows "\<exists>c' frame s' srv' m. client_Publish newV7 now n payload opts c = (None, c')
    \<and> cn_out (cl_conn c') = cn_out (cl_conn c) @ [frame]
    \<and> packet_loop E [inp] frame s srv = Some (None, s', srv')
    \<and> sent s' = sent s @ (if o_QoS o' = 1 then [WritePubAck (cl_nextPID c)] else [])
    \<and> m_Payload m = payload \<and> m_IdempotencyID m = idem
    \<and> server_logs cont opened srv' (if isnew then L(n := L n @ [m]) else L)"
proof -
  let ?env = "NewPublish newV7 now idem payload"
  let ?pid = "if 0 < o_QoS o' then cl_nextPID c else 0"
  define pp where "pp = \<lparr>pp_TopicName = n, pp_PacketID = ?pid, pp_QoS = o_QoS o', pp_Retain = False, pp_Dup = False, pp_Payload = Encode ?env\<rparr>"
  have sel: "pp_TopicName pp = n" "pp_QoS pp = o_QoS o'" "pp_PacketID pp = ?pid" "pp_Payload pp = Encode ?env" "pp_Dup pp = False"
    by (simp_all add: pp_def)
  let ?p = "\<lparr>pb_in = inp, pb_pkt = pp, pb_sess = s\<rparr>"
  let ?r = "request_of inp pp (L n)" and ?m = "new_message inp pp (L n)"
  have idem0: "idem \<noteq> uuid_Nil" using client(4) by (simp add: idem)
  have env: "env_Payload ?env = payload" "env_IdempotencyID ?env = idem" "wf_env ?env" "length (Encode ?env) = 47 + length payload"
    using idem0 client(5) by (simp_all add: NewPublish_def wf_env_def length_Encode)
  have pe: "publish_env inp pp = ?env" using Decode_Encode [OF env(3)] by (simp add: publish_env_def sel)
  have ok: "pb_ok opened ?p" using sess env(3) pe by (simp add: pb_ok_def sel)
  have wf: "wf_publish pp" using size client(3) env(4) by (simp add: wf_publish_def pp_def)
  have room: "Suc (length (L (pp_TopicName (pb_pkt ?p)))) < 2 ^ 64" "n = pp_TopicName (pb_pkt ?p)"
    "?r = request_of (pb_in ?p) (pb_pkt ?p) (L n)"
    using srv(3) by (simp_all add: sel)
  from handlePublish_effect [OF laws srv(1) ok srv(2) room, unfolded publication.simps]
  obtain srv' where h: "handlePublish E inp pp s srv = (fst (puback_if pp s), snd (puback_if pp s), srv')"
    "server_logs cont opened srv' (if fst (admit E ?r dd) = None then L(n := L n @ [?m]) else L)"
    by blast
  have "fst (admit E ?r dd) = None \<longleftrightarrow> isnew"
    using new pe env(2) by (auto simp: admit_def request_of_def split: prod.splits option.splits)
  then have logs: "server_logs cont opened srv' (if isnew then L(n := L n @ [?m]) else L)" using h(2) by simp
  obtain s' where "session_write ''write PUBACK'' (WritePubAck ?pid) s = (None, s')" "sent s' = sent s @ [WritePubAck ?pid]"
    by (rule session_write_up [OF sess(2)])
  then have ack: "fst (puback_if pp s) = None"
    "sent (snd (puback_if pp s)) = sent s @ (if o_QoS o' = 1 then [WritePubAck (cl_nextPID c)] else [])"
    by (cases "o_QoS o' = 1"; simp add: puback_if_def sel)+
  have m: "m_Payload ?m = payload" "m_IdempotencyID ?m = idem"
    using pe env by (simp_all add: new_message_def message_of_def Let_def)
  let ?frame = "publish_frame pp"
  have frame: "writePublish_frame n (Encode ?env) (o_QoS o') ?pid False = ?frame"
    using client(3) by (simp add: writePublish_frame_eq publish_frame_def sel)
  have pub: "\<exists>c'. client_Publish newV7 now n payload opts c = (None, c') \<and> cn_out (cl_conn c') = cn_out (cl_conn c) @ [?frame]"
    unfolding client_Publish_def Let_def writePublish_def client(2) [symmetric] idem [symmetric] frame
    by (subst client_write_up) (use client(1) in \<open>auto simp: client_up_def\<close>)
  have "packet_loop E [inp] ?frame s srv = Some (None, snd (puback_if pp s), srv')"
    using ReadPacket_publish_frame [OF wf, of "[]"] h(1) ack(1)
    by (simp add: dispatch_def new_packet_def del: split_paired_All)
  moreover obtain c' where "client_Publish newV7 now n payload opts c = (None, c')" "cn_out (cl_conn c') = cn_out (cl_conn c) @ [?frame]"
    using pub by blast
  ultimately show ?thesis
    by (intro exI [of _ c'] exI [of _ ?frame] exI [of _ "snd (puback_if pp s)"] exI [of _ srv'] exI [of _ ?m] conjI)
      (assumption | rule ack(2) m logs)+
qed

theorem sdk_publish_reaches_log_witness:
  "\<exists>c' frame s' srv' m. client_Publish 7 0 ''t'' [1, 2] [] (sample_client []) = (None, c')
    \<and> cn_out (cl_conn c') = [frame]
    \<and> packet_loop mem_engine [sample_inputs] frame sample_session sample_server = Some (None, s', srv')
    \<and> m_Payload m = [1, 2] \<and> m_IdempotencyID m = 7
    \<and> server_logs map_of (\<lambda>_. Inr []) srv' ((\<lambda>_. [])(''t'' := [sample_msg, m]))"
proof -
  obtain dd where dd: "srv_dedup sample_server = Some dd" "fst (Check mem_engine (in_check sample_inputs) (in_check sample_inputs) 7 dd) = None"
    by (simp add: sample_server_def NewServer_def NewHub_def dedup_New_def Check_def evictExpiredLocked_def)
  have s: "may_publish sample_session ''t''" "conn_up sample_session" "instant sample_inputs" "in_opened sample_inputs = (\<lambda>_. Inr [])"
    "sent sample_session = []"
    by (simp_all add: may_publish_def instant_def sample_inputs_def)
  have o': "defaultOptions = apply_options [] (cl_opts (sample_client []))"
    by (simp add: apply_options_def sample_client_def)
  have n: "Suc (length (((\<lambda>_. [])(''t'' := [sample_msg])) ''t'')) < 2 ^ 64" by simp
  have "\<exists>c' frame s' srv' m. client_Publish 7 0 ''t'' [1, 2] [] (sample_client []) = (None, c')
    \<and> cn_out (cl_conn c') = cn_out (cl_conn (sample_client [])) @ [frame]
    \<and> packet_loop mem_engine [sample_inputs] frame sample_session sample_server = Some (None, s', srv')
    \<and> sent s' = sent sample_session @ (if o_QoS defaultOptions = 1 then [WritePubAck (cl_nextPID (sample_client []))] else [])
    \<and> m_Payload m = [1, 2] \<and> m_IdempotencyID m = 7
    \<and> server_logs map_of (\<lambda>_. Inr []) srv'
        (if True then ((\<lambda>_. [])(''t'' := [sample_msg]))(''t'' := ((\<lambda>_. [])(''t'' := [sample_msg])) ''t'' @ [m]) else (\<lambda>_. [])(''t'' := [sample_msg]))"
    by (rule sdk_publish_reaches_log [OF badger_laws_mem writes_commit_mem sample_server_logs dd(1) n s(1-4) _ o'])
      (simp_all add: defaultOptions_def in_int64_def dd(2))
  then show ?thesis by (auto simp del: packet_loop.simps)
qed

end
